(* ===== verification/Prelude.thy ===== *)
theory Prelude
  imports Main "HOL-Library.Word" "HOL-Library.Multiset"
begin

text \<open>
  Shared vocabulary of the development: how a C++ computation may end (\<open>fault\<close> and
  \<open>result\<close>), byte buffers with checked loads and stores, byte order on a little-endian
  host, the sorting algorithms of the standard library, and list lemmas the components
  share.

  Three collections carry the proofs: \<open>res\<close> holds the rewrite rules of the result
  type, \<open>byte_ops\<close> the rewrite rules of loads and stores, \<open>view_ops\<close> the rules of the
  loops over views.
\<close>

named_theorems res "rules for sequencing computations that may fault"
named_theorems byte_ops "rules for loads and stores in byte buffers"
named_theorems view_ops "rules for the loops over filter views"

unbundle bit_operations_syntax

text \<open>Offsets such as \<open>n + 2\<close> stay as they are written in the source.\<close>

declare add_2_eq_Suc [simp del] add_2_eq_Suc' [simp del]

section \<open>Machine types\<close>

type_synonym byte = "8 word"
type_synonym u16 = "16 word"
type_synonym u32 = "32 word"
type_synonym i32 = "32 word"
type_synonym u64 = "64 word"

text \<open>An \<open>int\<close> is a 32-bit word read with \<open>sint\<close>.\<close>

lemma unat_of_nat_small: "n < 2 ^ LENGTH('a) \<Longrightarrow> unat (word_of_nat n :: 'a::len word) = n"
  by (simp add: unsigned_of_nat take_bit_nat_eq_self)

lemma unat_less [simp]: "unat (w :: 'a::len word) < 2 ^ LENGTH('a)"
  by (rule unsigned_less)

section \<open>Outcomes\<close>

text \<open>
  Every way a C++ statement of the program may fail to deliver a value. The first group is
  behaviour the language leaves undefined (the model stops there instead of inventing a
  value); \<open>Assert_failed\<close> is a failed \<open>assert\<close>; \<open>Diverges\<close> is a loop that does not
  end; the rest are the exceptions of the source, with the message of the source.
\<close>

datatype fault =
    Out_of_bounds
  | Invalid_iterator
  | Division_by_zero
  | Signed_overflow
  | Unordered_comparator
  | Null_dereference
  | Assert_failed
  | Diverges
  | Bad_optional_access
  | Bad_variant_access
  | Runtime_error string
  | Logic_error string
  | Stoi_out_of_range

type_synonym 'a result = "fault + 'a"

definition and_then :: "'a result \<Rightarrow> ('a \<Rightarrow> 'b result) \<Rightarrow> 'b result" where
  "and_then m f = (case m of Inl e \<Rightarrow> Inl e | Inr a \<Rightarrow> f a)"

lemma and_then_simps [simp, res]:
  "and_then (Inl e) f = Inl e"
  "and_then (Inr a) f = f a"
  by (simp_all add: and_then_def)

lemma and_then_Inr_iff [res]: "and_then m f = Inr b \<longleftrightarrow> (\<exists>a. m = Inr a \<and> f a = Inr b)"
  by (cases m) simp_all

lemma and_then_Inl_iff: "and_then m f = Inl e \<longleftrightarrow> m = Inl e \<or> (\<exists>a. m = Inr a \<and> f a = Inl e)"
  by (cases m) simp_all

lemma and_then_assoc: "and_then (and_then m f) g = and_then m (\<lambda>a. and_then (f a) g)"
  by (cases m) simp_all

lemma and_then_cong [fundef_cong]:
  "m = n \<Longrightarrow> (\<And>a. n = Inr a \<Longrightarrow> f a = g a) \<Longrightarrow> and_then m f = and_then n g"
  by (cases n) simp_all

text \<open>A loop over a container whose body may fault.\<close>

fun map_r :: "('a \<Rightarrow> 'b result) \<Rightarrow> 'a list \<Rightarrow> 'b list result" where
  "map_r f [] = Inr []"
| "map_r f (x # xs) = and_then (f x) (\<lambda>y. and_then (map_r f xs) (\<lambda>ys. Inr (y # ys)))"

lemma map_r_Inr_iff: "map_r f xs = Inr ys \<longleftrightarrow> list_all2 (\<lambda>x y. f x = Inr y) xs ys"
proof (induction xs arbitrary: ys)
  case Nil
  then show ?case by auto
next
  case (Cons x xs)
  then show ?case by (cases ys) (auto simp: res)
qed

lemma map_r_total:
  assumes "\<And>x. x \<in> set xs \<Longrightarrow> f x = Inr (g x)"
  shows "map_r f xs = Inr (map g xs)"
  using assms by (induction xs) simp_all

lemma map_r_length: "map_r f xs = Inr ys \<Longrightarrow> length ys = length xs"
  by (auto simp: map_r_Inr_iff dest: list_all2_lengthD)

fun fold_r :: "('a \<Rightarrow> 's \<Rightarrow> 's result) \<Rightarrow> 'a list \<Rightarrow> 's \<Rightarrow> 's result" where
  "fold_r f [] s = Inr s"
| "fold_r f (x # xs) s = and_then (f x s) (fold_r f xs)"

lemma fold_r_invariant:
  assumes "fold_r f xs s = Inr t" "P s"
    and "\<And>x s s'. x \<in> set xs \<Longrightarrow> P s \<Longrightarrow> f x s = Inr s' \<Longrightarrow> P s'"
  shows "P t"
  using assms by (induction xs arbitrary: s) (auto simp: res)

text \<open>
  A loop over a filter view: the body runs on the elements the predicate admits, the others
  stay as they are.
\<close>

definition map_view :: "('a \<Rightarrow> bool) \<Rightarrow> ('a \<Rightarrow> 'a result) \<Rightarrow> 'a list \<Rightarrow> 'a list result" where
  "map_view P f xs = map_r (\<lambda>x. if P x then f x else Inr x) xs"

lemma map_view_list_all2 [view_ops]:
  assumes "map_view P f xs = Inr ys"
    and "\<And>x y. x \<in> set xs \<Longrightarrow> P x \<Longrightarrow> f x = Inr y \<Longrightarrow> R x y" and "\<And>x. R x x"
  shows "list_all2 R xs ys"
  using assms(1) unfolding map_view_def map_r_Inr_iff
  by (rule list.rel_mono_strong) (use assms(2,3) in \<open>auto split: if_splits\<close>)

text \<open>Addition of two values of type \<open>int\<close>; an overflow is undefined.\<close>

definition add_int :: "i32 \<Rightarrow> i32 \<Rightarrow> i32 result" where
  "add_int a b =
     (if - (2 ^ 31) \<le> sint a + sint b \<and> sint a + sint b < 2 ^ 31
      then Inr (a + b) else Inl Signed_overflow)"

lemma add_int_Inr_iff [res]:
  "add_int a b = Inr c \<longleftrightarrow> - (2 ^ 31) \<le> sint a + sint b \<and> sint a + sint b < 2 ^ 31 \<and> c = a + b"
  by (auto simp: add_int_def)

section \<open>Byte buffers\<close>

text \<open>
  A buffer is the contents of a \<open>std::vector<char>\<close> or of a span. A load or a store that
  does not lie inside the buffer is undefined. Multi-byte loads and stores are native; the
  program runs on a little-endian host, so \<open>htons\<close> and \<open>htonl\<close> swap the bytes.
\<close>

definition le16 :: "byte \<Rightarrow> byte \<Rightarrow> u16" where
  "le16 a b = ucast a OR push_bit 8 (ucast b)"

definition le32 :: "byte \<Rightarrow> byte \<Rightarrow> byte \<Rightarrow> byte \<Rightarrow> u32" where
  "le32 a b c d = ucast a OR push_bit 8 (ucast b) OR push_bit 16 (ucast c) OR push_bit 24 (ucast d)"

definition byte_of :: "nat \<Rightarrow> 'w::len word \<Rightarrow> byte" where
  "byte_of i w = ucast (drop_bit (8 * i) w)"

definition htons :: "u16 \<Rightarrow> u16" where
  "htons w = le16 (byte_of 1 w) (byte_of 0 w)"

definition htonl :: "u32 \<Rightarrow> u32" where
  "htonl w = le32 (byte_of 3 w) (byte_of 2 w) (byte_of 1 w) (byte_of 0 w)"

abbreviation "ntohs \<equiv> htons"
abbreviation "ntohl \<equiv> htonl"

lemma bit_le16: "bit (le16 a b) n \<longleftrightarrow> (if n < 8 then bit a n else bit b (n - 8))"
  unfolding le16_def
  by (cases "n < 16")
    (auto simp: bit_or_iff bit_ucast_iff bit_push_bit_iff not_less dest: bit_imp_le_length)

lemma bit_le32:
  "bit (le32 a b c d) n \<longleftrightarrow>
     (if n < 8 then bit a n else if n < 16 then bit b (n - 8)
      else if n < 24 then bit c (n - 16) else bit d (n - 24))"
  unfolding le32_def
  by (auto simp: bit_or_iff bit_ucast_iff bit_push_bit_iff not_less dest: bit_imp_le_length)

lemma bit_byte_of: "bit (byte_of i w) n \<longleftrightarrow> n < 8 \<and> bit w (8 * i + n)"
  by (auto simp: byte_of_def bit_ucast_iff bit_drop_bit_eq add.commute)

lemma byte_of_le16 [simp]: "byte_of 0 (le16 a b) = a" "byte_of 1 (le16 a b) = b"
  "byte_of (Suc 0) (le16 a b) = b"
  by (auto intro!: bit_word_eqI simp: bit_byte_of bit_le16)

lemma byte_of_le32 [simp]:
  "byte_of 0 (le32 a b c d) = a" "byte_of 1 (le32 a b c d) = b"
  "byte_of (Suc 0) (le32 a b c d) = b"
  "byte_of 2 (le32 a b c d) = c" "byte_of 3 (le32 a b c d) = d"
  by (auto intro!: bit_word_eqI simp: bit_byte_of bit_le32)

lemma le16_byte_of [simp]: "le16 (byte_of 0 w) (byte_of 1 w) = w"
  "le16 (byte_of 0 w) (byte_of (Suc 0) w) = w"
  by (auto intro!: bit_word_eqI simp: bit_byte_of bit_le16 split: if_splits)

lemma le32_byte_of [simp]:
  "le32 (byte_of 0 w) (byte_of 1 w) (byte_of 2 w) (byte_of 3 w) = w"
  "le32 (byte_of 0 w) (byte_of (Suc 0) w) (byte_of 2 w) (byte_of 3 w) = w"
  by (auto intro!: bit_word_eqI simp: bit_byte_of bit_le32 split: if_splits)

lemma htons_htons [simp]: "htons (htons w) = w"
  by (simp add: htons_def)

lemma htonl_htonl [simp]: "htonl (htonl w) = w"
  by (simp add: htonl_def)

lemma htons_eq_iff [simp]: "htons a = htons b \<longleftrightarrow> a = b"
  by (metis htons_htons)

lemma htonl_eq_iff [simp]: "htonl a = htonl b \<longleftrightarrow> a = b"
  by (metis htonl_htonl)

definition get8 :: "byte list \<Rightarrow> nat \<Rightarrow> byte" where "get8 bs i = bs ! i"

definition get16 :: "byte list \<Rightarrow> nat \<Rightarrow> u16" where
  "get16 bs i = le16 (bs ! i) (bs ! (i + 1))"

definition get32 :: "byte list \<Rightarrow> nat \<Rightarrow> u32" where
  "get32 bs i = le32 (bs ! i) (bs ! (i + 1)) (bs ! (i + 2)) (bs ! (i + 3))"

definition put16 :: "byte list \<Rightarrow> nat \<Rightarrow> u16 \<Rightarrow> byte list" where
  "put16 bs i w = bs[i := byte_of 0 w, i + 1 := byte_of 1 w]"

definition put32 :: "byte list \<Rightarrow> nat \<Rightarrow> u32 \<Rightarrow> byte list" where
  "put32 bs i w =
     bs[i := byte_of 0 w, i + 1 := byte_of 1 w, i + 2 := byte_of 2 w, i + 3 := byte_of 3 w]"

definition load8 :: "byte list \<Rightarrow> nat \<Rightarrow> byte result" where
  "load8 bs i = (if i < length bs then Inr (get8 bs i) else Inl Out_of_bounds)"

definition load16 :: "byte list \<Rightarrow> nat \<Rightarrow> u16 result" where
  "load16 bs i = (if i + 2 \<le> length bs then Inr (get16 bs i) else Inl Out_of_bounds)"

definition load32 :: "byte list \<Rightarrow> nat \<Rightarrow> u32 result" where
  "load32 bs i = (if i + 4 \<le> length bs then Inr (get32 bs i) else Inl Out_of_bounds)"

definition store8 :: "byte list \<Rightarrow> nat \<Rightarrow> byte \<Rightarrow> byte list result" where
  "store8 bs i b = (if i < length bs then Inr (bs[i := b]) else Inl Out_of_bounds)"

definition store16 :: "byte list \<Rightarrow> nat \<Rightarrow> u16 \<Rightarrow> byte list result" where
  "store16 bs i w = (if i + 2 \<le> length bs then Inr (put16 bs i w) else Inl Out_of_bounds)"

definition store32 :: "byte list \<Rightarrow> nat \<Rightarrow> u32 \<Rightarrow> byte list result" where
  "store32 bs i w = (if i + 4 \<le> length bs then Inr (put32 bs i w) else Inl Out_of_bounds)"

text \<open>
  \<open>subspan_r\<close> is \<open>span::subspan(offset)\<close>, undefined beyond the end; \<open>resize_bytes\<close> is
  \<open>vector::resize\<close>, which pads with zero bytes; \<open>copy_into\<close> is a \<open>memcpy\<close> into a
  buffer.
\<close>

definition subspan_r :: "'a list \<Rightarrow> nat \<Rightarrow> 'a list result" where
  "subspan_r xs n = (if n \<le> length xs then Inr (drop n xs) else Inl Out_of_bounds)"

definition resize_bytes :: "byte list \<Rightarrow> nat \<Rightarrow> byte list" where
  "resize_bytes bs n = take n bs @ replicate (n - length bs) 0"

definition copy_into :: "byte list \<Rightarrow> nat \<Rightarrow> byte list \<Rightarrow> byte list result" where
  "copy_into bs i src =
     (if i + length src \<le> length bs
      then Inr (take i bs @ src @ drop (i + length src) bs) else Inl Out_of_bounds)"

lemma length_put [simp, byte_ops]:
  "length (put16 bs i w) = length bs" "length (put32 bs i v) = length bs"
  by (simp_all add: put16_def put32_def)

lemma length_resize_bytes [simp, byte_ops]: "length (resize_bytes bs n) = n"
  by (simp add: resize_bytes_def)

lemma nth_put16 [byte_ops]:
  "i + 2 \<le> length bs \<Longrightarrow>
     put16 bs i w ! j = (if j = i then byte_of 0 w else if j = i + 1 then byte_of 1 w else bs ! j)"
  by (auto simp: put16_def nth_list_update)

lemma nth_put32 [byte_ops]:
  "i + 4 \<le> length bs \<Longrightarrow>
     put32 bs i w ! j =
       (if i \<le> j \<and> j < i + 4 then byte_of (j - i) w else bs ! j)"
  by (auto simp: put32_def nth_list_update numeral_eq_Suc less_Suc_eq)

lemma get16_put16 [simp, byte_ops]: "i + 2 \<le> length bs \<Longrightarrow> get16 (put16 bs i w) i = w"
  by (simp add: get16_def nth_put16)

lemma get32_put32 [simp, byte_ops]: "i + 4 \<le> length bs \<Longrightarrow> get32 (put32 bs i w) i = w"
  by (simp add: get32_def nth_put32)

lemma load_ok [byte_ops]:
  "i < length bs \<Longrightarrow> load8 bs i = Inr (get8 bs i)"
  "i + 2 \<le> length bs \<Longrightarrow> load16 bs i = Inr (get16 bs i)"
  "i + 4 \<le> length bs \<Longrightarrow> load32 bs i = Inr (get32 bs i)"
  by (simp_all add: load8_def load16_def load32_def)

lemma store_ok [byte_ops]:
  "i < length bs \<Longrightarrow> store8 bs i b = Inr (bs[i := b])"
  "i + 2 \<le> length bs \<Longrightarrow> store16 bs i w = Inr (put16 bs i w)"
  "i + 4 \<le> length bs \<Longrightarrow> store32 bs i v = Inr (put32 bs i v)"
  by (simp_all add: store8_def store16_def store32_def)

lemma load_Inr_iff [byte_ops]:
  "load8 bs i = Inr b \<longleftrightarrow> i < length bs \<and> b = get8 bs i"
  "load16 bs i = Inr w \<longleftrightarrow> i + 2 \<le> length bs \<and> w = get16 bs i"
  "load32 bs i = Inr v \<longleftrightarrow> i + 4 \<le> length bs \<and> v = get32 bs i"
  by (auto simp: load8_def load16_def load32_def)

lemma store_Inr_iff [byte_ops]:
  "store8 bs i b = Inr bs' \<longleftrightarrow> i < length bs \<and> bs' = bs[i := b]"
  "store16 bs i w = Inr bs' \<longleftrightarrow> i + 2 \<le> length bs \<and> bs' = put16 bs i w"
  "store32 bs i v = Inr bs' \<longleftrightarrow> i + 4 \<le> length bs \<and> bs' = put32 bs i v"
  by (auto simp: store8_def store16_def store32_def)

lemma subspan_r_Inr_iff [byte_ops]: "subspan_r xs n = Inr ys \<longleftrightarrow> n \<le> length xs \<and> ys = drop n xs"
  by (auto simp: subspan_r_def)

lemma copy_into_Inr_iff [byte_ops]:
  "copy_into bs i src = Inr bs' \<longleftrightarrow>
     i + length src \<le> length bs \<and> bs' = take i bs @ src @ drop (i + length src) bs"
  by (auto simp: copy_into_def)

lemma drop_put [byte_ops]:
  "i + 2 \<le> n \<Longrightarrow> drop n (put16 bs i w) = drop n bs"
  "i + 4 \<le> n \<Longrightarrow> drop n (put32 bs i v) = drop n bs"
  by (simp_all add: put16_def put32_def)

section \<open>Searching byte strings\<close>

text \<open>
  The first position whose rest satisfies a predicate: the shape of \<open>string_view::find\<close>
  (\<open>find_sub\<close>) and of \<open>ranges::search\<close>.
\<close>

fun find_at :: "('a list \<Rightarrow> bool) \<Rightarrow> 'a list \<Rightarrow> nat option" where
  "find_at P [] = (if P [] then Some 0 else None)"
| "find_at P (x # xs) = (if P (x # xs) then Some 0 else map_option Suc (find_at P xs))"

definition find_sub :: "'a list \<Rightarrow> 'a list \<Rightarrow> nat option" where
  "find_sub pat = find_at (\<lambda>rest. take (length pat) rest = pat)"

definition ascii :: "string \<Rightarrow> byte list" where
  "ascii = map of_char"

lemma all_le_Suc: "(\<forall>i\<le>Suc n. Q i) \<longleftrightarrow> Q 0 \<and> (\<forall>i\<le>n. Q (Suc i))"
  by (metis Suc_le_mono not0_implies_Suc zero_le)

lemma find_at_Some:
  "find_at P xs = Some i \<longleftrightarrow> i \<le> length xs \<and> P (drop i xs) \<and> (\<forall>j<i. \<not> P (drop j xs))"
proof (induction xs arbitrary: i)
  case (Cons x xs)
  then show ?case
    by (cases i) (auto simp: less_Suc_eq_0_disj)
qed auto

lemma find_at_None: "find_at P xs = None \<longleftrightarrow> (\<forall>i\<le>length xs. \<not> P (drop i xs))"
proof (induction xs)
  case (Cons x xs)
  have "(\<forall>i\<le>length (x # xs). \<not> P (drop i (x # xs))) \<longleftrightarrow>
      \<not> P (x # xs) \<and> (\<forall>i\<le>length xs. \<not> P (drop i xs))"
    by (auto simp: all_le_Suc)
  with Cons show ?case by auto
qed auto

lemma find_sub_Some_bound:
  assumes "find_sub pat xs = Some i"
  shows "i + length pat \<le> length xs" "take (length pat) (drop i xs) = pat"
proof -
  show t: "take (length pat) (drop i xs) = pat" and "i + length pat \<le> length xs"
    using assms by (auto simp: find_sub_def find_at_Some) (metis length_drop length_take
      le_add_diff_inverse min.cobounded1 nat_add_left_cancel_le)
qed

lemma find_sub_nth:
  assumes "find_sub pat xs = Some i" "k < length pat"
  shows "xs ! (i + k) = pat ! k"
proof -
  note B = find_sub_Some_bound [OF assms(1)]
  have "pat ! k = take (length pat) (drop i xs) ! k" by (simp only: B(2))
  then show ?thesis using assms(2) B(1) by simp
qed

lemma find_sub_append:
  assumes "find_sub pat xs = Some i"
  shows "find_sub pat (xs @ ys) = Some i"
proof -
  note B = find_sub_Some_bound [OF assms]
  have "take (length pat) (drop j (xs @ ys)) = take (length pat) (drop j xs)" if "j \<le> i" for j
    using that B(1) by simp
  moreover have "i \<le> length (xs @ ys)" using B(1) by simp
  ultimately show ?thesis
    using assms unfolding find_sub_def find_at_Some by (metis le_refl less_imp_le)
qed

lemma find_sub_fresh:
  assumes "c \<notin> set xs"
  shows "find_sub (c # pat) (xs @ (c # pat) @ ys) = Some (length xs)"
  using assms
proof (induction xs)
  case Nil
  show ?case by (simp add: find_sub_def)
next
  case (Cons x xs)
  then show ?case by (auto simp: find_sub_def)
qed

end
