(* ===== verification/Packet.thy ===== *)
theory Packet
  imports Prelude
begin

text \<open>
  The packet model, \<^verbatim>\<open>net/packet_view.hpp\<close>, \<^verbatim>\<open>net/packet_view.cpp\<close> and
  \<^verbatim>\<open>net/protocol.hpp\<close>: the read-only \<open>PacketView\<close>, the owning \<open>Packet\<close>, the
  functions that convert between them, and the layer-7 protocol names. A header pointer is
  an offset into the buffer it points into, so a header field access is a checked load.
\<close>

section \<open>Layer 7 protocols\<close>

datatype l7_proto = UNKNOWN | EMPTY | HTTP | TLS | QUIC

definition string_to_proto :: "string \<Rightarrow> l7_proto result" where
  "string_to_proto str =
     (if str = ''tls'' then Inr TLS
      else if str = ''http'' then Inr HTTP
      else if str = ''quic_initial'' then Inr QUIC
      else if str = ''empty'' then Inr EMPTY
      else if str = ''unknown'' then Inr UNKNOWN
      else Inl (Runtime_error ''Can't convert this string to proto''))"

section \<open>Header layout\<close>

text \<open>
  The fields of \<open>iphdr\<close> and \<open>tcphdr\<close> (\<^verbatim>\<open>netinet/ip.h\<close>, \<^verbatim>\<open>netinet/tcp.h\<close>) that the
  program uses, at their offsets. \<open>ihl\<close> is the low nibble of the first IP byte and \<open>doff\<close>
  the high nibble of the thirteenth TCP byte; both count 32-bit words.
\<close>

definition IPPROTO_TCP :: byte where "IPPROTO_TCP = 6"
definition IPPROTO_UDP :: byte where "IPPROTO_UDP = 17"

definition sizeof_iphdr :: nat where "sizeof_iphdr = 20"
definition sizeof_tcphdr :: nat where "sizeof_tcphdr = 20"
definition sizeof_udphdr :: nat where "sizeof_udphdr = 8"

definition low_nibble :: "byte \<Rightarrow> nat" where "low_nibble b = unat (b AND 15)"
definition high_nibble :: "byte \<Rightarrow> nat" where "high_nibble b = unat (drop_bit 4 b)"

definition ip_ihl :: "byte list \<Rightarrow> nat \<Rightarrow> nat result" where
  "ip_ihl bs ip = and_then (load8 bs ip) (\<lambda>b. Inr (low_nibble b))"

definition ip_protocol :: "byte list \<Rightarrow> nat \<Rightarrow> byte result" where
  "ip_protocol bs ip = load8 bs (ip + 9)"

definition ip_saddr :: "byte list \<Rightarrow> nat \<Rightarrow> u32 result" where
  "ip_saddr bs ip = load32 bs (ip + 12)"

definition ip_daddr :: "byte list \<Rightarrow> nat \<Rightarrow> u32 result" where
  "ip_daddr bs ip = load32 bs (ip + 16)"

definition tcp_source :: "byte list \<Rightarrow> nat \<Rightarrow> u16 result" where
  "tcp_source bs tcp = load16 bs tcp"

definition tcp_dest :: "byte list \<Rightarrow> nat \<Rightarrow> u16 result" where
  "tcp_dest bs tcp = load16 bs (tcp + 2)"

definition tcp_seq :: "byte list \<Rightarrow> nat \<Rightarrow> u32 result" where
  "tcp_seq bs tcp = load32 bs (tcp + 4)"

definition tcp_doff :: "byte list \<Rightarrow> nat \<Rightarrow> nat result" where
  "tcp_doff bs tcp = and_then (load8 bs (tcp + 12)) (\<lambda>b. Inr (high_nibble b))"

section \<open>PacketView\<close>

datatype l4_hdr = Tcp_hdr nat | Udp_hdr nat

record packet_view =
  view_packet :: "byte list"
  view_payload :: "byte list"
  view_network_hdr :: nat
  view_transport_hdr :: l4_hdr
  view_packet_id :: u32

definition not_supported :: "string" where
  "not_supported = ''This transport layer protocol is not supported''"

definition get_source_port :: "packet_view \<Rightarrow> u16 result" where
  "get_source_port v =
     and_then (ip_protocol (view_packet v) (view_network_hdr v)) (\<lambda>proto.
       if proto = IPPROTO_TCP then
         (case view_transport_hdr v of
            Tcp_hdr t \<Rightarrow> and_then (tcp_source (view_packet v) t) (\<lambda>w. Inr (ntohs w))
          | Udp_hdr _ \<Rightarrow> Inl Bad_variant_access)
       else if proto = IPPROTO_UDP then
         (case view_transport_hdr v of
            Udp_hdr u \<Rightarrow> and_then (load16 (view_packet v) u) (\<lambda>w. Inr (ntohs w))
          | Tcp_hdr _ \<Rightarrow> Inl Bad_variant_access)
       else Inl (Runtime_error not_supported))"

definition get_dest_port :: "packet_view \<Rightarrow> u16 result" where
  "get_dest_port v =
     and_then (ip_protocol (view_packet v) (view_network_hdr v)) (\<lambda>proto.
       if proto = IPPROTO_TCP then
         (case view_transport_hdr v of
            Tcp_hdr t \<Rightarrow> and_then (tcp_dest (view_packet v) t) (\<lambda>w. Inr (ntohs w))
          | Udp_hdr _ \<Rightarrow> Inl Bad_variant_access)
       else if proto = IPPROTO_UDP then
         (case view_transport_hdr v of
            Udp_hdr u \<Rightarrow> and_then (load16 (view_packet v) (u + 2)) (\<lambda>w. Inr (ntohs w))
          | Tcp_hdr _ \<Rightarrow> Inl Bad_variant_access)
       else Inl (Runtime_error not_supported))"

definition get_seq :: "packet_view \<Rightarrow> u32 option result" where
  "get_seq v =
     and_then (ip_protocol (view_packet v) (view_network_hdr v)) (\<lambda>proto.
       if proto = IPPROTO_TCP then
         (case view_transport_hdr v of
            Tcp_hdr t \<Rightarrow> and_then (tcp_seq (view_packet v) t) (\<lambda>w. Inr (Some (ntohl w)))
          | Udp_hdr _ \<Rightarrow> Inl Bad_variant_access)
       else Inr None)"

definition transport_hdr_len :: "packet_view \<Rightarrow> nat result" where
  "transport_hdr_len v =
     and_then (ip_protocol (view_packet v) (view_network_hdr v)) (\<lambda>proto.
       if proto = IPPROTO_TCP then
         (case view_transport_hdr v of
            Tcp_hdr t \<Rightarrow> and_then (tcp_doff (view_packet v) t) (\<lambda>doff. Inr (doff * 4))
          | Udp_hdr _ \<Rightarrow> Inl Bad_variant_access)
       else if proto = IPPROTO_UDP then Inr sizeof_udphdr
       else Inr 0)"

section \<open>Packet\<close>

datatype packet_action = ACCEPT | DROP | DROP_AND_SEND | SEND

record packet =
  packet_bytes :: "byte list"
  network_offset :: nat
  transport_offset :: nat
  payload_offset :: nat
  action_packet_id :: u32
  action_action :: packet_action
  is_fake_blob :: bool

definition payload :: "packet \<Rightarrow> byte list result" where
  "payload p = subspan_r (packet_bytes p) (payload_offset p)"

definition packet_protocol :: "packet \<Rightarrow> byte result" where
  "packet_protocol p = ip_protocol (packet_bytes p) (network_offset p)"

definition packet_seq :: "packet \<Rightarrow> u32 result" where
  "packet_seq p = and_then (tcp_seq (packet_bytes p) (transport_offset p)) (\<lambda>w. Inr (ntohl w))"

definition create_packet :: "packet_view \<Rightarrow> packet result" where
  "create_packet view =
     (let bs = view_packet view in
      and_then (ip_ihl bs 0) (\<lambda>ihl.
      and_then (ip_protocol bs 0) (\<lambda>proto.
      and_then
        (if proto = IPPROTO_TCP then
           and_then (tcp_doff bs (ihl * 4)) (\<lambda>doff. Inr (ihl * 4 + doff * 4))
         else if proto = IPPROTO_UDP then Inr (ihl * 4 + sizeof_udphdr)
         else Inl (Runtime_error (not_supported @ ''. How?''))) (\<lambda>payload_off.
      Inr \<lparr>packet_bytes = bs, network_offset = 0, transport_offset = ihl * 4,
           payload_offset = payload_off, action_packet_id = view_packet_id view,
           action_action = (if view_packet_id view \<noteq> 0 then ACCEPT else SEND),
           is_fake_blob = False\<rparr>))))"

definition create_packet_from :: "packet_view \<Rightarrow> byte list \<Rightarrow> packet result" where
  "create_packet_from view new_payload =
     and_then (create_packet view) (\<lambda>res.
     and_then (copy_into (resize_bytes (packet_bytes res) (payload_offset res + length new_payload))
                 (payload_offset res) new_payload) (\<lambda>bs.
     and_then (ip_ihl (view_packet view) (view_network_hdr view)) (\<lambda>ihl.
     and_then (transport_hdr_len view) (\<lambda>thl.
     and_then (store16 bs (network_offset res + 2)
                 (htons (word_of_nat (ihl * 4 + thl + length new_payload)))) (\<lambda>bs'.
     Inr (res\<lparr>packet_bytes := bs'\<rparr>))))))"

text \<open>The two overloads of \<open>parse_packet_view\<close>: from raw bytes and from a \<open>Packet\<close>.\<close>

definition parse_packet_view :: "byte list \<Rightarrow> packet_view result" where
  "parse_packet_view bs =
     and_then (ip_protocol bs 0) (\<lambda>proto.
     and_then (ip_ihl bs 0) (\<lambda>ihl.
     and_then
       (if proto = IPPROTO_TCP then Inr (Tcp_hdr (ihl * 4))
        else if proto = IPPROTO_UDP then Inr (Udp_hdr (ihl * 4))
        else Inl (Runtime_error (not_supported @ ''. How?''))) (\<lambda>hdr.
     let pkt = \<lparr>view_packet = bs, view_payload = [], view_network_hdr = 0,
                view_transport_hdr = hdr, view_packet_id = 0\<rparr> in
     and_then (transport_hdr_len pkt) (\<lambda>thl.
     and_then (subspan_r bs (ihl * 4 + thl)) (\<lambda>pl.
     Inr (pkt\<lparr>view_payload := pl\<rparr>))))))"

definition parse_packet_view_of :: "packet \<Rightarrow> packet_view result" where
  "parse_packet_view_of p =
     and_then (packet_protocol p) (\<lambda>proto.
     and_then
       (if proto = IPPROTO_TCP then Inr (Tcp_hdr (transport_offset p))
        else if proto = IPPROTO_UDP then Inr (Udp_hdr (transport_offset p))
        else Inl (Runtime_error (not_supported @ ''. How?''))) (\<lambda>hdr.
     let pkt = \<lparr>view_packet = packet_bytes p, view_payload = [],
                view_network_hdr = network_offset p, view_transport_hdr = hdr,
                view_packet_id = action_packet_id p\<rparr> in
     and_then (ip_ihl (packet_bytes p) (network_offset p)) (\<lambda>ihl.
     and_then (transport_hdr_len pkt) (\<lambda>_.
     and_then (payload p) (\<lambda>pl.
     Inr (pkt\<lparr>view_payload := pl\<rparr>))))))"

section \<open>Well-formed TCP packets\<close>

text \<open>
  The packets the modifiers work on: a complete IPv4 header, a complete TCP header, both at
  least of their fixed size, and offsets that agree with the header fields.
\<close>

definition ihl_bytes :: "byte list \<Rightarrow> nat" where "ihl_bytes bs = 4 * low_nibble (bs ! 0)"

definition doff_bytes :: "byte list \<Rightarrow> nat \<Rightarrow> nat" where
  "doff_bytes bs t = 4 * high_nibble (bs ! (t + 12))"

definition tcp_layout :: "byte list \<Rightarrow> bool" where
  "tcp_layout bs \<longleftrightarrow>
     20 \<le> ihl_bytes bs \<and> bs ! 9 = IPPROTO_TCP \<and> 20 \<le> doff_bytes bs (ihl_bytes bs)
     \<and> ihl_bytes bs + doff_bytes bs (ihl_bytes bs) \<le> length bs"

definition wf_packet :: "packet \<Rightarrow> bool" where
  "wf_packet p \<longleftrightarrow>
     tcp_layout (packet_bytes p) \<and> network_offset p = 0
     \<and> transport_offset p = ihl_bytes (packet_bytes p)
     \<and> payload_offset p = transport_offset p + doff_bytes (packet_bytes p) (transport_offset p)"

definition payload_of :: "packet \<Rightarrow> byte list" where
  "payload_of p = drop (payload_offset p) (packet_bytes p)"

definition seq_of :: "packet \<Rightarrow> u32" where
  "seq_of p = ntohl (get32 (packet_bytes p) (transport_offset p + 4))"

definition headers_of :: "packet \<Rightarrow> byte list" where
  "headers_of p = take (payload_offset p) (packet_bytes p)"

text \<open>What a well-formed packet's view is, and which packet a view stands for.\<close>

definition view_of :: "packet \<Rightarrow> packet_view" where
  "view_of p = \<lparr>view_packet = packet_bytes p, view_payload = payload_of p, view_network_hdr = 0,
     view_transport_hdr = Tcp_hdr (transport_offset p), view_packet_id = action_packet_id p\<rparr>"

lemma low_nibble_le: "low_nibble b \<le> 15"
proof -
  have "b AND 15 \<le> 15" by (rule word_and_le1)
  then show ?thesis by (simp add: low_nibble_def word_le_nat_alt)
qed

lemma high_nibble_le: "high_nibble b \<le> 15"
proof -
  have "unat b div 16 \<le> 15" using unsigned_less [of b, where ?'a = nat] by simp
  then show ?thesis by (simp add: high_nibble_def drop_bit_eq_div unat_div)
qed

lemma wf_packetD:
  assumes "wf_packet p"
  shows "network_offset p = 0" "20 \<le> transport_offset p" "transport_offset p \<le> 60"
    "transport_offset p + 20 \<le> payload_offset p" "payload_offset p \<le> transport_offset p + 60"
    "payload_offset p \<le> length (packet_bytes p)"
    "packet_bytes p ! 9 = IPPROTO_TCP"
    "4 * low_nibble (packet_bytes p ! 0) = transport_offset p"
    "4 * high_nibble (packet_bytes p ! (transport_offset p + 12)) = payload_offset p - transport_offset p"
    "packet_bytes p \<noteq> []"
  using assms low_nibble_le [of "packet_bytes p ! 0"]
    high_nibble_le [of "packet_bytes p ! (transport_offset p + 12)"]
  by (auto simp: wf_packet_def tcp_layout_def ihl_bytes_def doff_bytes_def)

lemma wf_packetI:
  assumes "network_offset p = 0" "20 \<le> transport_offset p"
    "transport_offset p + 20 \<le> payload_offset p" "payload_offset p \<le> length (packet_bytes p)"
    "packet_bytes p ! 9 = IPPROTO_TCP"
    "4 * low_nibble (packet_bytes p ! 0) = transport_offset p"
    "4 * high_nibble (packet_bytes p ! (transport_offset p + 12)) = payload_offset p - transport_offset p"
  shows "wf_packet p"
  using assms by (auto simp: wf_packet_def tcp_layout_def ihl_bytes_def doff_bytes_def)

named_theorems wf_run "what the accessors return on a well-formed packet"

lemma wf_payload [wf_run]: "wf_packet p \<Longrightarrow> payload p = Inr (payload_of p)"
  by (simp add: payload_def payload_of_def subspan_r_def wf_packetD(6))

lemma wf_protocol [wf_run]: "wf_packet p \<Longrightarrow> packet_protocol p = Inr IPPROTO_TCP"
  using wf_packetD [of p]
  by (simp add: packet_protocol_def ip_protocol_def load8_def get8_def)

lemma wf_seq [wf_run]: "wf_packet p \<Longrightarrow> packet_seq p = Inr (seq_of p)"
  using wf_packetD [of p] by (simp add: packet_seq_def tcp_seq_def load32_def seq_of_def)

lemma wf_ihl [wf_run]:
  "wf_packet p \<Longrightarrow> ip_ihl (packet_bytes p) 0 = Inr (low_nibble (packet_bytes p ! 0))"
  using wf_packetD [of p] by (simp add: ip_ihl_def load8_def get8_def)

lemma wf_ip_protocol [wf_run]: "wf_packet p \<Longrightarrow> ip_protocol (packet_bytes p) 0 = Inr IPPROTO_TCP"
  using wf_packetD [of p] by (simp add: ip_protocol_def load8_def get8_def)

lemmas wf_network_offset [wf_run] = wf_packetD(1)

lemma wf_doff [wf_run]:
  "wf_packet p \<Longrightarrow> tcp_doff (packet_bytes p) (transport_offset p) =
     Inr (high_nibble (packet_bytes p ! (transport_offset p + 12)))"
  using wf_packetD [of p] by (simp add: tcp_doff_def load8_def get8_def)

lemma wf_load_seq [wf_run]:
  "wf_packet p \<Longrightarrow> tcp_seq (packet_bytes p) (transport_offset p) = Inr (htonl (seq_of p))"
  using wf_packetD [of p] by (simp add: tcp_seq_def load32_def seq_of_def)

lemma wf_parse [wf_run]: "wf_packet p \<Longrightarrow> parse_packet_view_of p = Inr (view_of p)"
  by (simp add: parse_packet_view_of_def wf_run Let_def transport_hdr_len_def view_of_def)

section \<open>Header rewriting\<close>

text \<open>
  The header fields the program stores to, as functions on packets. None of them touches the
  bytes that fix the layout, so each keeps well-formedness, the payload and the other fields.
\<close>

definition put_seq :: "packet \<Rightarrow> u32 \<Rightarrow> packet" where
  "put_seq p s = p\<lparr>packet_bytes := put32 (packet_bytes p) (transport_offset p + 4) (htonl s)\<rparr>"

definition put_check :: "packet \<Rightarrow> u16 \<Rightarrow> packet" where
  "put_check p c = p\<lparr>packet_bytes := put16 (packet_bytes p) (transport_offset p + 16) c\<rparr>"

definition put_tot_len :: "packet \<Rightarrow> u16 \<Rightarrow> packet" where
  "put_tot_len p n = p\<lparr>packet_bytes := put16 (packet_bytes p) 2 (htons n)\<rparr>"

definition put_ttl :: "packet \<Rightarrow> byte \<Rightarrow> packet" where
  "put_ttl p t = p\<lparr>packet_bytes := (packet_bytes p)[8 := t]\<rparr>"

lemmas put_defs = put_seq_def put_check_def put_tot_len_def put_ttl_def

lemma wf_packet_update:
  assumes "wf_packet p" "payload_offset p \<le> length bs"
    "bs ! 0 = packet_bytes p ! 0" "bs ! 9 = packet_bytes p ! 9"
    "bs ! (transport_offset p + 12) = packet_bytes p ! (transport_offset p + 12)"
  shows "wf_packet (p\<lparr>packet_bytes := bs\<rparr>)"
  using assms(2-) wf_packetD [OF assms(1)] by (intro wf_packetI) simp_all

lemma wf_put [simp]:
  assumes "wf_packet p"
  shows "wf_packet (put_seq p s)" "wf_packet (put_check p c)" "wf_packet (put_tot_len p n)"
    "wf_packet (put_ttl p t)"
  using wf_packetD [OF assms] assms
  by (auto simp: put_defs nth_put16 nth_put32 intro!: wf_packet_update)

lemma put_fields [simp]:
  "transport_offset (put_seq p s) = transport_offset p" "payload_offset (put_seq p s) = payload_offset p"
  "action_packet_id (put_seq p s) = action_packet_id p" "action_action (put_seq p s) = action_action p"
  "is_fake_blob (put_seq p s) = is_fake_blob p"
  "transport_offset (put_check p c) = transport_offset p" "payload_offset (put_check p c) = payload_offset p"
  "action_packet_id (put_check p c) = action_packet_id p" "action_action (put_check p c) = action_action p"
  "is_fake_blob (put_check p c) = is_fake_blob p"
  "transport_offset (put_tot_len p n) = transport_offset p" "payload_offset (put_tot_len p n) = payload_offset p"
  "action_packet_id (put_tot_len p n) = action_packet_id p" "action_action (put_tot_len p n) = action_action p"
  "is_fake_blob (put_tot_len p n) = is_fake_blob p"
  "transport_offset (put_ttl p t) = transport_offset p" "payload_offset (put_ttl p t) = payload_offset p"
  "action_packet_id (put_ttl p t) = action_packet_id p" "action_action (put_ttl p t) = action_action p"
  "is_fake_blob (put_ttl p t) = is_fake_blob p"
  "length (packet_bytes (put_seq p s)) = length (packet_bytes p)"
  "length (packet_bytes (put_check p c)) = length (packet_bytes p)"
  "length (packet_bytes (put_tot_len p n)) = length (packet_bytes p)"
  "length (packet_bytes (put_ttl p t)) = length (packet_bytes p)"
  by (simp_all add: put_defs)

lemma payload_of_put [simp]:
  assumes "wf_packet p"
  shows "payload_of (put_seq p s) = payload_of p" "payload_of (put_check p c) = payload_of p"
    "payload_of (put_tot_len p n) = payload_of p" "payload_of (put_ttl p t) = payload_of p"
  using wf_packetD [OF assms] by (simp_all add: payload_of_def put_defs drop_put)

lemma seq_of_put [simp]:
  assumes "wf_packet p"
  shows "seq_of (put_seq p s) = s" "seq_of (put_check p c) = seq_of p"
    "seq_of (put_tot_len p n) = seq_of p" "seq_of (put_ttl p t) = seq_of p"
  using wf_packetD [OF assms]
  by (simp_all add: seq_of_def put_defs get32_def nth_put16 nth_put32 nth_list_update)

lemma wf_stores [wf_run]:
  assumes "wf_packet p"
  shows "store32 (packet_bytes p) (transport_offset p + 4) (htonl s) = Inr (packet_bytes (put_seq p s))"
    "store16 (packet_bytes p) (transport_offset p + 16) c = Inr (packet_bytes (put_check p c))"
    "store16 (packet_bytes p) 2 (htons n) = Inr (packet_bytes (put_tot_len p n))"
    "store8 (packet_bytes p) 8 t = Inr (packet_bytes (put_ttl p t))"
  using wf_packetD [OF assms] by (simp_all add: store_ok put_defs)

lemma put_bytes [simp]:
  "p\<lparr>packet_bytes := packet_bytes (put_seq p s)\<rparr> = put_seq p s"
  "p\<lparr>packet_bytes := packet_bytes (put_check p c)\<rparr> = put_check p c"
  "p\<lparr>packet_bytes := packet_bytes (put_tot_len p n)\<rparr> = put_tot_len p n"
  "p\<lparr>packet_bytes := packet_bytes (put_ttl p t)\<rparr> = put_ttl p t"
  by (simp_all add: put_defs)

section \<open>Creating packets\<close>

lemma create_packet_view_of [wf_run]:
  assumes "wf_packet p"
  shows "create_packet (view_of p) =
    Inr (p\<lparr>action_action := (if action_packet_id p \<noteq> 0 then ACCEPT else SEND), is_fake_blob := False\<rparr>)"
proof -
  note D = wf_packetD [OF assms]
  have L: "low_nibble (packet_bytes p ! 0) * 4 = transport_offset p"
    "transport_offset p + high_nibble (packet_bytes p ! (transport_offset p + 12)) * 4 = payload_offset p"
    using D by simp_all
  show ?thesis
    by (simp add: create_packet_def view_of_def wf_run assms L D(1) Let_def)
qed

text \<open>The packet \<open>create_packet_from\<close> builds: the old headers, the new payload, the new total length.\<close>

definition rebuild :: "packet \<Rightarrow> byte list \<Rightarrow> packet" where
  "rebuild p pl = put_tot_len (p\<lparr>packet_bytes := headers_of p @ pl,
     action_action := (if action_packet_id p \<noteq> 0 then ACCEPT else SEND), is_fake_blob := False\<rparr>)
     (word_of_nat (payload_offset p + length pl))"

lemma wf_headers_append:
  assumes "wf_packet p"
  shows "wf_packet (p\<lparr>packet_bytes := headers_of p @ pl\<rparr>)"
  using assms wf_packetD [OF assms]
  by (intro wf_packet_update) (simp_all add: headers_of_def nth_append min_def)

lemma wf_packet_cong [simp]:
  "wf_packet (p\<lparr>action_action := a\<rparr>) = wf_packet p"
  "wf_packet (p\<lparr>is_fake_blob := b\<rparr>) = wf_packet p"
  "wf_packet (p\<lparr>action_packet_id := i\<rparr>) = wf_packet p"
  by (simp_all add: wf_packet_def)

lemma packet_views_cong [simp]:
  "payload_of (p\<lparr>action_action := a\<rparr>) = payload_of p" "seq_of (p\<lparr>action_action := a\<rparr>) = seq_of p"
  "payload_of (p\<lparr>is_fake_blob := b\<rparr>) = payload_of p" "seq_of (p\<lparr>is_fake_blob := b\<rparr>) = seq_of p"
  "payload_of (p\<lparr>action_packet_id := i\<rparr>) = payload_of p" "seq_of (p\<lparr>action_packet_id := i\<rparr>) = seq_of p"
  by (simp_all add: payload_of_def seq_of_def)

lemma wf_rebuild_base:
  assumes "wf_packet p"
  shows "wf_packet (p\<lparr>packet_bytes := headers_of p @ pl, action_action := a, is_fake_blob := b\<rparr>)"
  using wf_headers_append [OF assms, of pl] by (simp add: wf_packet_def)

lemma length_headers_of [simp]: "wf_packet p \<Longrightarrow> length (headers_of p) = payload_offset p"
  by (simp add: headers_of_def wf_packetD(6))

lemma headers_payload: "headers_of p @ payload_of p = packet_bytes p"
  by (simp add: headers_of_def payload_of_def)

lemma rebuild_fields [simp]:
  "transport_offset (rebuild p pl) = transport_offset p"
  "payload_offset (rebuild p pl) = payload_offset p"
  "action_packet_id (rebuild p pl) = action_packet_id p"
  "action_action (rebuild p pl) = (if action_packet_id p \<noteq> 0 then ACCEPT else SEND)"
  "is_fake_blob (rebuild p pl) = False"
  by (simp_all add: rebuild_def)

lemma rebuild_wf [simp]: "wf_packet p \<Longrightarrow> wf_packet (rebuild p pl)"
  unfolding rebuild_def by (intro wf_put wf_rebuild_base)

lemma rebuild_payload [simp]: "wf_packet p \<Longrightarrow> payload_of (rebuild p pl) = pl"
  unfolding rebuild_def
  by (subst payload_of_put(3) [OF wf_rebuild_base]) (simp_all add: payload_of_def)

lemma rebuild_seq [simp]: "wf_packet p \<Longrightarrow> seq_of (rebuild p pl) = seq_of p"
  unfolding rebuild_def
  using wf_packetD [of p]
  by (subst seq_of_put(3) [OF wf_rebuild_base])
    (simp_all add: seq_of_def get32_def headers_of_def nth_append)

lemma rebuild_length [simp]: "wf_packet p \<Longrightarrow> length (packet_bytes (rebuild p pl)) = payload_offset p + length pl"
  by (simp add: rebuild_def)

lemma resize_then_copy:
  assumes "n \<le> length bs"
  shows "copy_into (resize_bytes bs (n + length pl)) n pl = Inr (take n bs @ pl)"
  using assms by (simp add: copy_into_def resize_bytes_def min_def)

lemma view_of_fields [simp]:
  "view_packet (view_of p) = packet_bytes p" "view_network_hdr (view_of p) = 0"
  "view_payload (view_of p) = payload_of p" "view_packet_id (view_of p) = action_packet_id p"
  "view_transport_hdr (view_of p) = Tcp_hdr (transport_offset p)"
  by (simp_all add: view_of_def)

lemma create_packet_from_view_of [wf_run]:
  assumes "wf_packet p"
  shows "create_packet_from (view_of p) pl = Inr (rebuild p pl)"
proof -
  note D = wf_packetD [OF assms]
  have L: "low_nibble (packet_bytes p ! 0) * 4 +
      high_nibble (packet_bytes p ! (transport_offset p + 12)) * 4 = payload_offset p"
    using D by simp
  have thl: "transport_hdr_len (view_of p) = Inr (high_nibble (packet_bytes p ! (transport_offset p + 12)) * 4)"
    by (simp add: transport_hdr_len_def wf_run assms)
  have st: "store16 (take (payload_offset p) (packet_bytes p) @ pl) 2 w =
      Inr (put16 (take (payload_offset p) (packet_bytes p) @ pl) 2 w)" for w
    using D by (simp add: store_ok)
  show ?thesis
    using D(6)
    by (simp add: create_packet_from_def create_packet_view_of [OF assms] resize_then_copy thl st
        wf_ihl [OF assms] D(1) L rebuild_def put_tot_len_def headers_of_def del: of_nat_add of_nat_mult)
qed

definition tot_len_of :: "packet \<Rightarrow> u16" where
  "tot_len_of p = ntohs (get16 (packet_bytes p) 2)"

lemma put_tot_len_tot_len: "wf_packet p \<Longrightarrow> tot_len_of (put_tot_len p n) = n"
  using wf_packetD [of p] by (simp add: tot_len_of_def put_tot_len_def)

lemma rebuild_header_byte:
  assumes "wf_packet p" "j < payload_offset p" "j \<noteq> 2" "j \<noteq> 3"
  shows "packet_bytes (rebuild p pl) ! j = packet_bytes p ! j"
  using assms wf_packetD [of p]
  by (simp add: rebuild_def put_tot_len_def nth_put16 headers_of_def nth_append)

text \<open>A raw TCP buffer and the packet it becomes.\<close>

definition packet_of :: "byte list \<Rightarrow> u32 \<Rightarrow> packet" where
  "packet_of bs i = \<lparr>packet_bytes = bs, network_offset = 0, transport_offset = ihl_bytes bs,
     payload_offset = ihl_bytes bs + doff_bytes bs (ihl_bytes bs), action_packet_id = i,
     action_action = (if i \<noteq> 0 then ACCEPT else SEND), is_fake_blob = False\<rparr>"

lemma packet_of_fields [simp]:
  "packet_bytes (packet_of bs i) = bs" "action_packet_id (packet_of bs i) = i"
  "action_action (packet_of bs i) = (if i \<noteq> 0 then ACCEPT else SEND)"
  "is_fake_blob (packet_of bs i) = False"
  by (simp_all add: packet_of_def)

lemma wf_packet_of [simp]: "wf_packet (packet_of bs i) = tcp_layout bs"
  by (simp add: wf_packet_def packet_of_def)

lemma parse_packet_view_tcp [wf_run]:
  assumes "tcp_layout bs"
  shows "parse_packet_view bs = Inr (view_of (packet_of bs 0))"
proof -
  have w: "wf_packet (packet_of bs 0)" using assms by simp
  note D = wf_packetD [OF w, unfolded packet_of_fields]
  note R = wf_ihl [OF w, unfolded packet_of_fields] wf_ip_protocol [OF w, unfolded packet_of_fields]
    wf_doff [OF w, unfolded packet_of_fields]
  have L: "low_nibble (bs ! 0) * 4 = transport_offset (packet_of bs 0)"
    "transport_offset (packet_of bs 0) + high_nibble (bs ! (transport_offset (packet_of bs 0) + 12)) * 4
      = payload_offset (packet_of bs 0)"
    using D by simp_all
  show ?thesis
    using D(6)
    by (simp add: parse_packet_view_def R L transport_hdr_len_def Let_def subspan_r_def view_of_def
        payload_of_def)
qed

lemma create_packet_tcp [wf_run]:
  assumes "tcp_layout bs"
  shows "create_packet (view_of (packet_of bs 0)\<lparr>view_packet_id := i\<rparr>) = Inr (packet_of bs i)"
proof -
  have w: "wf_packet (packet_of bs i)" using assms by simp
  have "view_of (packet_of bs 0)\<lparr>view_packet_id := i\<rparr> = view_of (packet_of bs i)"
    by (simp add: view_of_def packet_of_def payload_of_def)
  moreover have "packet_of bs i\<lparr>action_action := (if i \<noteq> 0 then ACCEPT else SEND), is_fake_blob := False\<rparr>
      = packet_of bs i"
    by (simp add: packet_of_def)
  ultimately show ?thesis
    using create_packet_view_of [OF w] by simp
qed

text \<open>A small packet for concrete runs: 10.0.0.1:50000 to 10.0.0.2:443, sequence number 1000, flags
  PSH and ACK, four payload bytes.\<close>

definition sample_bytes :: "byte list" where
  "sample_bytes =
     [0x45, 0, 0, 44, 0x12, 0x34, 0, 0, 64, 6, 0, 0, 10, 0, 0, 1, 10, 0, 0, 2,
      0xC3, 0x50, 0x01, 0xBB, 0, 0, 0x03, 0xE8, 0, 0, 0, 0, 0x50, 0x18, 0xFF, 0xFF, 0, 0, 0, 0,
      1, 2, 3, 4]"

lemma sample_layout: "tcp_layout sample_bytes"
  by code_simp

lemma length_sample: "length sample_bytes = 44"
  by (simp add: sample_bytes_def)

section \<open>Properties\<close>

text \<open>C31. Parsing a buffer, copying the view into an owning packet and viewing that packet again
  gives back the view that was parsed: buffer, payload, header positions and queue id, for TCP
  and for UDP alike. The copy is marked ACCEPT exactly when it carries a queue id.\<close>

theorem create_packet_roundtrip:
  assumes "parse_packet_view bs = Inr v"
  shows "\<exists>p. create_packet (v\<lparr>view_packet_id := i\<rparr>) = Inr p
           \<and> parse_packet_view_of p = Inr (v\<lparr>view_packet_id := i\<rparr>)
           \<and> packet_bytes p = bs \<and> action_packet_id p = i
           \<and> action_action p = (if i \<noteq> 0 then ACCEPT else SEND)"
proof -
  let ?off = "\<lambda>ihl thl. ihl * 4 + thl :: nat"
  from assms obtain proto ihl where h: "ip_protocol bs 0 = Inr proto" "ip_ihl bs 0 = Inr ihl"
    by (auto simp: parse_packet_view_def res)
  have "proto = IPPROTO_TCP \<or> proto = IPPROTO_UDP"
    using assms h by (auto simp: parse_packet_view_def split: if_splits)
  then show ?thesis
  proof
    assume tcp: "proto = IPPROTO_TCP"
    with assms h obtain doff where "tcp_doff bs (ihl * 4) = Inr doff"
      "subspan_r bs (?off ihl (doff * 4)) = Inr (view_payload v)"
      "v = \<lparr>view_packet = bs, view_payload = view_payload v, view_network_hdr = 0,
         view_transport_hdr = Tcp_hdr (ihl * 4), view_packet_id = 0\<rparr>"
      by (auto simp: parse_packet_view_def transport_hdr_len_def res Let_def)
    with h tcp show ?thesis
      by (cases v) (simp add: create_packet_def parse_packet_view_of_def packet_protocol_def
          transport_hdr_len_def payload_def Let_def)
  next
    assume udp: "proto = IPPROTO_UDP"
    then have "proto \<noteq> IPPROTO_TCP" by (simp add: IPPROTO_TCP_def IPPROTO_UDP_def)
    with udp assms h have "subspan_r bs (?off ihl sizeof_udphdr) = Inr (view_payload v)"
      "v = \<lparr>view_packet = bs, view_payload = view_payload v, view_network_hdr = 0,
         view_transport_hdr = Udp_hdr (ihl * 4), view_packet_id = 0\<rparr>"
      by (auto simp: parse_packet_view_def transport_hdr_len_def res Let_def)
    with h udp \<open>proto \<noteq> IPPROTO_TCP\<close> show ?thesis
      by (cases v) (simp add: create_packet_def parse_packet_view_of_def packet_protocol_def
          transport_hdr_len_def payload_def Let_def)
  qed
qed

text \<open>Rebuilding a packet around a new payload keeps its headers except for the total length,
  which becomes the size of the new packet modulo 2 to the 16; sequence number and queue id are
  kept, and the result is a well-formed packet that carries exactly the new payload.\<close>

theorem create_packet_from_correct:
  assumes "wf_packet p"
  shows "\<exists>q. create_packet_from (view_of p) pl = Inr q \<and> wf_packet q
           \<and> payload_of q = pl \<and> seq_of q = seq_of p \<and> action_packet_id q = action_packet_id p
           \<and> tot_len_of q = word_of_nat (payload_offset p + length pl)
           \<and> payload_offset q = payload_offset p
           \<and> (\<forall>j. 4 \<le> j \<and> j < payload_offset p \<longrightarrow> packet_bytes q ! j = packet_bytes p ! j)"
  using assms
  by (intro exI [of _ "rebuild p pl"])
    (simp add: wf_run rebuild_header_byte put_tot_len_tot_len [OF wf_rebuild_base]
      rebuild_def [of p pl, THEN arg_cong [where f = tot_len_of]])

lemma create_packet_from_correct_witness:
  "wf_packet (packet_of sample_bytes 7)
   \<and> (\<exists>q. create_packet_from (view_of (packet_of sample_bytes 7)) [9, 9] = Inr q
        \<and> payload_of q = [9, 9] \<and> tot_len_of q = 42)"
proof -
  have w: "wf_packet (packet_of sample_bytes 7)" by (simp add: sample_layout)
  have "payload_offset (packet_of sample_bytes 7) = 40" by code_simp
  with w create_packet_from_correct [OF w, of "[9, 9]"] show ?thesis by auto
qed

lemma create_packet_roundtrip_witness:
  "\<exists>v p. parse_packet_view sample_bytes = Inr v \<and> create_packet (v\<lparr>view_packet_id := 7\<rparr>) = Inr p
     \<and> parse_packet_view_of p = Inr (v\<lparr>view_packet_id := 7\<rparr>) \<and> action_action p = ACCEPT"
proof -
  have v: "parse_packet_view sample_bytes = Inr (view_of (packet_of sample_bytes 0))"
    by (rule parse_packet_view_tcp [OF sample_layout])
  show ?thesis using v create_packet_roundtrip [OF v, of 7] by force
qed

end
