(* ===== verification/Checksum.thy ===== *)
theory Checksum
  imports Packet
begin

text \<open>
  The TCP checksum, \<^verbatim>\<open>net/checksum.cpp\<close>: the sum over pseudo header, TCP header and
  payload, its folding to sixteen bits, and the store into the packet. The main result is the
  receiver's test, \<open>receiver_accepts\<close>: it is written down from the protocol, with its own pseudo
  header and its own addition, and a packet with a fresh checksum passes it.
\<close>

section \<open>The code\<close>

text \<open>The lambda \<open>add_bytes\<close>: sixteen-bit words in network order, a last odd byte padded.\<close>

fun add_bytes :: "u32 \<Rightarrow> byte list \<Rightarrow> u32" where
  "add_bytes acc (a # b # rest) = add_bytes (acc + ucast (ntohs (le16 a b))) rest"
| "add_bytes acc [a] = acc + ucast (push_bit 8 (ucast a) :: u16)"
| "add_bytes acc [] = acc"

text \<open>The loop \<open>while (sum >> 16)\<close>.\<close>

function fold_carries :: "u32 \<Rightarrow> u32" where
  "fold_carries acc =
     (if drop_bit 16 acc \<noteq> 0 then fold_carries ((acc AND 0xFFFF) + drop_bit 16 acc) else acc)"
  by pat_completeness auto

lemma carry_decreases:
  fixes n :: nat
  assumes "0 < n div 65536"
  shows "n mod 65536 + n div 65536 < n"
  using assms div_mult_mod_eq [of n 65536] by linarith

lemma carry_mod:
  fixes n :: nat
  shows "(n mod 65536 + n div 65536) mod 65535 = n mod 65535"
proof -
  have "n = 65535 * (n div 65536) + (n mod 65536 + n div 65536)"
    using div_mult_mod_eq [of n 65536] by linarith
  then show ?thesis by (metis mod_mult_self4)
qed

lemma unat_low16: "unat (acc AND 0xFFFF :: u32) = unat acc mod 65536"
proof -
  have "acc AND 0xFFFF = take_bit 16 acc"
    by (simp add: take_bit_eq_mask mask_eq_exp_minus_1)
  then show ?thesis by (simp add: unsigned_take_bit_eq take_bit_eq_mod unat_mod)
qed

lemma unat_high16: "unat (drop_bit 16 acc :: u32) = unat acc div 65536"
  by (simp add: drop_bit_eq_div unat_div)

lemma unat_fold_step:
  "unat ((acc AND 0xFFFF) + drop_bit 16 acc :: u32) = unat acc mod 65536 + unat acc div 65536"
proof -
  have "unat acc mod 65536 + unat acc div 65536 < 2 ^ 32"
    using unsigned_less [of acc, where ?'a = nat] by simp
  then show ?thesis by (simp add: unat_word_ariths unat_low16 unat_high16)
qed

termination fold_carries
proof (relation "measure unat")
  fix acc :: u32
  assume "drop_bit 16 acc \<noteq> 0"
  then have "unat (drop_bit 16 acc :: u32) \<noteq> 0" by (simp add: unat_eq_0)
  then show "((acc AND 0xFFFF) + drop_bit 16 acc, acc) \<in> measure unat"
    using carry_decreases [of "unat acc"] by (simp add: unat_fold_step unat_high16)
qed simp

declare fold_carries.simps [simp del]

text \<open>The pseudo header as its twelve bytes: addresses as stored, zero, protocol, length.\<close>

definition pseudo_hdr :: "u32 \<Rightarrow> u32 \<Rightarrow> u16 \<Rightarrow> byte list" where
  "pseudo_hdr src dst tcp_len =
     [byte_of 0 src, byte_of 1 src, byte_of 2 src, byte_of 3 src,
      byte_of 0 dst, byte_of 1 dst, byte_of 2 dst, byte_of 3 dst,
      0, IPPROTO_TCP, byte_of 0 tcp_len, byte_of 1 tcp_len]"

definition calc_tcp_checksum :: "packet \<Rightarrow> u16 result" where
  "calc_tcp_checksum pkt =
     (let bs = packet_bytes pkt; tcp = transport_offset pkt in
      and_then (payload pkt) (\<lambda>pl.
      and_then (ip_saddr bs (network_offset pkt)) (\<lambda>saddr.
      and_then (ip_daddr bs (network_offset pkt)) (\<lambda>daddr.
      and_then (tcp_doff bs tcp) (\<lambda>doff.
      and_then (subspan_r bs tcp) (\<lambda>from_tcp.
      if length from_tcp < doff * 4 then Inl Out_of_bounds
      else
        let phdr = pseudo_hdr saddr daddr (htons (word_of_nat (doff * 4 + length pl)));
            acc = add_bytes (add_bytes (add_bytes 0 phdr) (take (doff * 4) from_tcp)) pl
        in Inr (htons (ucast (NOT (fold_carries acc))))))))))"

definition calc_packet_checksum :: "packet \<Rightarrow> packet result" where
  "calc_packet_checksum pkt =
     and_then (packet_protocol pkt) (\<lambda>proto.
     if proto = IPPROTO_TCP then
       and_then (store16 (packet_bytes pkt) (transport_offset pkt + 16) 0) (\<lambda>bs0.
       and_then (calc_tcp_checksum (pkt\<lparr>packet_bytes := bs0\<rparr>)) (\<lambda>check.
       and_then (store16 bs0 (transport_offset pkt + 16) check) (\<lambda>bs1.
       Inr (pkt\<lparr>packet_bytes := bs1\<rparr>))))
     else Inl (Logic_error ''UDP checksums aren't implemented yet''))"

section \<open>Arithmetic of the sum\<close>

text \<open>The sum as a natural number, without the 32-bit wrap-around.\<close>

fun word_sum :: "byte list \<Rightarrow> nat" where
  "word_sum (a # b # rest) = unat (ntohs (le16 a b)) + word_sum rest"
| "word_sum [a] = 256 * unat a"
| "word_sum [] = 0"

lemma word_sum_bound: "word_sum bs \<le> 65535 * ((length bs + 1) div 2)"
proof (induction bs rule: word_sum.induct)
  case (1 a b rest)
  have "unat (ntohs (le16 a b)) \<le> 65535"
    using unsigned_less [of "ntohs (le16 a b)", where ?'a = nat] by simp
  with 1 show ?case by simp
next
  case (2 a)
  then show ?case using unsigned_less [of a, where ?'a = nat] by simp
qed simp

lemma word_sum_append: "even (length xs) \<Longrightarrow> word_sum (xs @ ys) = word_sum xs + word_sum ys"
  by (induction xs rule: word_sum.induct) simp_all

lemma word_sum_split:
  assumes "even i" "i + 2 \<le> length bs"
  shows "word_sum bs = word_sum (take i bs) + unat (ntohs (get16 bs i)) + word_sum (drop (i + 2) bs)"
proof -
  have "bs = take i bs @ bs ! i # bs ! (i + 1) # drop (i + 2) bs"
    using assms(2) by (metis Cons_nth_drop_Suc Suc_eq_plus1 add_2_eq_Suc' append_take_drop_id
        less_eq_Suc_le Suc_leD Suc_lessI le_imp_less_Suc)
  then have "word_sum bs = word_sum (take i bs @ bs ! i # bs ! (i + 1) # drop (i + 2) bs)"
    by simp
  also have "\<dots> = word_sum (take i bs) + unat (ntohs (get16 bs i)) + word_sum (drop (i + 2) bs)"
    using assms by (subst word_sum_append) (simp_all add: get16_def)
  finally show ?thesis .
qed

lemma unat_pad: "unat (ucast (push_bit 8 (ucast a :: u16)) :: u32) = 256 * unat (a :: byte)"
proof -
  have a: "unat a < 256" using unsigned_less [of a, where ?'a = nat] by simp
  have u: "unat (ucast a :: u16) = unat a" using a by (simp add: unsigned_ucast_eq take_bit_eq_mod)
  have "unat (push_bit 8 (ucast a :: u16)) = 256 * unat a"
    using a by (simp only: unsigned_push_bit_eq u) (simp add: push_bit_eq_mult take_bit_eq_mod)
  then show ?thesis using a by (simp only: unsigned_ucast_eq) (simp add: take_bit_eq_mod)
qed

lemma add_bytes_word_sum: "add_bytes acc bs = acc + word_of_nat (word_sum bs)"
proof (induction acc bs rule: add_bytes.induct)
  case (1 acc a b rest)
  have "(word_of_nat (unat (ntohs (le16 a b))) :: u32) = ucast (ntohs (le16 a b))"
    by simp
  with 1 show ?case by (simp add: add.assoc)
next
  case (2 acc a)
  have "(word_of_nat (256 * unat a) :: u32) = ucast (push_bit 8 (ucast a :: u16))"
    by (simp only: flip: unat_pad) simp
  then show ?case by simp
qed simp

text \<open>Folding keeps the value modulo 65535 and ends below 65536; only zero folds to zero.\<close>

lemma fold_carries_spec:
  "unat (fold_carries acc) < 65536 \<and> unat (fold_carries acc) mod 65535 = unat acc mod 65535
   \<and> (fold_carries acc = 0 \<longleftrightarrow> acc = 0)"
proof (induction acc rule: fold_carries.induct)
  case (1 acc)
  let ?n = "unat acc" let ?next = "(acc AND 0xFFFF) + drop_bit 16 acc"
  show ?case
  proof (cases "drop_bit 16 acc = 0")
    case True
    then have "?n div 65536 = 0" by (metis unat_high16 unat_0)
    then have "?n < 65536" by simp
    with True show ?thesis by (simp add: fold_carries.simps [of acc])
  next
    case False
    then have step: "fold_carries acc = fold_carries ?next" by (simp add: fold_carries.simps [of acc])
    from False have q: "?n div 65536 \<noteq> 0" by (metis unat_high16 unat_eq_0)
    have "unat ?next mod 65535 = ?n mod 65535"
      unfolding unat_fold_step by (rule carry_mod)
    moreover have "?next \<noteq> 0" using q unat_fold_step [of acc] by (metis add_is_0 unat_0)
    moreover have "acc \<noteq> 0" using q by (metis div_0 unat_0)
    ultimately show ?thesis using "1.IH" [OF False] by (simp add: step)
  qed
qed

section \<open>The checksum of a well-formed packet\<close>

definition pseudo_hdr_of :: "packet \<Rightarrow> byte list" where
  "pseudo_hdr_of p = pseudo_hdr (get32 (packet_bytes p) 12) (get32 (packet_bytes p) 16)
     (htons (word_of_nat (length (packet_bytes p) - transport_offset p)))"

text \<open>The sum over pseudo header and segment: what the receiver adds up.\<close>

definition segment_sum :: "packet \<Rightarrow> nat" where
  "segment_sum p = word_sum (pseudo_hdr_of p) + word_sum (drop (transport_offset p) (packet_bytes p))"

definition checksum_of :: "packet \<Rightarrow> u16" where
  "checksum_of p = htons (ucast (NOT (fold_carries (word_of_nat (segment_sum p)))))"

definition with_checksum :: "packet \<Rightarrow> packet" where
  "with_checksum p = put_check p (checksum_of (put_check p 0))"

lemma wf_calc_tcp_checksum [wf_run]:
  assumes "wf_packet p"
  shows "calc_tcp_checksum p = Inr (checksum_of p)"
proof -
  note D = wf_packetD [OF assms]
  let ?bs = "packet_bytes p" and ?t = "transport_offset p"
  let ?d = "high_nibble (?bs ! (?t + 12)) * 4"
  have d: "?d = payload_offset p - ?t" using D by simp
  have len: "?d + length (payload_of p) = length ?bs - ?t"
    using D by (simp add: d payload_of_def)
  have loads: "ip_saddr ?bs 0 = Inr (get32 ?bs 12)" "ip_daddr ?bs 0 = Inr (get32 ?bs 16)"
    using D by (simp_all add: ip_saddr_def ip_daddr_def load32_def)
  have seg: "word_sum (take ?d (drop ?t ?bs)) + word_sum (payload_of p) = word_sum (drop ?t ?bs)"
  proof -
    have "drop ?t ?bs = take ?d (drop ?t ?bs) @ payload_of p"
      using D by (simp add: d payload_of_def flip: drop_drop)
        (metis append_take_drop_id drop_drop le_add_diff_inverse2 le_trans le_add1)
    moreover have "length (take ?d (drop ?t ?bs)) = ?d" using D by (simp add: d)
    then have "even (length (take ?d (drop ?t ?bs)))" by (metis even_mult_iff even_numeral)
    ultimately show ?thesis by (metis word_sum_append)
  qed
  have fits: "\<not> length (drop ?t ?bs) < ?d" using D by (simp add: d)
  have sub: "subspan_r ?bs ?t = Inr (drop ?t ?bs)" using D by (simp add: subspan_r_def)
  show ?thesis
    unfolding calc_tcp_checksum_def Let_def
    by (simp only: D(1) wf_payload [OF assms] loads wf_doff [OF assms] sub and_then_simps fits
        if_False len)
      (simp add: checksum_of_def segment_sum_def pseudo_hdr_of_def add_bytes_word_sum
        flip: of_nat_add seg, simp add: seg add.assoc flip: of_nat_add)
qed

lemma store_check_again:
  assumes "wf_packet p"
  shows "store16 (packet_bytes (put_check p a)) (transport_offset p + 16) c =
    Inr (packet_bytes (put_check p c))"
  using wf_stores(2) [OF wf_put(2) [OF assms, of a], of c] wf_packetD [OF assms]
  by (simp add: put_check_def put16_def list_update_swap)

lemma wf_calc_packet_checksum [wf_run]:
  assumes "wf_packet p"
  shows "calc_packet_checksum p = Inr (with_checksum p)"
proof -
  have "p\<lparr>packet_bytes := packet_bytes (put_check p 0)\<rparr> = put_check p 0" by simp
  then show ?thesis
    using assms by (simp add: calc_packet_checksum_def wf_run store_check_again with_checksum_def)
qed

lemma with_checksum_fields [simp]:
  "transport_offset (with_checksum p) = transport_offset p"
  "payload_offset (with_checksum p) = payload_offset p"
  "action_packet_id (with_checksum p) = action_packet_id p"
  "action_action (with_checksum p) = action_action p"
  "is_fake_blob (with_checksum p) = is_fake_blob p"
  "length (packet_bytes (with_checksum p)) = length (packet_bytes p)"
  by (simp_all add: with_checksum_def)

lemma with_checksum_wf [simp]:
  assumes "wf_packet p"
  shows "wf_packet (with_checksum p)" "payload_of (with_checksum p) = payload_of p"
    "seq_of (with_checksum p) = seq_of p"
  using assms by (simp_all add: with_checksum_def)

lemma unat_fold_carries_zero: "unat (fold_carries acc) = 0 \<longleftrightarrow> acc = 0"
  using fold_carries_spec [of acc] by (simp add: unat_eq_0)

text \<open>Storing a checksum adds its value to the sum.\<close>

lemma segment_sum_put_check:
  assumes "wf_packet p"
  shows "segment_sum (put_check p c) = segment_sum (put_check p 0) + unat (ntohs c)"
proof -
  note D = wf_packetD [OF assms]
  let ?t = "transport_offset p"
  let ?seg = "\<lambda>c. drop ?t (packet_bytes (put_check p c))"
  have seg: "word_sum (?seg c) =
      word_sum (take 16 (drop ?t (packet_bytes p))) + unat (ntohs c)
        + word_sum (drop (?t + 18) (packet_bytes p))" for c
  proof -
    have "get16 (?seg c) 16 = c"
      using D by (simp add: put_check_def get16_def nth_put16)
    moreover have "take 16 (?seg c) = take 16 (drop ?t (packet_bytes p))"
      using D by (intro nth_equalityI) (simp_all add: put_check_def nth_put16)
    moreover have "drop 18 (?seg c) = drop (?t + 18) (packet_bytes p)"
      using D by (simp add: put_check_def drop_put add.commute)
    ultimately show ?thesis
      using D by (subst word_sum_split [of 16]) simp_all
  qed
  have "pseudo_hdr_of (put_check p c) = pseudo_hdr_of (put_check p 0)"
    using D by (simp add: pseudo_hdr_of_def put_check_def get32_def nth_put16)
  moreover have "unat (ntohs 0) = 0"
    by (simp add: htons_def le16_def byte_of_def)
  ultimately show ?thesis by (simp add: segment_sum_def seg)
qed

lemma segment_sum_bound:
  assumes "wf_packet p" "length (packet_bytes p) \<le> 65535"
  shows "segment_sum p + 65536 < 2 ^ 32"
proof -
  have "word_sum (pseudo_hdr_of p) \<le> 65535 * 6"
    using word_sum_bound [of "pseudo_hdr_of p"] by (simp add: pseudo_hdr_of_def pseudo_hdr_def)
  moreover have "word_sum (drop (transport_offset p) (packet_bytes p)) \<le> 65535 * 32768"
    using word_sum_bound [of "drop (transport_offset p) (packet_bytes p)"] assms(2)
    by (elim order_trans) simp
  ultimately show ?thesis by (simp add: segment_sum_def)
qed

lemma nonzero_multiple:
  fixes x :: nat
  assumes "x \<noteq> 0" "x < 65536" "x mod 65535 = 0"
  shows "x = 65535"
proof -
  obtain k where k: "x = 65535 * k" using assms(3) by blast
  with assms(1,2) have "k = 1" by linarith
  with k show ?thesis by simp
qed

lemma checksum_complement:
  assumes "n + 65536 < 2 ^ 32"
  shows "fold_carries (word_of_nat (n + (65535 - unat (fold_carries (word_of_nat n))))) = 65535"
proof -
  let ?f = "unat (fold_carries (word_of_nat n))"
  let ?w = "word_of_nat (n + (65535 - ?f)) :: u32"
  have n: "unat (word_of_nat n :: u32) = n" using assms by (intro unat_of_nat_small) simp
  have f: "?f < 65536" "?f mod 65535 = n mod 65535" "?f = 0 \<longleftrightarrow> n = 0"
    using fold_carries_spec [of "word_of_nat n"] unat_fold_carries_zero [of "word_of_nat n"] n
    by (auto simp del: of_nat_eq_0_iff)
  have w: "unat ?w = n + (65535 - ?f)" using assms by (intro unat_of_nat_small) simp
  have "(n + (65535 - ?f)) mod 65535 = (?f + (65535 - ?f)) mod 65535"
    using f(2) by (metis mod_add_left_eq)
  then have m: "unat ?w mod 65535 = 0" using f(1) unfolding w by simp
  have "unat ?w \<noteq> 0" using f(1,3) unfolding w by auto
  then have "?w \<noteq> 0" by (metis unat_0)
  then have "unat (fold_carries ?w) \<noteq> 0" "unat (fold_carries ?w) < 65536"
    "unat (fold_carries ?w) mod 65535 = 0"
    using fold_carries_spec [of ?w] m by (simp_all add: unat_fold_carries_zero)
  then have "unat (fold_carries ?w) = 65535" by (rule nonzero_multiple)
  then have "unat (fold_carries ?w) = unat (65535 :: u32)" by (simp only: unat_numeral) simp
  then show ?thesis by (simp only: word_unat_eq_iff)
qed

lemma ucast_NOT_16:
  assumes "unat (w :: u32) < 65536"
  shows "unat (ucast (NOT w) :: u16) = 65535 - unat w"
proof -
  have w: "w = ucast (ucast w :: u16)"
    using assms by (intro word_unat_eq_iff [THEN iffD2]) (simp add: unsigned_ucast_eq unsigned_take_bit_eq take_bit_nat_eq_self)
  have "(ucast (NOT w) :: u16) = NOT (ucast w)"
    by (intro bit_word_eqI) (simp add: bit_ucast_iff bit_not_iff)
  also have "\<dots> = - 1 - ucast w" by (simp add: not_eq_complement)
  also have "unat \<dots> = 65535 - unat (ucast w :: u16)"
    by (subst unat_sub) (simp_all add: unsigned_minus_1_eq_mask mask_eq_exp_minus_1)
  finally show ?thesis
    using assms by (simp add: unsigned_ucast_eq unsigned_take_bit_eq take_bit_nat_eq_self)
qed

section \<open>The receiver\<close>

text \<open>
  What a receiver of TCP over IPv4 does with the bytes of a packet, written down from the
  protocol and not from the program: it adds the sixteen-bit words, most significant byte first,
  in one's complement, where a carry out of the top is added at the bottom, over the pseudo header
  (the two addresses, a zero byte, the protocol and the length of the segment) and the segment, an
  odd last byte being padded with zero; the packet passes if the sum is all ones.
\<close>

definition ones_add :: "nat \<Rightarrow> nat \<Rightarrow> nat" where
  "ones_add a b = (if a + b < 65536 then a + b else a + b - 65535)"

fun ones_sum :: "byte list \<Rightarrow> nat" where
  "ones_sum (hi # lo # rest) = ones_add (256 * unat hi + unat lo) (ones_sum rest)"
| "ones_sum [hi] = 256 * unat hi"
| "ones_sum [] = 0"

definition received_pseudo_header :: "byte list \<Rightarrow> nat \<Rightarrow> byte list" where
  "received_pseudo_header bs seg_len =
     take 4 (drop 12 bs) @ take 4 (drop 16 bs) @ [0, bs ! 9]
       @ [word_of_nat (seg_len div 256), word_of_nat (seg_len mod 256)]"

definition receiver_accepts :: "byte list \<Rightarrow> bool" where
  "receiver_accepts bs \<longleftrightarrow>
     (let segment = drop (4 * (unat (bs ! 0) mod 16)) bs
      in ones_sum (received_pseudo_header bs (length segment) @ segment) = 65535)"

lemma unat_be16: "unat (ntohs (le16 a b)) = 256 * unat a + unat b"
proof -
  let ?hi = "push_bit 8 (ucast a :: u16)" and ?lo = "ucast b :: u16"
  have ab: "unat a < 256" "unat b < 256" using unat_less [of a] unat_less [of b] by simp_all
  have u: "unat (ucast a :: u16) = unat a" "unat ?lo = unat b"
    using ab by (simp_all add: unsigned_ucast_eq take_bit_eq_mod)
  have hi: "unat ?hi = 256 * unat a"
    using ab by (simp only: unsigned_push_bit_eq u) (simp add: push_bit_eq_mult take_bit_eq_mod)
  have "ntohs (le16 a b) = le16 b a" by (simp add: htons_def)
  also have "\<dots> = ?lo OR ?hi" by (simp add: le16_def)
  also have "\<dots> = ?lo + ?hi"
    by (rule disjunctive_add [symmetric]) (auto simp: bit_ucast_iff bit_push_bit_iff dest: bit_imp_le_length)
  finally show ?thesis using ab u hi by (simp add: unat_word_ariths)
qed

lemma ones_sum_spec:
  "ones_sum bs < 65536 \<and> ones_sum bs mod 65535 = word_sum bs mod 65535
   \<and> (ones_sum bs = 0 \<longleftrightarrow> word_sum bs = 0)"
proof (induction bs rule: ones_sum.induct)
  case (1 hi lo rest)
  let ?w = "256 * unat hi + unat lo" and ?r = "ones_sum rest"
  have w: "?w < 65536" using unat_less [of hi] unat_less [of lo] by simp
  have "(?w + ?r) mod 65535 = (?w + word_sum rest) mod 65535"
    using "1.IH" by (metis mod_add_right_eq)
  moreover have "(?w + ?r - 65535) mod 65535 = (?w + ?r) mod 65535" if "65535 \<le> ?w + ?r"
    using le_mod_geq [OF that] by simp
  ultimately show ?case
    using "1.IH" w by (auto simp: ones_add_def unat_be16 simp del: mod_add_right_eq)
next
  case (2 hi)
  then show ?case using unat_less [of hi] by simp
qed simp

lemma ones_sum_full: "ones_sum bs = 65535 \<longleftrightarrow> word_sum bs \<noteq> 0 \<and> word_sum bs mod 65535 = 0"
  using ones_sum_spec [of bs] nonzero_multiple [of "ones_sum bs"] by (auto simp del: mod_eq_0_iff_dvd)

text \<open>The program's pseudo header is the receiver's, and a freshly stored checksum makes the sum full.\<close>

lemma unat_byte_of: "unat (byte_of i (w :: u16)) = unat w div 2 ^ (8 * i) mod 256"
proof -
  have "unat (byte_of i w) = take_bit 8 (drop_bit (8 * i) (unat w))"
    unfolding byte_of_def unsigned_ucast_eq unsigned_drop_bit_eq
    using unat_less [of w] by (simp add: take_bit_nat_eq_self)
  then show ?thesis by (simp only: take_bit_eq_mod drop_bit_eq_div) simp
qed

lemma byte_of_be:
  assumes "n < 65536"
  shows "byte_of 0 (htons (word_of_nat n)) = word_of_nat (n div 256)"
    "byte_of (Suc 0) (htons (word_of_nat n)) = word_of_nat (n mod 256)"
proof -
  have n: "unat (word_of_nat n :: u16) = n" using assms by (intro unat_of_nat_small) simp
  have "unat (byte_of 1 (word_of_nat n :: u16)) = unat (word_of_nat (n div 256) :: byte)"
    "unat (byte_of 0 (word_of_nat n :: u16)) = unat (word_of_nat (n mod 256) :: byte)"
    unfolding unat_byte_of n by (simp_all add: unsigned_of_nat take_bit_eq_mod)
  then have "byte_of 1 (word_of_nat n :: u16) = word_of_nat (n div 256)"
    "byte_of 0 (word_of_nat n :: u16) = word_of_nat (n mod 256)"
    by (simp_all only: word_unat_eq_iff)
  then show "byte_of 0 (htons (word_of_nat n)) = word_of_nat (n div 256)"
    "byte_of (Suc 0) (htons (word_of_nat n)) = word_of_nat (n mod 256)"
    unfolding htons_def byte_of_le16 by blast+
qed

lemma byte_of_get32:
  "byte_of 0 (get32 bs k) = bs ! k" "byte_of (Suc 0) (get32 bs k) = bs ! (k + 1)"
  "byte_of 2 (get32 bs k) = bs ! (k + 2)" "byte_of 3 (get32 bs k) = bs ! (k + 3)"
  by (auto intro!: bit_word_eqI simp: get32_def bit_byte_of bit_le32)

lemma pseudo_hdr_received:
  assumes "wf_packet p" "length (packet_bytes p) \<le> 65535"
  shows "received_pseudo_header (packet_bytes p) (length (packet_bytes p) - transport_offset p) = pseudo_hdr_of p"
proof -
  note D = wf_packetD [OF assms(1)]
  let ?bs = "packet_bytes p" and ?n = "length (packet_bytes p) - transport_offset p"
  have four: "take 4 (drop k ?bs) = [?bs ! k, ?bs ! (k + 1), ?bs ! (k + 2), ?bs ! (k + 3)]"
    if "k + 4 \<le> length ?bs" for k
    using that by (intro nth_equalityI) (auto simp: less_Suc_eq numeral_eq_Suc)
  have n: "?n < 65536" using assms(2) by simp
  have "20 \<le> length ?bs" using D by simp
  then show ?thesis
    using four [of 12] four [of 16] D(7)
    by (simp add: received_pseudo_header_def pseudo_hdr_of_def pseudo_hdr_def byte_of_get32
        byte_of_be [OF n] del: of_nat_diff)
qed

lemma low_nibble_mod: "low_nibble b = unat b mod 16"
proof -
  have "b AND 15 = take_bit 4 b" by (simp add: take_bit_eq_mask mask_eq_exp_minus_1)
  then show ?thesis by (simp add: low_nibble_def unsigned_take_bit_eq take_bit_eq_mod unat_mod)
qed

lemma receiver_accepts_sum:
  assumes "wf_packet p" "length (packet_bytes p) \<le> 65535"
  shows "receiver_accepts (packet_bytes p) \<longleftrightarrow> segment_sum p \<noteq> 0 \<and> segment_sum p mod 65535 = 0"
proof -
  note D = wf_packetD [OF assms(1)]
  have "4 * (unat (packet_bytes p ! 0) mod 16) = transport_offset p"
    using D(8) by (simp only: low_nibble_mod)
  then have "receiver_accepts (packet_bytes p) \<longleftrightarrow>
      ones_sum (pseudo_hdr_of p @ drop (transport_offset p) (packet_bytes p)) = 65535"
    by (simp add: receiver_accepts_def Let_def pseudo_hdr_received [OF assms])
  also have "\<dots> \<longleftrightarrow> segment_sum p \<noteq> 0 \<and> segment_sum p mod 65535 = 0"
    by (simp only: ones_sum_full segment_sum_def, subst word_sum_append)
      (simp_all add: pseudo_hdr_of_def pseudo_hdr_def)
  finally show ?thesis .
qed

lemma segment_sum_with_checksum:
  assumes "wf_packet p" "length (packet_bytes p) \<le> 65535"
  shows "fold_carries (word_of_nat (segment_sum (with_checksum p))) = 65535"
    "segment_sum (with_checksum p) \<noteq> 0 \<and> segment_sum (with_checksum p) mod 65535 = 0"
proof -
  let ?n = "segment_sum (put_check p 0)"
  let ?c = "checksum_of (put_check p 0)"
  let ?f = "fold_carries (word_of_nat ?n)"
  have bound: "?n + 65536 < 2 ^ 32" using assms by (intro segment_sum_bound) simp_all
  have f: "unat ?f < 65536" using fold_carries_spec [of "word_of_nat ?n"] by blast
  then have "unat (ntohs ?c) = 65535 - unat ?f"
    by (simp add: checksum_of_def ucast_NOT_16)
  then have sum: "segment_sum (with_checksum p) = ?n + (65535 - unat ?f)"
    using segment_sum_put_check [OF assms(1), of ?c] by (simp add: with_checksum_def)
  then show full: "fold_carries (word_of_nat (segment_sum (with_checksum p))) = 65535"
    using checksum_complement [OF bound] by simp
  have "segment_sum (with_checksum p) < 2 ^ 32" using bound sum by linarith
  then have u: "unat (word_of_nat (segment_sum (with_checksum p)) :: u32) = segment_sum (with_checksum p)"
    by (intro unat_of_nat_small) simp
  have "segment_sum (with_checksum p) \<noteq> 0"
    using full fold_carries_spec [of 0] by (intro notI) simp
  moreover have "segment_sum (with_checksum p) mod 65535 = 0"
    using fold_carries_spec [of "word_of_nat (segment_sum (with_checksum p))"] unfolding full u by simp
  ultimately show "segment_sum (with_checksum p) \<noteq> 0 \<and> segment_sum (with_checksum p) mod 65535 = 0" ..
qed

lemma with_checksum_accepted:
  assumes "wf_packet p" "length (packet_bytes p) \<le> 65535"
  shows "receiver_accepts (packet_bytes (with_checksum p))"
  using assms segment_sum_with_checksum(2) [OF assms]
  by (subst receiver_accepts_sum) simp_all

section \<open>Properties\<close>

text \<open>C17. A TCP packet whose checksum the program has just computed passes the receiver's test, the
  one's complement sum over the receiver's own pseudo header and the segment, as the protocol
  prescribes it; recomputing the checksum over it gives zero. Nothing but the two checksum bytes
  changes. The size bound is IPv4's own limit.\<close>

theorem calc_packet_checksum_verifies:
  assumes "wf_packet p" "length (packet_bytes p) \<le> 65535"
  shows "\<exists>q c. calc_packet_checksum p = Inr q \<and> q = put_check p c
    \<and> receiver_accepts (packet_bytes q) \<and> calc_tcp_checksum q = Inr 0"
proof -
  have "checksum_of (with_checksum p) = 0"
    using segment_sum_with_checksum(1) [OF assms]
    by (simp add: checksum_of_def htons_def le16_def byte_of_def)
  then show ?thesis
    using assms with_checksum_accepted [OF assms] by (auto simp: wf_run with_checksum_def)
qed

lemma calc_packet_checksum_verifies_witness:
  "\<exists>q. calc_packet_checksum (packet_of sample_bytes 7) = Inr q \<and> receiver_accepts (packet_bytes q)"
proof -
  have w: "wf_packet (packet_of sample_bytes 7)" "length (packet_bytes (packet_of sample_bytes 7)) \<le> 65535"
    by (simp_all add: sample_layout length_sample)
  show ?thesis using calc_packet_checksum_verifies [OF w] by blast
qed

end
