(* ===== verification/Args.thy ===== *)
theory Args
  imports Prelude
begin

text \<open>
  The configuration's little languages, \<^verbatim>\<open>modify/args.cpp\<close>: split positions such as
  \<^verbatim>\<open>hoststart+1\<close> (\<open>parse_position\<close>) and payload blobs (\<open>parse_blob\<close>), with the
  printers they are inverse to.
\<close>

section \<open>Characters\<close>

text \<open>\<open>std::isalpha\<close>, \<open>std::isdigit\<close>, \<open>std::isspace\<close> and \<open>std::isxdigit\<close> in the C locale.\<close>

definition isalpha :: "char \<Rightarrow> bool" where
  "isalpha c \<longleftrightarrow> (let n = of_char c :: nat in (65 \<le> n \<and> n \<le> 90) \<or> (97 \<le> n \<and> n \<le> 122))"

definition isdigit :: "char \<Rightarrow> bool" where
  "isdigit c \<longleftrightarrow> (let n = of_char c :: nat in 48 \<le> n \<and> n \<le> 57)"

definition isspace :: "char \<Rightarrow> bool" where
  "isspace c \<longleftrightarrow> (let n = of_char c :: nat in n = 32 \<or> (9 \<le> n \<and> n \<le> 13))"

definition xdigit_value :: "char \<Rightarrow> nat option" where
  "xdigit_value c =
     (let n = of_char c :: nat in
      if 48 \<le> n \<and> n \<le> 57 then Some (n - 48)
      else if 97 \<le> n \<and> n \<le> 102 then Some (n - 87)
      else if 65 \<le> n \<and> n \<le> 70 then Some (n - 55)
      else None)"

section \<open>Positions\<close>

datatype operation = NoOp | Add | Subtract

record position =
  arg :: string
  operation :: operation
  offset :: u64

definition empty_position :: position where
  "empty_position = \<lparr>arg = [], operation = NoOp, offset = 0\<rparr>"

definition digits_value :: "string \<Rightarrow> nat" where
  "digits_value = foldl (\<lambda>acc c. 10 * acc + (of_char c - 48)) 0"

definition stoi :: "string \<Rightarrow> int result" where
  "stoi ds = (if digits_value ds \<le> 2147483647 then Inr (int (digits_value ds)) else Inl Stoi_out_of_range)"

text \<open>The outer \<open>while\<close> of \<open>parse_position\<close>; \<open>iter\<close> is the rest of the string.\<close>

function parse_loop :: "string \<Rightarrow> position \<Rightarrow> position result" where
  "parse_loop iter ret =
     (if iter = [] then Inr ret
      else
        let ret1 = ret\<lparr>arg := arg ret @ takeWhile isalpha iter\<rparr>;
            iter1 = dropWhile isalpha iter;
            digit = takeWhile isdigit iter1;
            iter2 = dropWhile isdigit iter1
        in and_then (if digit = [] then Inr ret1
                     else and_then (stoi digit) (\<lambda>n. Inr (ret1\<lparr>offset := word_of_int n\<rparr>))) (\<lambda>ret2.
           case iter2 of
             [] \<Rightarrow> Inr ret2
           | c # iter3 \<Rightarrow>
               if c = CHR ''+'' then parse_loop iter3 (ret2\<lparr>operation := Add\<rparr>)
               else if c = CHR ''-'' then parse_loop iter3 (ret2\<lparr>operation := Subtract\<rparr>)
               else Inl (Runtime_error ''Unexpected symbol'')))"
  by pat_completeness auto

lemma drop_scan_shorter:
  assumes "dropWhile P (dropWhile Q xs) = c # ys"
  shows "length ys < length xs"
proof -
  have "length (c # ys) \<le> length xs"
    unfolding assms [symmetric] by (meson length_dropWhile_le order_trans)
  then show ?thesis by simp
qed

termination parse_loop
  by (relation "measure (\<lambda>(iter, ret). length iter)") (auto dest!: drop_scan_shorter [OF sym])

declare parse_loop.simps [simp del]

definition parse_position :: "string \<Rightarrow> position result" where
  "parse_position split =
     (if split = [] then Inl Assert_failed
      else and_then (parse_loop split empty_position) (\<lambda>ret.
        if operation ret \<noteq> NoOp \<and> arg ret = []
        then Inl (Runtime_error (''You specified an operation but didn't specify marker position in ''
               @ [CHR 0x27] @ split @ [CHR 0x27]))
        else Inr ret))"

section \<open>Blobs\<close>

text \<open>
  The file system is a parameter: \<open>fs_exists\<close> is \<open>std::filesystem::exists\<close>, \<open>fs_read\<close> what
  \<open>fopen\<close>, \<open>fseek\<close>, \<open>ftell\<close> and \<open>fread\<close> give for a whole file, or the error text.
\<close>

record file_system =
  fs_exists :: "string \<Rightarrow> bool"
  fs_read :: "string \<Rightarrow> string + byte list"

text \<open>\<open>strtol(s, nullptr, 16)\<close>: blanks, a sign, an optional prefix, and the longest run of digits.\<close>

fun xdigits_value :: "nat \<Rightarrow> string \<Rightarrow> nat" where
  "xdigits_value acc [] = acc"
| "xdigits_value acc (c # cs) =
     (case xdigit_value c of None \<Rightarrow> acc | Some d \<Rightarrow> xdigits_value (16 * acc + d) cs)"

definition skip_0x :: "string \<Rightarrow> string" where
  "skip_0x s =
     (if 3 \<le> length s \<and> s ! 0 = CHR ''0'' \<and> (s ! 1 = CHR ''x'' \<or> s ! 1 = CHR ''X'')
         \<and> xdigit_value (s ! 2) \<noteq> None
      then drop 2 s else s)"

definition strtol16 :: "string \<Rightarrow> int" where
  "strtol16 s =
     (case dropWhile isspace s of
        [] \<Rightarrow> 0
      | c # rest \<Rightarrow>
          if c = CHR ''-'' then - int (xdigits_value 0 (skip_0x rest))
          else if c = CHR ''+'' then int (xdigits_value 0 (skip_0x rest))
          else int (xdigits_value 0 (skip_0x (c # rest))))"

fun hex_bytes :: "string \<Rightarrow> byte list" where
  "hex_bytes (a # b # rest) = word_of_int (strtol16 [a, b]) # hex_bytes rest"
| "hex_bytes [a] = [word_of_int (strtol16 [a])]"
| "hex_bytes [] = []"

definition parse_blob :: "file_system \<Rightarrow> string \<Rightarrow> byte list result" where
  "parse_blob fs str =
     (if take 2 str = ''0x'' then
        let hex = drop 2 str;
            hex = (if length hex mod 2 \<noteq> 0 then CHR ''0'' # hex else hex)
        in Inr (hex_bytes hex)
      else if \<not> fs_exists fs str then
        Inl (Runtime_error (''Blob at filepath '' @ [CHR 0x27] @ str @ [CHR 0x27] @ '' does not exist''))
      else
        (case fs_read fs str of
           Inl err \<Rightarrow> Inl (Runtime_error err)
         | Inr buf \<Rightarrow> Inr buf))"

section \<open>Printers\<close>

fun show_nat :: "nat \<Rightarrow> string" where
  "show_nat n = (if n < 10 then [char_of (48 + n)] else show_nat (n div 10) @ [char_of (48 + n mod 10)])"

declare show_nat.simps [simp del]

definition show_operation :: "operation \<Rightarrow> string" where
  "show_operation oper = (case oper of NoOp \<Rightarrow> [] | Add \<Rightarrow> ''+'' | Subtract \<Rightarrow> ''-'')"

definition show_position :: "position \<Rightarrow> string" where
  "show_position p = arg p @ show_operation (operation p) @ show_nat (unat (offset p))"

text \<open>What the parser can return: letters only, an offset of type \<open>int\<close>, no bare operation.\<close>

definition wf_position :: "position \<Rightarrow> bool" where
  "wf_position p \<longleftrightarrow>
     list_all isalpha (arg p) \<and> unat (offset p) \<le> 2147483647 \<and> (operation p \<noteq> NoOp \<longrightarrow> arg p \<noteq> [])"

definition hex_digit :: "nat \<Rightarrow> char" where
  "hex_digit n = (if n < 10 then char_of (48 + n) else char_of (87 + n))"

definition show_hex :: "byte list \<Rightarrow> string" where
  "show_hex bs = concat (map (\<lambda>b. [hex_digit (unat b div 16), hex_digit (unat b mod 16)]) bs)"

section \<open>Lemmas\<close>

lemma of_char_digit: "d < 10 \<Longrightarrow> of_char (char_of (48 + d) :: char) = (48 + d :: nat)"
  by (simp add: of_char_of)

lemma isdigit_digit [simp]: "d < 10 \<Longrightarrow> isdigit (char_of (48 + d :: nat))"
  by (simp add: isdigit_def of_char_of)

lemma isdigit_not_alpha: "isdigit c \<Longrightarrow> \<not> isalpha c"
  by (auto simp: isdigit_def isalpha_def Let_def)

lemma isdigit_show_nat: "list_all isdigit (show_nat n)"
  by (induction n rule: show_nat.induct) (subst show_nat.simps, simp)

lemma show_nat_nonempty [simp]: "show_nat n \<noteq> []"
  by (subst show_nat.simps) simp

lemma digits_value_snoc: "digits_value (ds @ [c]) = 10 * digits_value ds + (of_char c - 48)"
  by (simp add: digits_value_def)

lemma digits_value_show_nat [simp]: "digits_value (show_nat n) = n"
proof (induction n rule: show_nat.induct)
  case (1 n)
  show ?case
  proof (cases "n < 10")
    case True
    then show ?thesis
      by (subst show_nat.simps) (simp add: digits_value_def of_char_digit)
  next
    case False
    then have "digits_value (show_nat (n div 10) @ [char_of (48 + n mod 10)]) = n"
      using 1 of_char_digit [of "n mod 10"] by (simp add: digits_value_snoc)
    with False show ?thesis by (subst show_nat.simps) simp
  qed
qed

lemma takeWhile_all: "list_all P xs \<Longrightarrow> takeWhile P xs = xs"
  by (simp add: takeWhile_eq_all_conv list_all_iff)

lemma dropWhile_all: "list_all P xs \<Longrightarrow> dropWhile P xs = []"
  by (simp add: list_all_iff)

lemma scan_append:
  assumes "list_all P xs" "ys = [] \<or> \<not> P (hd ys)"
  shows "takeWhile P (xs @ ys) = xs" "dropWhile P (xs @ ys) = ys"
  using assms by (cases ys; simp add: takeWhile_append2 dropWhile_append2 list_all_iff)+

lemma show_nat_starts:
  "\<not> isalpha (hd (show_nat n))" "hd (show_nat n) \<noteq> CHR ''+''" "hd (show_nat n) \<noteq> CHR ''-''"
proof -
  have "isdigit (hd (show_nat n))"
    using isdigit_show_nat [of n] by (cases "show_nat n") simp_all
  then show "\<not> isalpha (hd (show_nat n))" "hd (show_nat n) \<noteq> CHR ''+''" "hd (show_nat n) \<noteq> CHR ''-''"
    by (auto simp: isdigit_not_alpha) (simp_all add: isdigit_def)
qed

lemma parse_loop_digits:
  assumes "n \<le> 2147483647"
  shows "parse_loop (show_nat n) ret = Inr (ret\<lparr>offset := word_of_nat n\<rparr>)"
  using assms show_nat_starts(1) [of n] isdigit_show_nat [of n]
    scan_append [of isalpha "[]" "show_nat n"]
  by (simp add: parse_loop.simps [of "show_nat n"] Let_def takeWhile_all dropWhile_all stoi_def)

lemma parse_loop_operation:
  assumes "list_all isalpha a" "oper = Add \<and> c = CHR ''+'' \<or> oper = Subtract \<and> c = CHR ''-''"
  shows "parse_loop (a @ c # rest) ret =
    parse_loop rest (ret\<lparr>arg := arg ret @ a, operation := oper\<rparr>)"
proof -
  have c: "\<not> isalpha c" "\<not> isdigit c" using assms(2) by (auto simp: isalpha_def isdigit_def)
  then show ?thesis
    using assms scan_append [of isalpha a "c # rest"]
    by (subst parse_loop.simps) (auto simp: Let_def)
qed

lemma parse_loop_wf:
  assumes "parse_loop iter ret = Inr p" "list_all isalpha (arg ret)" "unat (offset ret) \<le> 2147483647"
  shows "list_all isalpha (arg p) \<and> unat (offset p) \<le> 2147483647"
  using assms
proof (induction iter ret rule: parse_loop.induct)
  case (1 iter ret)
  define ret1 where "ret1 = ret\<lparr>arg := arg ret @ takeWhile isalpha iter\<rparr>"
  define digit where "digit = takeWhile isdigit (dropWhile isalpha iter)"
  define iter2 where "iter2 = dropWhile isdigit (dropWhile isalpha iter)"
  show ?case
  proof (cases "iter = []")
    case True
    with "1.prems" show ?thesis by (simp add: parse_loop.simps)
  next
    case False
    then have "parse_loop iter ret = and_then
        (if digit = [] then Inr ret1
         else and_then (stoi digit) (\<lambda>n. Inr (ret1\<lparr>offset := word_of_int n\<rparr>)))
        (\<lambda>ret2. case iter2 of [] \<Rightarrow> Inr ret2
           | c # iter3 \<Rightarrow> if c = CHR ''+'' then parse_loop iter3 (ret2\<lparr>operation := Add\<rparr>)
               else if c = CHR ''-'' then parse_loop iter3 (ret2\<lparr>operation := Subtract\<rparr>)
               else Inl (Runtime_error ''Unexpected symbol''))"
      by (subst parse_loop.simps) (simp only: Let_def ret1_def digit_def iter2_def if_False)
    with "1.prems"(1) obtain ret2 where ret2: "(if digit = [] then Inr ret1
          else and_then (stoi digit) (\<lambda>n. Inr (ret1\<lparr>offset := word_of_int n\<rparr>))) = Inr ret2"
      and next_iter: "(case iter2 of [] \<Rightarrow> Inr ret2
           | c # iter3 \<Rightarrow> if c = CHR ''+'' then parse_loop iter3 (ret2\<lparr>operation := Add\<rparr>)
               else if c = CHR ''-'' then parse_loop iter3 (ret2\<lparr>operation := Subtract\<rparr>)
               else Inl (Runtime_error ''Unexpected symbol'')) = Inr p"
      by (simp only: and_then_Inr_iff) blast
    have alpha: "list_all isalpha (arg ret1)" "unat (offset ret1) \<le> 2147483647"
      using "1.prems" by (auto simp: ret1_def list_all_iff dest: set_takeWhileD)
    have ok: "list_all isalpha (arg ret2)" "unat (offset ret2) \<le> 2147483647"
      using ret2 alpha by (auto simp: stoi_def and_then_Inr_iff unat_of_nat_small split: if_splits)
    note IH = "1.IH" [OF False ret1_def refl digit_def iter2_def]
    show ?thesis
    proof (cases iter2)
      case Nil
      with next_iter ok show ?thesis by simp
    next
      case (Cons c iter3)
      then show ?thesis using next_iter ok ret2 IH [of ret2 c iter3] by (auto split: if_splits)
    qed
  qed
qed

lemma xdigit_hex_digit [simp]: "n < 16 \<Longrightarrow> xdigit_value (hex_digit n) = Some n"
  by (auto simp: xdigit_value_def hex_digit_def of_char_of Let_def)

lemma hex_digit_plain:
  assumes "n < 16"
  shows "\<not> isspace (hex_digit n)" "hex_digit n \<noteq> CHR ''-''" "hex_digit n \<noteq> CHR ''+''"
proof -
  have "(of_char (hex_digit n) :: nat) = (if n < 10 then 48 + n else 87 + n)"
    using assms by (simp add: hex_digit_def of_char_of)
  then show "\<not> isspace (hex_digit n)" "hex_digit n \<noteq> CHR ''-''" "hex_digit n \<noteq> CHR ''+''"
    by (auto simp: isspace_def Let_def split: if_splits)
qed

lemma strtol16_pair:
  assumes "i < 16" "j < 16"
  shows "strtol16 [hex_digit i, hex_digit j] = int (16 * i + j)"
  using assms hex_digit_plain [of i] by (simp add: strtol16_def skip_0x_def)

lemma hex_bytes_show_hex: "hex_bytes (show_hex bs) = bs"
proof (induction bs)
  case (Cons b bs)
  have b: "unat b < 256" using unat_less [of b] by simp
  then have "strtol16 [hex_digit (unat b div 16), hex_digit (unat b mod 16)] = int (unat b)"
    by (subst strtol16_pair) auto
  with Cons show ?case by (simp add: show_hex_def)
qed (simp add: show_hex_def)

lemma low_nibble_bound: "unat (b AND 15 :: byte) < 16"
proof -
  have "b AND 15 \<le> 15" by (rule word_and_le1)
  then show ?thesis by (simp add: word_le_nat_alt)
qed

lemma even_length_show_hex: "length (show_hex bs) mod 2 = 0"
  by (induction bs) (simp_all add: show_hex_def)

lemma parse_show_position:
  assumes "wf_position p"
  shows "parse_position (show_position p) = Inr p"
proof -
  have w: "list_all isalpha (arg p)" "unat (offset p) \<le> 2147483647" "operation p \<noteq> NoOp \<longrightarrow> arg p \<noteq> []"
    using assms by (simp_all add: wf_position_def)
  have "parse_loop (show_position p) empty_position = Inr p"
  proof (cases "operation p")
    case NoOp
    let ?d = "show_nat (unat (offset p))"
    have "takeWhile isalpha (arg p @ ?d) = arg p" "dropWhile isalpha (arg p @ ?d) = ?d"
      using scan_append [OF w(1), of ?d] show_nat_starts(1) by simp_all
    with NoOp w(2) show ?thesis
      using isdigit_show_nat [of "unat (offset p)"]
      by (simp add: show_position_def show_operation_def parse_loop.simps [of "arg p @ ?d"] Let_def
          takeWhile_all dropWhile_all stoi_def empty_position_def)
  next
    case Add
    with w show ?thesis
      by (simp add: show_position_def show_operation_def parse_loop_digits empty_position_def
          parse_loop_operation [OF w(1), of Add "CHR ''+''"])
  next
    case Subtract
    with w show ?thesis
      by (simp add: show_position_def show_operation_def parse_loop_digits empty_position_def
          parse_loop_operation [OF w(1), of Subtract "CHR ''-''"])
  qed
  moreover have "show_position p \<noteq> []" by (simp add: show_position_def)
  ultimately show ?thesis using w(3) by (auto simp: parse_position_def)
qed

lemma parse_show_blob: "parse_blob fs (''0x'' @ show_hex bs) = Inr bs"
  using even_length_show_hex [of bs] by (simp add: parse_blob_def hex_bytes_show_hex Let_def)

section \<open>Properties\<close>

text \<open>Printing a split position and parsing it back is the identity: marker name, operation
  and offset are all recovered, for every position the parser can produce.\<close>

theorem parse_position_roundtrip:
  assumes "wf_position p"
  shows "parse_position (show_position p) = Inr p"
  using assms by (rule parse_show_position)

lemma parse_position_roundtrip_witness:
  "parse_position ''hoststart+1'' = Inr \<lparr>arg = ''hoststart'', operation = Add, offset = 1\<rparr>"
proof -
  let ?p = "\<lparr>arg = ''hoststart'', operation = Add, offset = 1\<rparr>"
  have w: "wf_position ?p" by (simp add: wf_position_def isalpha_def)
  have "show_position ?p = ''hoststart+1''"
    by code_simp
  with parse_position_roundtrip [OF w] show ?thesis by simp
qed

text \<open>C38. Whatever string the parser accepts, the position it returns has a marker name made of
  letters, an offset that fits in an \<open>int\<close>, and an operation only together with a marker.\<close>

theorem parse_position_wf:
  assumes "parse_position s = Inr p"
  shows "wf_position p"
proof -
  have "parse_loop s empty_position = Inr p" "operation p \<noteq> NoOp \<longrightarrow> arg p \<noteq> []"
    using assms by (auto simp: parse_position_def and_then_Inr_iff split: if_splits)
  with parse_loop_wf [of s empty_position p] show ?thesis
    by (simp add: wf_position_def empty_position_def)
qed

lemma parse_position_wf_witness: "\<exists>p. parse_position ''2'' = Inr p \<and> wf_position p"
proof -
  have e: "parse_position ''2'' = Inr \<lparr>arg = [], operation = NoOp, offset = 2\<rparr>"
    by (simp add: parse_position_def parse_loop.simps [of "''2''"] isalpha_def isdigit_def stoi_def
        digits_value_def empty_position_def)
  show ?thesis using e parse_position_wf [OF e] by blast
qed

text \<open>The hexadecimal form of any byte string parses to that byte string, and a leading zero
  may be left out: an odd number of digits is read as if one zero stood in front.\<close>

theorem parse_blob_roundtrip:
  "parse_blob fs (''0x'' @ show_hex bs) = Inr bs
   \<and> parse_blob fs (''0x'' @ tl (CHR ''0'' # hex_digit (unat (b AND 15)) # show_hex bs))
     = Inr ((b AND 15) # bs)"
proof -
  have b: "unat (b AND 15) < 16" using low_nibble_bound by simp
  have "hex_digit 0 = CHR ''0''" by code_simp
  then have "strtol16 [CHR ''0'', hex_digit (unat (b AND 15))] = int (unat (b AND 15))"
    using b strtol16_pair [of 0 "unat (b AND 15)"] by simp
  then show ?thesis
    using even_length_show_hex [of bs]
    by (simp add: parse_blob_def hex_bytes_show_hex Let_def mod_Suc)
qed

end
