(* ===== verification/Reassembly.thy ===== *)
theory Reassembly
  imports Packet
begin

text \<open>
  Sequence-number order and payload reassembly, \<^verbatim>\<open>modify/algorithms/common.hpp\<close>: the
  modular comparison, \<open>concat\<close> (the stream a receiver would see) and \<open>concat_sorted\<close>
  (the payloads in list order).
\<close>

section \<open>The code\<close>

text \<open>\<open>static_cast<std::int32_t>(lhs - rhs) < 0\<close>, the modular comparison of RFC 1982.\<close>

definition seq_lt :: "u32 \<Rightarrow> u32 \<Rightarrow> bool" where
  "seq_lt lhs rhs \<longleftrightarrow> sint (lhs - rhs) < 0"

text \<open>
  \<open>std::sort\<close> and \<open>std::stable_sort\<close> with a comparator. The standard asks for a strict weak
  order; anything else is undefined. Insertion sort stands for both: where the comparator ties,
  only the stable one is used by the program on elements that can be told apart.
\<close>

definition strict_weak_order :: "('a \<Rightarrow> 'a \<Rightarrow> bool) \<Rightarrow> 'a list \<Rightarrow> bool" where
  "strict_weak_order lt xs \<longleftrightarrow>
     list_all (\<lambda>x. \<not> lt x x) xs
     \<and> list_all (\<lambda>x. list_all (\<lambda>y. list_all (\<lambda>z. lt x y \<and> lt y z \<longrightarrow> lt x z) xs) xs) xs
     \<and> list_all (\<lambda>x. list_all (\<lambda>y. list_all (\<lambda>z. lt x z \<longrightarrow> lt x y \<or> lt y z) xs) xs) xs"

fun insert_by :: "('a \<Rightarrow> 'a \<Rightarrow> bool) \<Rightarrow> 'a \<Rightarrow> 'a list \<Rightarrow> 'a list" where
  "insert_by lt x [] = [x]"
| "insert_by lt x (y # ys) = (if lt y x then y # insert_by lt x ys else x # y # ys)"

definition sort_by :: "('a \<Rightarrow> 'a \<Rightarrow> bool) \<Rightarrow> 'a list \<Rightarrow> 'a list result" where
  "sort_by lt xs =
     (if strict_weak_order lt xs then Inr (foldr (insert_by lt) xs []) else Inl Unordered_comparator)"

type_synonym segment = "u32 \<times> byte list"

fun find_base :: "u32 \<Rightarrow> segment list \<Rightarrow> u32" where
  "find_base base [] = base"
| "find_base base (seg # segs) = find_base (if seq_lt (fst seg) base then fst seg else base) segs"

text \<open>The last loop of \<open>concat\<close>: skip covered segments, stop at a hole, trim an overlap.\<close>

fun append_segments :: "u32 \<Rightarrow> byte list \<Rightarrow> segment list \<Rightarrow> byte list" where
  "append_segments base full_payload [] = full_payload"
| "append_segments base full_payload ((seq, data) # segs) =
     (let rel = unat (seq - base) in
      if rel + length data \<le> length full_payload then append_segments base full_payload segs
      else if length full_payload < rel then full_payload
      else append_segments base (full_payload @ drop (length full_payload - rel) data) segs)"

definition assemble :: "segment list \<Rightarrow> byte list" where
  "assemble segs =
     (case segs of
        [] \<Rightarrow> []
      | first # _ \<Rightarrow>
          let base = find_base (fst first) segs
          in append_segments base [] (sort_key (\<lambda>seg. unat (fst seg - base)) segs))"

definition segment_of :: "packet \<Rightarrow> segment result" where
  "segment_of pkt = and_then (packet_seq pkt) (\<lambda>seq. and_then (payload pkt) (\<lambda>data. Inr (seq, data)))"

text \<open>\<open>concat\<close> over the elements of a filter view.\<close>

definition concat_view :: "(packet \<Rightarrow> bool) \<Rightarrow> packet list \<Rightarrow> byte list result" where
  "concat_view P packets =
     (case filter P packets of
        [] \<Rightarrow> Inr []
      | front # _ \<Rightarrow>
          and_then (packet_protocol front) (\<lambda>proto.
          if proto \<noteq> IPPROTO_TCP then Inl (Logic_error ''Cant concat non tcp segments yet'')
          else and_then (map_r segment_of (filter P packets)) (\<lambda>segs. Inr (assemble segs))))"

definition concat_sorted :: "packet list \<Rightarrow> byte list result" where
  "concat_sorted packets = and_then (map_r payload packets) (\<lambda>pls. Inr (concat pls))"

section \<open>Sequence numbers in a window\<close>

text \<open>Within half the number space the modular comparison is the order of the distances.\<close>

lemma seq_lt_window:
  assumes "unat (a - base) < 2 ^ 31" "unat (c - base) < 2 ^ 31"
  shows "seq_lt a c \<longleftrightarrow> unat (a - base) < unat (c - base)"
proof -
  let ?x = "unat (a - base)" and ?y = "unat (c - base)"
  have "a - c = word_of_int (int ?x - int ?y)" by simp
  then have "sint (a - c) = sint (word_of_int (int ?x - int ?y) :: u32)" by (rule arg_cong)
  also have "\<dots> = signed_take_bit 31 (int ?x - int ?y)" by (subst signed_of_int) simp
  also have "\<dots> = int ?x - int ?y"
  proof (rule signed_take_bit_int_eq_self)
    have "int ?x < 2 ^ 31" "int ?y < 2 ^ 31" using assms by (metis of_nat_less_numeral_power_cancel_iff)+
    then show "- (2 ^ 31) \<le> int ?x - int ?y" "int ?x - int ?y < 2 ^ 31" by linarith+
  qed
  finally show ?thesis unfolding seq_lt_def by linarith
qed

lemma seq_lt_irrefl [simp]: "\<not> seq_lt a a"
  by (simp add: seq_lt_def)

lemma insert_by_key:
  fixes f :: "'a \<Rightarrow> 'b::linorder"
  assumes "\<And>y. y \<in> set ys \<Longrightarrow> lt y x \<longleftrightarrow> f y < f x"
  shows "insert_by lt x ys = insort_key f x ys"
  using assms by (induction ys) auto

lemma sort_by_key:
  fixes f :: "'a \<Rightarrow> 'b::linorder"
  assumes "\<And>x y. x \<in> set xs \<Longrightarrow> y \<in> set xs \<Longrightarrow> lt x y \<longleftrightarrow> f x < f y"
  shows "sort_by lt xs = Inr (sort_key f xs)"
proof -
  have "strict_weak_order lt xs"
    using assms by (auto simp: strict_weak_order_def list_all_iff)
  moreover have "foldr (insert_by lt) ys [] = sort_key f ys" if "set ys \<subseteq> set xs" for ys
    using that
  proof (induction ys)
    case (Cons y ys)
    then have "insert_by lt y (sort_key f ys) = insort_key f y (sort_key f ys)"
      using assms by (intro insert_by_key) auto
    with Cons show ?case by (simp add: sort_key_def)
  qed (simp add: sort_key_def)
  ultimately show ?thesis by (simp add: sort_by_def)
qed

section \<open>What reassembly computes\<close>

text \<open>
  \<open>seg_rel base s\<close> is a segment's distance from the base. A list of segments is windowed at a base
  when the base is the first sequence number and everything ends within half the number space.
  It agrees with a byte stream when each segment carries the stream's bytes at its place, as
  retransmissions of one connection do.
\<close>

definition seg_rel :: "u32 \<Rightarrow> segment \<Rightarrow> nat" where
  "seg_rel base s = unat (fst s - base)"

definition windowed :: "u32 \<Rightarrow> segment list \<Rightarrow> bool" where
  "windowed base segs \<longleftrightarrow>
     (\<exists>s\<in>set segs. fst s = base) \<and> (\<forall>s\<in>set segs. seg_rel base s + length (snd s) < 2 ^ 31)"

definition agrees :: "u32 \<Rightarrow> (nat \<Rightarrow> byte) \<Rightarrow> segment list \<Rightarrow> bool" where
  "agrees base S segs \<longleftrightarrow> (\<forall>s\<in>set segs. snd s = map S [seg_rel base s ..< seg_rel base s + length (snd s)])"

definition covered :: "u32 \<Rightarrow> segment list \<Rightarrow> nat set" where
  "covered base segs = (\<Union>s\<in>set segs. {seg_rel base s ..< seg_rel base s + length (snd s)})"

definition first_gap :: "u32 \<Rightarrow> segment list \<Rightarrow> nat" where
  "first_gap base segs = (LEAST n. n \<notin> covered base segs)"

lemma finite_covered [simp]: "finite (covered base segs)"
  by (simp add: covered_def)

lemma first_gap_eq: "{..<n} \<subseteq> covered base segs \<Longrightarrow> n \<notin> covered base segs \<Longrightarrow> first_gap base segs = n"
  unfolding first_gap_def by (rule Least_equality) (auto simp: not_le [symmetric])

lemma windowed_rel: "windowed base segs \<Longrightarrow> s \<in> set segs \<Longrightarrow> seg_rel base s < 2 ^ 31"
  by (auto simp: windowed_def)

lemma find_base_min:
  assumes "unat (b0 - base) < 2 ^ 31" "\<forall>s\<in>set segs. seg_rel base s < 2 ^ 31"
  shows "unat (find_base b0 segs - base) = Min (insert (unat (b0 - base)) (seg_rel base ` set segs))"
  using assms
proof (induction segs arbitrary: b0)
  case (Cons s segs)
  let ?b1 = "if seq_lt (fst s) b0 then fst s else b0"
  have b1: "unat (?b1 - base) = min (seg_rel base s) (unat (b0 - base))"
    using Cons.prems seq_lt_window [of "fst s" base b0] by (auto simp: seg_rel_def)
  then have "unat (find_base ?b1 segs - base) = Min (insert (unat (?b1 - base)) (seg_rel base ` set segs))"
    using Cons.prems by (intro Cons.IH) (auto simp: seg_rel_def)
  also have "\<dots> = Min (insert (unat (b0 - base)) (seg_rel base ` set (s # segs)))"
    unfolding b1 by (cases "segs = []") (auto simp: Min_insert2 min.left_commute min.commute ac_simps)
  finally show ?case by simp
qed simp

lemma find_base_windowed:
  assumes "windowed base segs" "s0 \<in> set segs"
  shows "find_base (fst s0) segs = base"
proof -
  obtain s where s: "s \<in> set segs" "fst s = base" using assms(1) by (auto simp: windowed_def)
  have "seg_rel base s0 < 2 ^ 31" using assms by (rule windowed_rel)
  then have "unat (find_base (fst s0) segs - base) = Min (insert (unat (fst s0 - base)) (seg_rel base ` set segs))"
    using assms(1) by (intro find_base_min) (auto simp: seg_rel_def dest: windowed_rel)
  also have "\<dots> \<le> seg_rel base s" using s by (intro Min_le) auto
  also have "\<dots> = 0" using s by (simp add: seg_rel_def)
  finally have "find_base (fst s0) segs - base = 0" by (simp add: unat_eq_0)
  then show ?thesis by simp
qed

text \<open>The loop over sorted segments; \<open>ds\<close> are the segments already consumed.\<close>

lemma append_segments_stream:
  assumes "sorted (map (seg_rel base) segs)" "agrees base S segs"
    and "full = map S [0..<n]" "{..<n} \<subseteq> covered base ds" "covered base ds \<subseteq> {..<n}"
  shows "append_segments base full segs = map S [0 ..< first_gap base (ds @ segs)]"
  using assms
proof (induction segs arbitrary: full n ds)
  case Nil
  then have "first_gap base ds = n" by (intro first_gap_eq) auto
  with Nil show ?case by simp
next
  case (Cons s segs)
  obtain seq data where s: "s = (seq, data)" by (cases s)
  let ?r = "seg_rel base s" and ?n' = "seg_rel base s + length data"
  have r: "unat (seq - base) = ?r" by (simp add: s seg_rel_def)
  have data: "data = map S [?r ..< ?n']" using Cons.prems(2) by (simp add: agrees_def s)
  have later: "?r \<le> seg_rel base t" if "t \<in> set segs" for t using Cons.prems(1) that by auto
  have tail: "sorted (map (seg_rel base) segs)" "agrees base S segs"
    using Cons.prems(1,2) by (simp_all add: agrees_def)
  have cov: "covered base (ds @ [s]) = covered base ds \<union> {?r ..< ?n'}"
    by (auto simp: covered_def s)
  have len: "length full = n" using Cons.prems(3) by simp
  consider "?n' \<le> n" | "n < ?n'" "n < ?r" | "n < ?n'" "?r \<le> n" by linarith
  then show ?case
  proof cases
    case 1
    then have "append_segments base full segs = map S [0 ..< first_gap base ((ds @ [s]) @ segs)]"
      using Cons.prems by (intro Cons.IH tail) (auto simp: cov)
    with 1 show ?thesis by (simp add: s r len Let_def)
  next
    case 2
    then have "first_gap base (ds @ s # segs) = n"
      using Cons.prems(4,5) later by (intro first_gap_eq) (fastforce simp: covered_def s)+
    with 2 Cons.prems(3) show ?thesis by (simp add: s r len Let_def)
  next
    case 3
    then have "[0..<n] @ [n ..< ?n'] = [0 ..< ?n']"
      using upt_add_eq_append [of 0 n "?n' - n"] by simp
    moreover have "drop (n - ?r) data = map S [n ..< ?n']"
      using arg_cong [OF data, of "drop (n - ?r)"] 3 by (simp add: drop_map)
    ultimately have "full @ drop (n - ?r) data = map S [0 ..< ?n']"
      by (metis Cons.prems(3) map_append)
    moreover have "{..<?n'} \<subseteq> covered base (ds @ [s])" "covered base (ds @ [s]) \<subseteq> {..<?n'}"
      unfolding cov using 3 Cons.prems(4,5) by fastforce+
    ultimately have "append_segments base (full @ drop (n - ?r) data) segs
        = map S [0 ..< first_gap base ((ds @ [s]) @ segs)]"
      by (intro Cons.IH [OF tail]) assumption+
    with 3 show ?thesis by (simp add: s r len Let_def)
  qed
qed

lemma covered_perm: "set xs = set ys \<Longrightarrow> covered base xs = covered base ys"
  by (simp add: covered_def)

lemma first_gap_perm: "set xs = set ys \<Longrightarrow> first_gap base xs = first_gap base ys"
  by (simp add: first_gap_def covered_perm [of xs ys])

lemma assemble_windowed:
  assumes "windowed base segs" "agrees base S segs"
  shows "assemble segs = map S [0 ..< first_gap base segs]"
proof -
  obtain first rest where segs: "segs = first # rest"
    using assms(1) by (cases segs) (auto simp: windowed_def)
  let ?sorted = "sort_key (seg_rel base) segs"
  have "find_base (fst first) segs = base"
    using assms(1) segs by (intro find_base_windowed) auto
  moreover have "(\<lambda>seg. unat (fst seg - base)) = seg_rel base" by (simp add: fun_eq_iff seg_rel_def)
  ultimately have "assemble segs = append_segments base [] ?sorted"
    by (simp add: assemble_def segs)
  also have "\<dots> = map S [0 ..< first_gap base ([] @ ?sorted)]"
    using assms(2) by (intro append_segments_stream [where n = 0]) (simp_all add: agrees_def covered_def)
  also have "first_gap base ([] @ ?sorted) = first_gap base segs"
    by (intro first_gap_perm) simp
  finally show ?thesis .
qed

text \<open>Cutting one segment in two leaves the stream as it was.\<close>

definition cut_segment :: "nat \<Rightarrow> segment \<Rightarrow> segment list" where
  "cut_segment k s = [(fst s, take k (snd s)), (fst s + word_of_nat k, drop k (snd s))]"

lemma rel_cut:
  assumes "seg_rel base s + length (snd s) < 2 ^ 31" "k \<le> length (snd s)"
  shows "seg_rel base (fst s + word_of_nat k, d) = seg_rel base s + k"
proof -
  have "unat (word_of_nat k :: u32) = k" using assms by (intro unat_of_nat_small) simp
  moreover have "unat ((fst s - base) + word_of_nat k) =
      (unat (fst s - base) + unat (word_of_nat k :: u32)) mod 2 ^ 32"
    by (simp add: unat_word_ariths)
  ultimately have "unat ((fst s - base) + word_of_nat k) = seg_rel base s + k"
    using assms by (simp add: seg_rel_def)
  moreover have "(fst s - base) + word_of_nat k = fst s + word_of_nat k - base" by simp
  ultimately show ?thesis by (simp only: seg_rel_def fst_conv)
qed

lemma cut_windowed:
  assumes "windowed base (xs @ s # ys)" "agrees base S (xs @ s # ys)" "k \<le> length (snd s)"
  shows "windowed base (xs @ cut_segment k s @ ys)" "agrees base S (xs @ cut_segment k s @ ys)"
    "covered base (xs @ cut_segment k s @ ys) = covered base (xs @ s # ys)"
proof -
  have w: "seg_rel base s + length (snd s) < 2 ^ 31" using assms(1) by (simp add: windowed_def)
  note rel = rel_cut [OF w assms(3)] 
  have fst: "seg_rel base (fst s, d) = seg_rel base s" for d by (simp add: seg_rel_def)
  have data: "snd s = map S [seg_rel base s ..< seg_rel base s + length (snd s)]"
    using assms(2) by (simp add: agrees_def)
  have "take k (snd s) = map S [seg_rel base s ..< seg_rel base s + k]"
    using arg_cong [OF data, of "take k"] assms(3) by (simp add: take_map)
  moreover have "drop k (snd s) = map S [seg_rel base s + k ..< seg_rel base s + length (snd s)]"
    using arg_cong [OF data, of "drop k"] by (simp add: drop_map)
  ultimately show "agrees base S (xs @ cut_segment k s @ ys)"
    using assms(2,3) by (auto simp: agrees_def cut_segment_def rel fst)
  show "windowed base (xs @ cut_segment k s @ ys)"
    using assms(1,3) by (auto simp: windowed_def cut_segment_def rel fst)
  show "covered base (xs @ cut_segment k s @ ys) = covered base (xs @ s # ys)"
    using assms(3) by (auto simp: covered_def cut_segment_def rel fst)
qed

lemma assemble_cut:
  assumes "windowed base (xs @ s # ys)" "agrees base S (xs @ s # ys)" "k \<le> length (snd s)"
  shows "assemble (xs @ cut_segment k s @ ys) = assemble (xs @ s # ys)"
  using cut_windowed [OF assms] assemble_windowed [OF assms(1,2)] assemble_windowed
  by (simp add: first_gap_def)

lemma assemble_perm:
  assumes "windowed base xs" "agrees base S xs" "set xs = set ys"
  shows "assemble xs = assemble ys"
proof -
  have "windowed base ys" "agrees base S ys"
    using assms by (simp_all add: windowed_def agrees_def)
  with assms show ?thesis using assemble_windowed first_gap_perm by metis
qed

text \<open>On well-formed packets.\<close>

definition seg_of :: "packet \<Rightarrow> segment" where
  "seg_of p = (seq_of p, payload_of p)"

lemma wf_segment_of [wf_run]: "wf_packet p \<Longrightarrow> segment_of p = Inr (seg_of p)"
  by (simp add: segment_of_def wf_run seg_of_def)

lemma wf_concat_view [wf_run]:
  assumes "\<forall>p\<in>set packets. P p \<longrightarrow> wf_packet p"
  shows "concat_view P packets = Inr (assemble (map seg_of (filter P packets)))"
proof -
  have "map_r segment_of (filter P packets) = Inr (map seg_of (filter P packets))"
    using assms by (intro map_r_total) (auto simp: wf_run)
  moreover have "\<forall>p\<in>set (filter P packets). packet_protocol p = Inr IPPROTO_TCP"
    using assms by (auto simp: wf_run)
  ultimately show ?thesis
    unfolding concat_view_def by (cases "filter P packets") (simp_all add: assemble_def)
qed

section \<open>Packets in stream order\<close>

text \<open>The vector carries its part of the stream in order and without holes or overlaps.\<close>

fun contiguous :: "u32 \<Rightarrow> packet list \<Rightarrow> bool" where
  "contiguous s [] = True"
| "contiguous s (p # ps) = (seq_of p = s \<and> contiguous (s + word_of_nat (length (payload_of p))) ps)"

definition stream_of :: "packet list \<Rightarrow> byte list" where
  "stream_of ps = concat (map payload_of ps)"

lemma stream_of_simps [simp]:
  "stream_of [] = []" "stream_of (p # ps) = payload_of p @ stream_of ps"
  "stream_of (ps @ qs) = stream_of ps @ stream_of qs"
  by (simp_all add: stream_of_def)

lemma contiguous_append:
  "contiguous s (ps @ qs) \<longleftrightarrow> contiguous s ps \<and> contiguous (s + word_of_nat (length (stream_of ps))) qs"
  by (induction ps arbitrary: s) (auto simp: add.assoc)

lemma contiguous_rel:
  assumes "contiguous s ps" "unat (s - base) + length (stream_of ps) < 2 ^ 31" "i < length ps"
  shows "seg_rel base (seg_of (ps ! i)) = unat (s - base) + length (stream_of (take i ps))"
proof -
  let ?n = "length (stream_of (take i ps))"
  have "ps = take i ps @ ps ! i # drop (Suc i) ps" using assms(3) by (rule id_take_nth_drop)
  then have c: "contiguous s (take i ps @ ps ! i # drop (Suc i) ps)"
    and l: "length (stream_of ps) = length (stream_of (take i ps @ ps ! i # drop (Suc i) ps))"
    using assms(1) by auto
  have "seq_of (ps ! i) = s + word_of_nat ?n" using c by (simp add: contiguous_append)
  moreover have "?n \<le> length (stream_of ps)" unfolding l by simp
  then have "seg_rel base (s + word_of_nat ?n, payload_of (ps ! i)) = seg_rel base (s, replicate ?n 0) + ?n"
    using rel_cut [of base "(s, replicate ?n 0)" ?n] assms(2) by (simp add: seg_rel_def)
  ultimately show ?thesis by (simp add: seg_of_def seg_rel_def)
qed

lemma contiguous_windowed:
  assumes "contiguous s ps" "length (stream_of ps) < 2 ^ 31" "ps \<noteq> []"
  shows "windowed s (map seg_of ps)" "sorted (map (seg_rel s) (map seg_of ps))"
proof -
  have small: "unat (s - s) + length (stream_of ps) < 2 ^ 31" using assms(2) by simp
  note rel = contiguous_rel [OF assms(1) small]
  have "seg_rel s (seg_of (ps ! i)) + length (payload_of (ps ! i)) < 2 ^ 31" if i: "i < length ps" for i
  proof -
    have "stream_of ps = stream_of (take i ps) @ payload_of (ps ! i) @ stream_of (drop (Suc i) ps)"
      by (subst id_take_nth_drop [OF i]) simp
    then have "length (stream_of (take i ps)) + length (payload_of (ps ! i)) \<le> length (stream_of ps)" by simp
    then show ?thesis using rel [OF i] assms(2) by simp
  qed
  then have "\<forall>x\<in>set (map seg_of ps). seg_rel s x + length (snd x) < 2 ^ 31"
    by (auto simp: in_set_conv_nth seg_of_def)
  moreover have "seq_of (hd ps) = s" "hd ps \<in> set ps" using assms(1,3) by (cases ps; simp)+
  then have "\<exists>x\<in>set (map seg_of ps). fst x = s" by (auto simp: seg_of_def)
  ultimately show "windowed s (map seg_of ps)" by (simp add: windowed_def)
  have "length (stream_of (take i ps)) \<le> length (stream_of (take j ps))" if "i \<le> j" for i j
    using that by (metis length_append le_add1 le_Suc_ex stream_of_simps(3) take_add)
  then show "sorted (map (seg_rel s) (map seg_of ps))"
    using rel by (auto simp: sorted_iff_nth_mono)
qed

lemma append_segments_contiguous:
  assumes "contiguous (s + word_of_nat (length full)) ps" "length full + length (stream_of ps) < 2 ^ 31"
  shows "append_segments s full (map seg_of ps) = full @ stream_of ps"
  using assms
proof (induction ps arbitrary: full)
  case (Cons p ps)
  have "unat (seq_of p - s) = length full"
    using Cons.prems by (simp add: unat_of_nat_small)
  moreover have "append_segments s (full @ payload_of p) (map seg_of ps) = (full @ payload_of p) @ stream_of ps"
    using Cons.prems by (intro Cons.IH) (simp_all add: add.assoc)
  moreover have "map seg_of (p # ps) = (seq_of p, payload_of p) # map seg_of ps" by (simp add: seg_of_def)
  ultimately show ?case by (auto simp: Let_def)
qed simp

lemma assemble_contiguous:
  assumes "contiguous s ps" "length (stream_of ps) < 2 ^ 31"
  shows "assemble (map seg_of ps) = stream_of ps"
proof (cases ps)
  case (Cons p qs)
  note W = contiguous_windowed [OF assms]
  have "find_base (seq_of p) (map seg_of ps) = s"
    using find_base_windowed [OF W(1), of "seg_of p"] Cons by (simp add: seg_of_def)
  moreover have "(\<lambda>seg. unat (fst seg - s)) = seg_rel s" by (simp add: fun_eq_iff seg_rel_def)
  moreover have "sort_key (seg_rel s) (map seg_of ps) = map seg_of ps"
    using W(2) Cons by (intro sort_key_id_if_sorted) simp
  ultimately have "assemble (map seg_of ps) = append_segments s [] (map seg_of ps)"
    using Cons by (simp add: assemble_def seg_of_def)
  then show ?thesis using append_segments_contiguous [of s "[]" ps] assms by simp
qed (simp add: assemble_def)

section \<open>Properties\<close>

text \<open>C7. Over well-formed TCP packets that carry parts of one byte stream, within half the
  sequence space and in any order, with overlaps and retransmissions, \<open>concat\<close> returns exactly
  the stream from the lowest sequence number up to the first byte no packet carries.\<close>

theorem concat_stream:
  assumes "\<forall>p\<in>set packets. P p \<longrightarrow> wf_packet p"
    and "windowed base (map seg_of (filter P packets))"
    and "agrees base S (map seg_of (filter P packets))"
  shows "concat_view P packets = Inr (map S [0 ..< first_gap base (map seg_of (filter P packets))])"
  using assms by (simp add: wf_concat_view assemble_windowed)

text \<open>The order in which packets stand in the vector does not matter to \<open>concat\<close>, so
  reordering segments, as the disorder modifier does, leaves the receiver's stream as it was.\<close>

theorem concat_reorder:
  assumes "\<forall>p\<in>set packets. P p \<longrightarrow> wf_packet p"
    and "windowed base (map seg_of (filter P packets))"
    and "agrees base S (map seg_of (filter P packets))"
    and "mset packets' = mset packets"
  shows "concat_view P packets' = concat_view P packets"
proof -
  have "set packets' = set packets" using assms(4) by (metis set_mset_mset)
  then show ?thesis
    using assms(1) assemble_perm [OF assms(2,3), of "map seg_of (filter P packets')"]
    by (simp add: wf_concat_view)
qed

text \<open>C24. The classifier reads the held packets in vector order, the modifiers by sequence number:
  on packets that stand in order and without holes both readings are the concatenated payloads.\<close>

theorem concat_agree:
  assumes "list_all wf_packet ps" "contiguous s ps" "length (stream_of ps) < 2 ^ 31"
  shows "concat_sorted ps = Inr (stream_of ps) \<and> concat_view (\<lambda>_. True) ps = Inr (stream_of ps)"
proof -
  have "map_r payload ps = Inr (map payload_of ps)"
    using assms(1) by (intro map_r_total) (auto simp: wf_payload list_all_iff)
  moreover have "concat_view (\<lambda>_. True) ps = Inr (assemble (map seg_of (filter (\<lambda>_. True) ps)))"
    using assms(1) by (intro wf_concat_view) (simp add: list_all_iff)
  ultimately show ?thesis
    using assemble_contiguous [OF assms(2,3)] by (simp add: concat_sorted_def stream_of_def)
qed

text \<open>Two packets of one stream, the later one first in the vector.\<close>

definition sample_pair :: "packet list" where
  "sample_pair = [packet_of (put32 sample_bytes 24 (htonl 1004)) 8, packet_of sample_bytes 7]"

definition sample_stream :: "nat \<Rightarrow> byte" where
  "sample_stream i = [1, 2, 3, 4, 1, 2, 3, 4] ! i"

lemma sample_pair_wf: "list_all wf_packet sample_pair"
  by code_simp

lemma sample_pair_fresh: "filter (\<lambda>p. \<not> is_fake_blob p) sample_pair = sample_pair"
  by code_simp

lemma sample_pair_segs: "map seg_of sample_pair = [(1004, [1, 2, 3, 4]), (1000, [1, 2, 3, 4])]"
  by code_simp

lemma sample_pair_stream:
  "windowed 1000 (map seg_of sample_pair)" "agrees 1000 sample_stream (map seg_of sample_pair)"
  unfolding sample_pair_segs
  by (simp_all add: windowed_def agrees_def seg_rel_def sample_stream_def upt_rec)

lemma concat_stream_witness:
  "concat_view (\<lambda>p. \<not> is_fake_blob p) sample_pair =
     Inr (map sample_stream [0 ..< first_gap 1000 (map seg_of sample_pair)])"
  using concat_stream [of sample_pair "\<lambda>p. \<not> is_fake_blob p" 1000 sample_stream]
    sample_pair_wf sample_pair_stream
  by (simp add: sample_pair_fresh list_all_iff)

lemma concat_reorder_witness:
  "concat_view (\<lambda>p. \<not> is_fake_blob p) (rev sample_pair) =
     concat_view (\<lambda>p. \<not> is_fake_blob p) sample_pair"
  using concat_reorder [of sample_pair "\<lambda>p. \<not> is_fake_blob p" 1000 sample_stream "rev sample_pair"]
    sample_pair_wf sample_pair_stream
  by (simp add: sample_pair_fresh list_all_iff)

lemma concat_agree_witness: "concat_sorted (rev sample_pair) = concat_view (\<lambda>_. True) (rev sample_pair)"
proof -
  have "list_all wf_packet (rev sample_pair)" "contiguous 1000 (rev sample_pair)"
    "stream_of (rev sample_pair) = [1, 2, 3, 4, 1, 2, 3, 4]" by code_simp+
  then show ?thesis using concat_agree [of "rev sample_pair" 1000] by simp
qed

end
