(* ===== verification/Classify.thy ===== *)
theory Classify
  imports Reassembly
begin

text \<open>
  Payload classification, \<^verbatim>\<open>classify/\<close>: the TLS handshake and HTTP classifiers, and
  the \<open>Classifier\<close> that asks them in turn. The contract between them is the locale
  \<open>payload_classifier\<close>: a decision is never taken back when more payload arrives.
\<close>

section \<open>The code\<close>

datatype classify_result = DONE | REASSEMBLING | ERROR

type_synonym 'a expected = "string + 'a"

definition TLS_HDR_LEN :: nat where "TLS_HDR_LEN = 5"

definition tls_classify :: "byte list \<Rightarrow> classify_result expected" where
  "tls_classify pl =
     (if length pl < TLS_HDR_LEN then Inl ''Could not classify as TLS because packet is too small''
      else if pl ! 0 \<noteq> 0x16 \<or> pl ! 1 \<noteq> 0x03 \<or> (pl ! 2 \<noteq> 0x01 \<and> pl ! 2 \<noteq> 0x03)
      then Inl ''Could not classify as TLS because packet header is not TLS''
      else
        let tls_len = ntohs (get16 pl 3)
        in if length pl < unat tls_len + TLS_HDR_LEN then Inr REASSEMBLING else Inr DONE)"

definition crlf :: "byte list" where "crlf = [0x0D, 0x0A]"

definition http_classify :: "byte list \<Rightarrow> classify_result expected" where
  "http_classify pl =
     (case find_sub crlf pl of
        None \<Rightarrow> Inl (''HTTP request is malformed: was unable to find '' @ [CHR 0x0D, CHR 0x0A])
      | Some crln_pos \<Rightarrow>
          (case find_sub (ascii ''HTTP/'') (take crln_pos pl) of
             None \<Rightarrow> Inl ''HTTP request is malformed: was unable to find HTTP in status line''
           | Some _ \<Rightarrow>
               (case find_sub (crlf @ crlf) pl of
                  None \<Rightarrow> Inr REASSEMBLING
                | Some _ \<Rightarrow> Inr DONE)))"

text \<open>The two subclasses of \<open>PayloadClassifier\<close> and their virtual functions.\<close>

datatype payload_classifier_class = TlsHandshakeClassifier | HttpClassifier

definition classify_payload :: "payload_classifier_class \<Rightarrow> byte list \<Rightarrow> classify_result expected" where
  "classify_payload c pl =
     (case c of TlsHandshakeClassifier \<Rightarrow> tls_classify pl | HttpClassifier \<Rightarrow> http_classify pl)"

definition protocol :: "payload_classifier_class \<Rightarrow> l7_proto" where
  "protocol c = (case c of TlsHandshakeClassifier \<Rightarrow> TLS | HttpClassifier \<Rightarrow> HTTP)"

text \<open>\<open>Classifier::classify\<close>; the virtual calls are parameters.\<close>

fun classify_loop :: "('c \<Rightarrow> byte list \<Rightarrow> classify_result expected) \<Rightarrow> ('c \<Rightarrow> l7_proto) \<Rightarrow>
    'c list \<Rightarrow> byte list \<Rightarrow> nat \<Rightarrow> classify_result \<times> l7_proto option" where
  "classify_loop clf proto [] pl reasm_counter =
     (if reasm_counter > 0 then (REASSEMBLING, None) else (ERROR, None))"
| "classify_loop clf proto (c # cs) pl reasm_counter =
     (case clf c pl of
        Inl err \<Rightarrow> classify_loop clf proto cs pl reasm_counter
      | Inr DONE \<Rightarrow> (DONE, Some (proto c))
      | Inr REASSEMBLING \<Rightarrow> classify_loop clf proto cs pl (reasm_counter + 1)
      | Inr ERROR \<Rightarrow> classify_loop clf proto cs pl reasm_counter)"

definition classify :: "payload_classifier_class list \<Rightarrow> packet list \<Rightarrow>
    (classify_result \<times> l7_proto option) result" where
  "classify classifiers packets =
     and_then (concat_sorted packets) (\<lambda>full_payload.
       Inr (classify_loop classify_payload protocol classifiers full_payload 0))"

section \<open>The contract of a payload classifier\<close>

locale payload_classifier =
  fixes clf :: "'c \<Rightarrow> byte list \<Rightarrow> classify_result expected"
  assumes done_stable: "clf c xs = Inr DONE \<Longrightarrow> clf c (xs @ ys) = Inr DONE"
    and reassembling_stable:
      "clf c xs = Inr REASSEMBLING \<Longrightarrow> clf c (xs @ ys) = Inr REASSEMBLING \<or> clf c (xs @ ys) = Inr DONE"
    and no_error_result: "clf c xs \<noteq> Inr ERROR"
begin

text \<open>What the loop answers, in terms of the single classifiers.\<close>

lemma loop_done_iff:
  "fst (classify_loop clf proto cs pl k) = DONE \<longleftrightarrow> (\<exists>c\<in>set cs. clf c pl = Inr DONE)"
proof (induction cs arbitrary: k)
  case (Cons c cs)
  then show ?case
    using no_error_result [of c pl] by (auto split: sum.splits classify_result.splits)
qed simp

lemma loop_reassembling_iff:
  "fst (classify_loop clf proto cs pl k) = REASSEMBLING \<longleftrightarrow>
     (\<forall>c\<in>set cs. clf c pl \<noteq> Inr DONE) \<and> (0 < k \<or> (\<exists>c\<in>set cs. clf c pl = Inr REASSEMBLING))"
proof (induction cs arbitrary: k)
  case (Cons c cs)
  then show ?case
    using no_error_result [of c pl] by (auto split: sum.splits classify_result.splits)
qed simp

lemma loop_proto:
  "classify_loop clf proto cs pl k = (DONE, q) \<Longrightarrow>
     \<exists>as c bs. cs = as @ c # bs \<and> q = Some (proto c) \<and> clf c pl = Inr DONE
       \<and> (\<forall>a\<in>set as. clf a pl \<noteq> Inr DONE)"
proof (induction cs arbitrary: k)
  case (Cons c cs)
  show ?case
  proof (cases "clf c pl = Inr DONE")
    case True
    with Cons.prems have "q = Some (proto c)" by simp
    with True show ?thesis by (intro exI [of _ "[]"]) auto
  next
    case False
    then obtain k' where "classify_loop clf proto cs pl k' = (DONE, q)"
      using Cons.prems by (auto split: sum.splits classify_result.splits)
    from Cons.IH [OF this] False show ?thesis
      by (metis append_Cons set_ConsD)
  qed
qed (simp split: if_splits)

lemma loop_stable:
  assumes "fst (classify_loop clf proto cs xs k) = r" "r \<noteq> ERROR"
  shows "fst (classify_loop clf proto cs (xs @ ys) k) \<noteq> ERROR
       \<and> (r = DONE \<longrightarrow> fst (classify_loop clf proto cs (xs @ ys) k) = DONE)"
proof (cases r)
  case DONE
  with assms show ?thesis by (metis classify_result.distinct(3) done_stable loop_done_iff)
next
  case REASSEMBLING
  with assms(1) have "0 < k \<or> (\<exists>c\<in>set cs. clf c xs = Inr REASSEMBLING)"
    by (simp add: loop_reassembling_iff)
  then have "fst (classify_loop clf proto cs (xs @ ys) k) \<in> {DONE, REASSEMBLING}"
    by (metis insertCI loop_done_iff loop_reassembling_iff reassembling_stable)
  with REASSEMBLING show ?thesis by auto
next
  case ERROR
  with assms show ?thesis by simp
qed

end

lemma tls_classify_append:
  assumes "tls_classify xs = Inr r"
  shows "tls_classify (xs @ ys) = Inr (if length (xs @ ys) < unat (ntohs (get16 xs 3)) + TLS_HDR_LEN
    then REASSEMBLING else DONE)"
proof -
  have "5 \<le> length xs" using assms by (auto simp: tls_classify_def TLS_HDR_LEN_def split: if_splits)
  then have "get16 (xs @ ys) 3 = get16 xs 3" "\<And>i. i < 5 \<Longrightarrow> (xs @ ys) ! i = xs ! i"
    by (simp_all add: get16_def nth_append)
  then show ?thesis
    using assms by (auto simp: tls_classify_def TLS_HDR_LEN_def Let_def split: if_splits)
qed

lemma http_classify_append:
  assumes "http_classify xs = Inr r"
  shows "http_classify (xs @ ys) = Inr r \<or> r = REASSEMBLING \<and> http_classify (xs @ ys) = Inr DONE"
proof -
  obtain i j where ij: "find_sub crlf xs = Some i" "find_sub (ascii ''HTTP/'') (take i xs) = Some j"
    using assms by (auto simp: http_classify_def split: option.splits)
  then have "find_sub crlf (xs @ ys) = Some i" "take i (xs @ ys) = take i xs"
    using find_sub_Some_bound(1) [OF ij(1)] by (simp_all add: find_sub_append)
  with ij assms show ?thesis
    by (auto simp: http_classify_def split: option.splits dest: find_sub_append [where ys = ys])
qed

interpretation dispatch: payload_classifier classify_payload
proof
  fix c :: payload_classifier_class and xs ys :: "byte list"
  show "classify_payload c xs \<noteq> Inr ERROR"
    by (cases c) (auto simp: classify_payload_def tls_classify_def http_classify_def Let_def
        split: if_splits option.splits)
  show "classify_payload c (xs @ ys) = Inr DONE" if "classify_payload c xs = Inr DONE"
  proof (cases c)
    case TlsHandshakeClassifier
    with that have d: "tls_classify xs = Inr DONE" by (simp add: classify_payload_def)
    then have "unat (ntohs (get16 xs 3)) + TLS_HDR_LEN \<le> length xs"
      by (auto simp: tls_classify_def Let_def split: if_splits)
    with TlsHandshakeClassifier tls_classify_append [OF d, of ys] show ?thesis
      by (simp add: classify_payload_def)
  next
    case HttpClassifier
    with that http_classify_append [of xs DONE ys] show ?thesis by (simp add: classify_payload_def)
  qed
  show "classify_payload c (xs @ ys) = Inr REASSEMBLING \<or> classify_payload c (xs @ ys) = Inr DONE"
    if "classify_payload c xs = Inr REASSEMBLING"
    using that tls_classify_append [of xs REASSEMBLING ys] http_classify_append [of xs REASSEMBLING ys]
    by (cases c) (auto simp: classify_payload_def)
qed

section \<open>Properties\<close>

text \<open>A TLS handshake record: type, version, length in network order, body.\<close>

definition tls_record :: "byte \<Rightarrow> byte list \<Rightarrow> byte list" where
  "tls_record minor body =
     [0x16, 0x03, minor, byte_of 1 (word_of_nat (length body) :: u16), byte_of 0 (word_of_nat (length body) :: u16)]
       @ body"

text \<open>C29. A TLS handshake record that arrives piece by piece is given up while fewer than five bytes
  are there, held while it is incomplete, and recognised as soon as its last byte has come, whatever
  follows it.\<close>

theorem tls_classify_record:
  assumes "minor = 0x01 \<or> minor = 0x03" "length body < 65536"
  shows "tls_classify (take n (tls_record minor body @ rest)) =
    (if n < 5 then Inl ''Could not classify as TLS because packet is too small''
     else if n < 5 + length body then Inr REASSEMBLING else Inr DONE)"
proof -
  let ?r = "tls_record minor body @ rest"
  have len: "unat (ntohs (get16 ?r 3)) = length body"
    using assms(2) by (simp add: tls_record_def get16_def htons_def unat_of_nat_small)
  show ?thesis
  proof (cases "n < 5")
    case True
    then show ?thesis by (simp add: tls_classify_def TLS_HDR_LEN_def tls_record_def)
  next
    case False
    then have "get16 (take n ?r) 3 = get16 ?r 3" "\<And>i. i < 5 \<Longrightarrow> take n ?r ! i = ?r ! i"
      by (simp_all add: get16_def del: take_append)
    moreover have "?r ! 0 = 0x16" "?r ! 1 = 0x03" "?r ! 2 = minor" "length (take n ?r) = min n (length ?r)"
      "5 + length body \<le> length ?r"
      by (simp_all add: tls_record_def)
    ultimately show ?thesis
      using False assms(1) len by (auto simp: tls_classify_def TLS_HDR_LEN_def Let_def simp del: take_append length_take)
  qed
qed

lemma tls_classify_record_witness:
  "tls_classify (take 6 (tls_record 0x01 [1, 2] @ [])) = Inr REASSEMBLING
   \<and> tls_classify (take 7 (tls_record 0x01 [1, 2] @ [])) = Inr DONE"
proof -
  have h: "(0x01::byte) = 0x01 \<or> (0x01::byte) = 0x03" "length [1, 2 :: byte] < 65536" by simp_all
  show ?thesis
    using tls_classify_record [OF h, of 6 "[]"] tls_classify_record [OF h, of 7 "[]"] by simp
qed

text \<open>C25. The classifier answers with the protocol of the first sub-classifier that recognises the
  payload; it asks for more data exactly when none recognises it and one wants more, and reports an
  error exactly when all of them reject it. The payloads are taken in list order.\<close>

theorem classify_outcome:
  assumes "map_r payload packets = Inr pls"
  shows "\<exists>r q. classify classifiers packets = Inr (r, q)
    \<and> (r = DONE \<longleftrightarrow> (\<exists>c\<in>set classifiers. classify_payload c (concat pls) = Inr DONE))
    \<and> (r = REASSEMBLING \<longleftrightarrow> (\<forall>c\<in>set classifiers. classify_payload c (concat pls) \<noteq> Inr DONE)
         \<and> (\<exists>c\<in>set classifiers. classify_payload c (concat pls) = Inr REASSEMBLING))
    \<and> (r = DONE \<longrightarrow> (\<exists>as c bs. classifiers = as @ c # bs \<and> q = Some (protocol c)
         \<and> classify_payload c (concat pls) = Inr DONE
         \<and> (\<forall>a\<in>set as. classify_payload a (concat pls) \<noteq> Inr DONE)))"
proof -
  let ?l = "classify_loop classify_payload protocol classifiers (concat pls) 0"
  have "classify classifiers packets = Inr ?l"
    using assms by (simp add: classify_def concat_sorted_def)
  moreover have "fst ?l = DONE \<Longrightarrow> ?l = (DONE, snd ?l)" by (metis prod.collapse)
  ultimately show ?thesis
    using dispatch.loop_done_iff [where proto = protocol and cs = classifiers and pl = "concat pls" and k = 0]
      dispatch.loop_reassembling_iff [where proto = protocol and cs = classifiers and pl = "concat pls" and k = 0]
      dispatch.loop_proto [where proto = protocol and cs = classifiers and pl = "concat pls" and k = 0]
    by (intro exI [of _ "fst ?l"] exI [of _ "snd ?l"]) force
qed

lemma classify_outcome_witness:
  "\<exists>r q. classify [HttpClassifier, TlsHandshakeClassifier]
     [packet_of (take 40 sample_bytes @ [0x16, 3, 1, 0, 1]) 7, packet_of (take 40 sample_bytes @ [9]) 8]
     = Inr (r, q)"
proof -
  let ?ps = "[packet_of (take 40 sample_bytes @ [0x16, 3, 1, 0, 1]) 7, packet_of (take 40 sample_bytes @ [9]) 8]"
  have "map_r payload ?ps = Inr [[0x16, 3, 1, 0, 1], [9]]" by code_simp
  from classify_outcome [OF this] show ?thesis by blast
qed



end
