(* ===== verification/Markers.thy ===== *)
theory Markers
  imports Classify
begin

text \<open>
  Host markers, \<^verbatim>\<open>modify/markers.cpp\<close>: where the host name starts, ends and has its
  middle in an HTTP request or a TLS ClientHello, and where the SNI extension starts. Every
  read that the code does not check is a checked load here, so a fault is a read outside the
  payload.
\<close>

section \<open>The code\<close>

record markers =
  hoststart :: "nat option"
  hostmid :: "nat option"
  hostend :: "nat option"
  sniext :: "nat option"

definition no_markers :: markers where
  "no_markers = \<lparr>hoststart = None, hostmid = None, hostend = None, sniext = None\<rparr>"

definition HOSTSTART_STR :: string where "HOSTSTART_STR = ''hoststart''"
definition HOSTMID_STR :: string where "HOSTMID_STR = ''hostmid''"
definition HOSTEND_STR :: string where "HOSTEND_STR = ''hostend''"
definition SNIEXT_STR :: string where "SNIEXT_STR = ''sniext''"

definition tolower :: "byte \<Rightarrow> byte" where
  "tolower b = (if 0x41 \<le> b \<and> b \<le> 0x5A then b + 0x20 else b)"

definition HOST_HEADER_NAME :: "byte list" where "HOST_HEADER_NAME = ascii ''Host:''"

text \<open>\<open>std::ranges::search\<close> with the case-insensitive comparison.\<close>

definition search_ci :: "byte list \<Rightarrow> byte list \<Rightarrow> nat option" where
  "search_ci pat = find_at (\<lambda>rest. map tolower (take (length pat) rest) = map tolower pat)"

definition find_markers_http :: "byte list \<Rightarrow> markers expected result" where
  "find_markers_http pl =
     (case search_ci HOST_HEADER_NAME pl of
        None \<Rightarrow> Inr (Inl ''Unable to find a host in HTTP'')
      | Some host_pos \<Rightarrow>
          (case find_sub crlf (drop host_pos pl) of
             None \<Rightarrow> Inr (Inl ''Kinda malformed http request'')
           | Some rel \<Rightarrow>
               let host_end = host_pos + rel;
                   host_begin = host_pos + length HOST_HEADER_NAME + 1
               in if host_end < host_begin then Inl Out_of_bounds
                  else
                    let host_size = host_end - host_begin
                    in Inr (Inr \<lparr>hoststart = Some host_begin, hostmid = Some (host_begin + host_size div 2),
                          hostend = Some (host_begin + host_size), sniext = None\<rparr>)))"

text \<open>\<open>safe_subspan\<close> of \<^verbatim>\<open>util/safespan.hpp\<close>: \<open>None\<close> for its \<open>false\<close>.\<close>

definition safe_subspan :: "'a list \<Rightarrow> nat \<Rightarrow> 'a list option" where
  "safe_subspan span off = (if length span < off then None else Some (drop off span))"

definition malformed :: "'a expected result" where "malformed = Inr (Inl ''malformed tls'')"

definition be16_at :: "byte list \<Rightarrow> nat \<Rightarrow> nat" where
  "be16_at bs i = unat (ntohs (get16 bs i))"

text \<open>The loop over the extensions; \<open>full\<close> is the size of the initial span.\<close>

function tls_ext_loop :: "nat \<Rightarrow> markers \<Rightarrow> byte list \<Rightarrow> markers expected result" where
  "tls_ext_loop full ret pl =
     (if pl = [] then Inr (Inl ''Did not find any markers'')
      else if length pl < 2 then malformed
      else
        let ret = ret\<lparr>sniext := Some (full - length pl)\<rparr>;
            ext_type = be16_at pl 0;
            pl1 = drop 2 pl
        in if length pl1 < 2 then malformed
           else
             let ext_len = be16_at pl1 0
             in if ext_type \<noteq> 0 then
                  (case safe_subspan pl1 (2 + ext_len) of
                     None \<Rightarrow> malformed
                   | Some pl2 \<Rightarrow> tls_ext_loop full ret pl2)
                else
                  let pl2 = drop 2 pl1
                  in if length pl2 < 2 + 1 then malformed
                     else if pl2 ! 2 \<noteq> 0 then Inr (Inl '''')
                     else
                       let pl3 = drop (2 + 1) pl2
                       in if length pl3 < 2 then malformed
                          else
                            let hostname_len = be16_at pl3 0
                            in if length pl3 < 2 + hostname_len then malformed
                               else
                                 let start = full - length pl3 + 2
                                 in Inr (Inr (ret\<lparr>hoststart := Some start,
                                       hostend := Some (start + hostname_len),
                                       hostmid := Some (start + hostname_len div 2)\<rparr>)))"
  by pat_completeness auto

lemma safe_subspan_shorter:
  assumes "safe_subspan xs n = Some ys"
  shows "length ys = length xs - n"
  using assms by (auto simp: safe_subspan_def split: if_splits)

termination tls_ext_loop
  by (relation "measure (\<lambda>(full, ret, pl). length pl)") (auto dest: safe_subspan_shorter)

declare tls_ext_loop.simps [simp del]

definition find_markers_tls :: "byte list \<Rightarrow> markers expected result" where
  "find_markers_tls initial =
     and_then (subspan_r initial 5) (\<lambda>pl.
     and_then (load8 pl 0) (\<lambda>content.
     if content \<noteq> 0x01 then Inr (Inl ''payload is not client hello'')
     else
       (case safe_subspan pl 38 of
          None \<Rightarrow> malformed
        | Some pl1 \<Rightarrow>
            and_then (load8 pl1 0) (\<lambda>legacy_session_id_len.
            case safe_subspan pl1 (1 + unat legacy_session_id_len) of
              None \<Rightarrow> malformed
            | Some pl2 \<Rightarrow>
                if length pl2 < 2 then malformed
                else
                  (case safe_subspan pl2 (2 + be16_at pl2 0 + 2) of
                     None \<Rightarrow> malformed
                   | Some pl3 \<Rightarrow>
                       if length pl3 < 2 then malformed
                       else tls_ext_loop (length initial) no_markers (drop 2 pl3))))))"

definition find_markers :: "byte list \<Rightarrow> l7_proto \<Rightarrow> markers expected result" where
  "find_markers pl payload_proto =
     (case payload_proto of
        TLS \<Rightarrow> find_markers_tls pl
      | HTTP \<Rightarrow> find_markers_http pl
      | _ \<Rightarrow> Inr (Inr no_markers))"

section \<open>Lemmas\<close>

text \<open>The marker values are ordered and lie inside the payload.\<close>

definition markers_within :: "nat \<Rightarrow> markers \<Rightarrow> bool" where
  "markers_within n m \<longleftrightarrow>
     (\<exists>s e. hoststart m = Some s \<and> hostend m = Some e \<and> hostmid m = Some (s + (e - s) div 2)
        \<and> s \<le> e \<and> e \<le> n \<and> (\<forall>x. sniext m = Some x \<longrightarrow> x + 9 = s))"

lemma tls_ext_loop_returns: "\<exists>r. tls_ext_loop full ret pl = Inr r"
proof (induction full ret pl rule: tls_ext_loop.induct)
  case (1 full ret pl)
  show ?case
    by (subst tls_ext_loop.simps)
      (use 1 in \<open>auto simp: malformed_def Let_def split: option.splits\<close>)
qed

lemma tls_ext_loop_no_fault [simp]: "tls_ext_loop full ret pl \<noteq> Inl f"
  using tls_ext_loop_returns [of full ret pl] by auto

lemma tls_ext_loop_within:
  assumes "tls_ext_loop full ret pl = Inr (Inr m)" "length pl \<le> full"
  shows "markers_within full m"
  using assms
proof (induction full ret pl rule: tls_ext_loop.induct)
  case (1 full ret pl)
  from "1.prems"(1) [unfolded tls_ext_loop.simps [of full ret pl]] consider
    (skip) pl2 where "safe_subspan (drop 2 pl) (2 + be16_at (drop 2 pl) 0) = Some pl2"
      "tls_ext_loop full (ret\<lparr>sniext := Some (full - length pl)\<rparr>) pl2 = Inr (Inr m)"
      "pl \<noteq> []" "\<not> length pl < 2" "\<not> length (drop 2 pl) < 2" "be16_at pl 0 \<noteq> 0"
  | (sni) "be16_at (drop 7 pl) 0 + 9 \<le> length pl"
      "hoststart m = Some (full - (length pl - 7) + 2)"
      "hostend m = Some (full - (length pl - 7) + 2 + be16_at (drop 7 pl) 0)"
      "hostmid m = Some (full - (length pl - 7) + 2 + be16_at (drop 7 pl) 0 div 2)"
      "sniext m = Some (full - length pl)"
    by (auto simp: malformed_def Let_def split: if_splits option.splits)
  then show ?case
  proof cases
    case skip
    then have "length pl2 \<le> length pl" by (auto dest!: safe_subspan_shorter)
    with skip "1.IH" [of "ret\<lparr>sniext := Some (full - length pl)\<rparr>" "be16_at pl 0" "drop 2 pl"
        "be16_at (drop 2 pl) 0" pl2] "1.prems"(2)
    show ?thesis by simp
  next
    case sni
    with "1.prems"(2) show ?thesis by (auto simp: markers_within_def)
  qed
qed

lemma find_markers_tls_within:
  assumes "find_markers_tls pl = Inr (Inr m)"
  shows "markers_within (length pl) m"
proof -
  from assms obtain rest where "tls_ext_loop (length pl) no_markers rest = Inr (Inr m)" "length rest \<le> length pl"
    by (auto simp: find_markers_tls_def and_then_Inr_iff malformed_def subspan_r_Inr_iff safe_subspan_def
        split: if_splits option.splits)
  then show ?thesis by (rule tls_ext_loop_within)
qed

lemma search_ci_Some:
  assumes "search_ci pat pl = Some i"
  shows "i + length pat \<le> length pl" "map tolower (take (length pat) (drop i pl)) = map tolower pat"
proof -
  show t: "map tolower (take (length pat) (drop i pl)) = map tolower pat"
    using assms by (simp add: search_ci_def find_at_Some)
  have "i \<le> length pl" using assms by (simp add: search_ci_def find_at_Some)
  moreover have "length (take (length pat) (drop i pl)) = length pat"
    using t by (metis length_map)
  ultimately show "i + length pat \<le> length pl" by (auto simp: min_def split: if_splits)
qed

lemma tolower_CR: "tolower b = tolower 0x0D \<Longrightarrow> b = 0x0D"
  by (auto simp: tolower_def word_le_nat_alt unat_arith_simps split: if_splits)

lemma host_then_crlf:
  assumes "search_ci HOST_HEADER_NAME pl = Some i" "find_sub crlf (drop i pl) = Some rel"
  shows "5 \<le> rel"
proof (rule ccontr)
  let ?h = "take 5 (drop i pl)"
  assume "\<not> 5 \<le> rel"
  then have rel: "rel < 5" by simp
  have len: "length HOST_HEADER_NAME = 5" by code_simp
  note S = search_ci_Some [OF assms(1), unfolded len]
  have "drop i pl ! rel = 0x0D"
    using find_sub_nth [OF assms(2), of 0] by (simp add: crlf_def)
  then have "?h ! rel = 0x0D" using rel by simp
  then have "map tolower ?h ! rel = 0x0D" using rel S(1) by (simp add: tolower_def)
  then have "map tolower HOST_HEADER_NAME ! rel = 0x0D" using S(2) by simp
  moreover have "0x0D \<notin> set (map tolower HOST_HEADER_NAME)" by code_simp
  ultimately show False using rel len by (metis length_map nth_mem)
qed

text \<open>A ClientHello as its sender builds it, for the correctness of the TLS markers.\<close>

definition be16 :: "nat \<Rightarrow> byte list" where
  "be16 n = [byte_of 1 (word_of_nat n :: u16), byte_of 0 (word_of_nat n :: u16)]"

definition ext_bytes :: "nat \<times> byte list \<Rightarrow> byte list" where
  "ext_bytes e = be16 (fst e) @ be16 (length (snd e)) @ snd e"

definition sni_bytes :: "byte list \<Rightarrow> byte list" where
  "sni_bytes host =
     be16 0 @ be16 (length host + 5) @ be16 (length host + 3) @ [0] @ be16 (length host) @ host"

record client_hello =
  ch_header :: "byte list"
  ch_fixed :: "byte list"
  ch_session_id :: "byte list"
  ch_ciphers :: "byte list"
  ch_compression :: "byte list"
  ch_exts_len :: "byte list"
  ch_exts_before :: "(nat \<times> byte list) list"
  ch_host :: "byte list"
  ch_rest :: "byte list"

text \<open>Everything up to the SNI extension, and the whole message.\<close>

definition ch_prefix :: "client_hello \<Rightarrow> byte list" where
  "ch_prefix ch =
     ch_header ch @ [0x01] @ ch_fixed ch @ [word_of_nat (length (ch_session_id ch))] @ ch_session_id ch
       @ be16 (length (ch_ciphers ch)) @ ch_ciphers ch @ ch_compression ch @ ch_exts_len ch
       @ concat (map ext_bytes (ch_exts_before ch))"

definition ch_bytes :: "client_hello \<Rightarrow> byte list" where
  "ch_bytes ch = ch_prefix ch @ sni_bytes (ch_host ch) @ ch_rest ch"

definition wf_client_hello :: "client_hello \<Rightarrow> bool" where
  "wf_client_hello ch \<longleftrightarrow>
     length (ch_header ch) = 5 \<and> length (ch_fixed ch) = 37 \<and> length (ch_session_id ch) < 256
     \<and> length (ch_ciphers ch) < 65536 \<and> length (ch_compression ch) = 2 \<and> length (ch_exts_len ch) = 2
     \<and> list_all (\<lambda>e. 0 < fst e \<and> fst e < 65536 \<and> length (snd e) < 65536) (ch_exts_before ch)
     \<and> length (ch_host ch) < 65536"

lemma length_be16 [simp]: "length (be16 n) = 2"
  by (simp add: be16_def)

lemma be16_at_be16 [simp]: "n < 65536 \<Longrightarrow> be16_at (be16 n @ xs) 0 = n"
  by (simp add: be16_at_def be16_def get16_def htons_def unat_of_nat_small)

lemma be16_not_empty [simp]: "be16 n \<noteq> []"
  by (simp add: be16_def)

lemma tls_ext_loop_ext:
  assumes "0 < fst e" "fst e < 65536" "length (snd e) < 65536"
  shows "tls_ext_loop full ret (ext_bytes e @ pl) =
    tls_ext_loop full (ret\<lparr>sniext := Some (full - length (ext_bytes e @ pl))\<rparr>) pl"
  using assms
  by (subst tls_ext_loop.simps) (simp add: ext_bytes_def Let_def safe_subspan_def)

lemma tls_ext_loop_exts:
  assumes "list_all (\<lambda>e. 0 < fst e \<and> fst e < 65536 \<and> length (snd e) < 65536) es"
  shows "\<exists>x. tls_ext_loop full ret (concat (map ext_bytes es) @ pl) = tls_ext_loop full (ret\<lparr>sniext := x\<rparr>) pl"
  using assms
proof (induction es arbitrary: ret)
  case Nil
  show ?case by (rule exI [of _ "sniext ret"]) simp
next
  case (Cons e es)
  then show ?case
    using Cons.IH [of "ret\<lparr>sniext := Some (full - length (ext_bytes e @ concat (map ext_bytes es) @ pl))\<rparr>"]
    by (simp add: tls_ext_loop_ext)
qed

lemma tls_ext_loop_sni:
  assumes "length host < 65536" "full = n + length (sni_bytes host @ rest)"
  shows "tls_ext_loop full ret (sni_bytes host @ rest) =
    Inr (Inr (ret\<lparr>sniext := Some n, hoststart := Some (n + 9), hostend := Some (n + 9 + length host),
      hostmid := Some (n + 9 + length host div 2)\<rparr>))"
  using assms
  by (subst tls_ext_loop.simps) (simp add: sni_bytes_def Let_def be16_def [of "length host + 5"]
      be16_def [of "length host + 3"])

section \<open>Properties\<close>

text \<open>C36. Whenever a host is found, in TLS or HTTP, the markers are ordered and lie inside the
  payload: start, middle and end of the host in this order, the middle being start plus half the
  host's length, the end not beyond the payload, and the SNI extension nine bytes before the host.\<close>

theorem find_markers_within:
  assumes "find_markers pl proto = Inr (Inr m)" "proto = TLS \<or> proto = HTTP"
  shows "markers_within (length pl) m"
  using assms(2)
proof
  assume "proto = TLS"
  with assms show ?thesis by (simp add: find_markers_def find_markers_tls_within)
next
  assume "proto = HTTP"
  with assms obtain i rel where ir: "search_ci HOST_HEADER_NAME pl = Some i"
    "find_sub crlf (drop i pl) = Some rel" "i + length HOST_HEADER_NAME + 1 \<le> i + rel"
    "hoststart m = Some (i + length HOST_HEADER_NAME + 1)"
    "hostend m = Some (i + rel)"
    "hostmid m = Some (i + length HOST_HEADER_NAME + 1 + (rel - (length HOST_HEADER_NAME + 1)) div 2)"
    "sniext m = None"
    by (auto simp: find_markers_def find_markers_http_def Let_def split: option.splits if_splits)
  then have "i + rel \<le> length pl"
    using find_sub_Some_bound(1) [OF ir(2)] by simp
  with ir show ?thesis by (simp add: markers_within_def)
qed

definition sample_request :: "byte list" where
  "sample_request = ascii ''GET / HTTP/1.1'' @ crlf @ ascii ''hOST:'' @ [0x20] @ ascii ''a.bc'' @ crlf @ crlf"

lemma find_markers_within_witness:
  "\<exists>m. find_markers sample_request HTTP = Inr (Inr m) \<and> markers_within (length sample_request) m"
proof -
  have m: "find_markers sample_request HTTP = Inr (Inr \<lparr>hoststart = Some 22, hostmid = Some 24,
      hostend = Some 26, sniext = None\<rparr>)"
    by code_simp
  show ?thesis using m find_markers_within [OF m] by blast
qed

text \<open>The only reads outside the payload while looking for TLS markers happen on a payload of at
  most five bytes (the record header alone) and on one of exactly 43 bytes that starts a
  ClientHello (nothing behind the random field). Every other payload gives markers or an error.\<close>

theorem find_markers_tls_faults:
  "find_markers_tls pl = Inl f \<longleftrightarrow>
     f = Out_of_bounds \<and> (length pl \<le> 5 \<or> length pl = 43 \<and> pl ! 5 = 0x01)"
proof (cases "length pl \<le> 5")
  case True
  then show ?thesis
    by (auto simp: find_markers_tls_def subspan_r_def load8_def and_then_Inl_iff)
next
  case False
  then have s: "subspan_r pl 5 = Inr (drop 5 pl)" "load8 (drop 5 pl) 0 = Inr (pl ! 5)"
    by (simp_all add: subspan_r_def load8_def get8_def)
  show ?thesis
  proof (cases "pl ! 5 = 0x01 \<and> 43 \<le> length pl")
    case False
    with s \<open>\<not> length pl \<le> 5\<close> show ?thesis
      by (auto simp: find_markers_tls_def safe_subspan_def malformed_def)
  next
    case True
    then have "safe_subspan (drop 5 pl) 38 = Some (drop 43 pl)"
      by (auto simp: safe_subspan_def)
    with True s \<open>\<not> length pl \<le> 5\<close> show ?thesis
      by (cases "length pl = 43")
        (auto simp: find_markers_tls_def load8_def malformed_def and_then_Inl_iff split: option.splits if_splits)
  qed
qed

text \<open>Looking for HTTP markers reads outside the payload exactly when the first host header has
  an empty value with not even a space: its line end directly follows the colon.\<close>

theorem find_markers_http_faults:
  "find_markers_http pl = Inl f \<longleftrightarrow>
     f = Out_of_bounds \<and> (\<exists>i. search_ci HOST_HEADER_NAME pl = Some i \<and> find_sub crlf (drop i pl) = Some 5)"
proof -
  have "length HOST_HEADER_NAME = 5" by code_simp
  moreover have "rel < 6 \<longleftrightarrow> rel = 5"
    if "search_ci HOST_HEADER_NAME pl = Some i" "find_sub crlf (drop i pl) = Some rel" for i rel
    using host_then_crlf [OF that] by auto
  ultimately show ?thesis
    by (auto simp: find_markers_http_def Let_def split: option.splits)
qed

text \<open>C18. On a ClientHello with a host name extension, whatever stands before and after it, the
  host markers delimit exactly the host name, the middle marker halves it, and the SNI marker is
  the start of that extension.\<close>

theorem find_markers_tls_client_hello:
  assumes "wf_client_hello ch"
  shows "find_markers_tls (ch_bytes ch) = Inr (Inr \<lparr>
      hoststart = Some (length (ch_prefix ch) + 9),
      hostmid = Some (length (ch_prefix ch) + 9 + length (ch_host ch) div 2),
      hostend = Some (length (ch_prefix ch) + 9 + length (ch_host ch)),
      sniext = Some (length (ch_prefix ch))\<rparr>)
    \<and> take (length (ch_host ch)) (drop (length (ch_prefix ch) + 9) (ch_bytes ch)) = ch_host ch"
proof -
  let ?full = "length (ch_bytes ch)"
  let ?exts = "concat (map ext_bytes (ch_exts_before ch)) @ sni_bytes (ch_host ch) @ ch_rest ch"
  note W = assms [unfolded wf_client_hello_def]
  obtain x where "tls_ext_loop ?full no_markers ?exts =
      tls_ext_loop ?full (no_markers\<lparr>sniext := x\<rparr>) (sni_bytes (ch_host ch) @ ch_rest ch)"
    using tls_ext_loop_exts [of "ch_exts_before ch"] W by blast
  moreover have "?full = length (ch_prefix ch) + length (sni_bytes (ch_host ch) @ ch_rest ch)"
    by (simp add: ch_bytes_def)
  ultimately have loop: "tls_ext_loop ?full no_markers ?exts = Inr (Inr \<lparr>
      hoststart = Some (length (ch_prefix ch) + 9),
      hostmid = Some (length (ch_prefix ch) + 9 + length (ch_host ch) div 2),
      hostend = Some (length (ch_prefix ch) + 9 + length (ch_host ch)),
      sniext = Some (length (ch_prefix ch))\<rparr>)"
    using W by (simp add: tls_ext_loop_sni no_markers_def)
  have "find_markers_tls (ch_bytes ch) = tls_ext_loop ?full no_markers ?exts"
    using W
    by (simp add: find_markers_tls_def ch_bytes_def ch_prefix_def subspan_r_def load8_def get8_def
        safe_subspan_def unat_of_nat_small nth_append)
  moreover have "drop (length (ch_prefix ch) + 9) (ch_bytes ch) = ch_host ch @ ch_rest ch"
    by (simp add: ch_bytes_def sni_bytes_def be16_def)
  ultimately show ?thesis using loop by simp
qed

definition sample_hello :: client_hello where
  "sample_hello = \<lparr>ch_header = [0x16, 3, 1, 0, 0], ch_fixed = replicate 37 0, ch_session_id = [7],
     ch_ciphers = [0x13, 1], ch_compression = [1, 0], ch_exts_len = [0, 30],
     ch_exts_before = [(23, [])], ch_host = ascii ''vk.com'', ch_rest = [0, 0]\<rparr>"

lemma find_markers_tls_client_hello_witness:
  "wf_client_hello sample_hello
   \<and> (\<exists>m. find_markers_tls (ch_bytes sample_hello) = Inr (Inr m) \<and> hoststart m = Some 66 \<and> hostend m = Some 72)"
proof -
  have w: "wf_client_hello sample_hello" by (simp add: wf_client_hello_def sample_hello_def ascii_def)
  have "length (ch_prefix sample_hello) = 57" "length (ch_host sample_hello) = 6" by code_simp+
  with w find_markers_tls_client_hello [OF w] show ?thesis by simp
qed

text \<open>C22. On an HTTP request whose first host header, in any case, is followed by one separator byte
  and a value without carriage return, the host markers delimit exactly the value.\<close>

theorem find_markers_http_request:
  assumes "pl = before @ header @ [sep] @ host @ crlf @ after"
    and "length header = length HOST_HEADER_NAME" "search_ci HOST_HEADER_NAME pl = Some (length before)"
    and "sep \<noteq> 0x0D" "0x0D \<notin> set host"
  shows "find_markers_http pl = Inr (Inr \<lparr>
      hoststart = Some (length before + 6), hostmid = Some (length before + 6 + length host div 2),
      hostend = Some (length before + 6 + length host), sniext = None\<rparr>)
    \<and> take (length host) (drop (length before + 6) pl) = host"
proof -
  have len: "length HOST_HEADER_NAME = 5" by code_simp
  have "map tolower header = map tolower HOST_HEADER_NAME"
    using search_ci_Some(2) [OF assms(3)] assms(1,2) by simp
  moreover have "tolower 0x0D \<notin> set (map tolower HOST_HEADER_NAME)" by code_simp
  ultimately have "tolower 0x0D \<notin> set (map tolower header)" by simp
  then have hdr: "0x0D \<notin> set header" by auto
  let ?line = "header @ [sep] @ host"
  have "0x0D \<notin> set ?line" using hdr assms(4,5) by auto
  then have "find_sub crlf (?line @ crlf @ after) = Some (length ?line)"
    unfolding crlf_def by (rule find_sub_fresh)
  then have "find_sub crlf (drop (length before) pl) = Some (6 + length host)"
    using assms(1,2) len by simp
  then show ?thesis
    using assms(1-3) len by (simp add: find_markers_http_def Let_def)
qed

lemma find_markers_http_request_witness:
  "\<exists>m. find_markers_http sample_request = Inr (Inr m) \<and> hoststart m = Some 22
     \<and> take 4 (drop 22 sample_request) = ascii ''a.bc''"
proof -
  let ?before = "ascii ''GET / HTTP/1.1'' @ crlf"
  have h: "sample_request = ?before @ ascii ''hOST:'' @ [0x20] @ ascii ''a.bc'' @ crlf @ crlf"
    "length (ascii ''hOST:'') = length HOST_HEADER_NAME"
    "search_ci HOST_HEADER_NAME sample_request = Some (length ?before)"
    "(0x20 :: byte) \<noteq> 0x0D" "0x0D \<notin> set (ascii ''a.bc'')"
    by code_simp+
  have "length ?before = 16" "length (ascii ''a.bc'') = 4" by code_simp+
  with find_markers_http_request [OF h] show ?thesis by simp
qed

end
