(* ===== verification/Rewriter.thy ===== *)
theory Rewriter
  imports Checksum
begin

text \<open>
  What every pass over a connection's packet vector promises, whichever modifier it belongs to:
  the packets stay well-formed TCP packets, the vector does not become empty, and the verdicts
  owed to the netfilter queue stay owed. The promise is a locale; the passes of the other theories
  are its interpretations, and the rules below build the promise of a composed pass from the
  promises of its parts.
\<close>

section \<open>Verdicts\<close>

text \<open>
  A packet whose action is ACCEPT, DROP or DROP_AND_SEND gives the kernel a verdict on its queue
  id when the packet loop sends it; a packet whose action is SEND goes to the raw socket only.
\<close>

definition owes_verdict :: "packet \<Rightarrow> bool" where
  "owes_verdict p \<longleftrightarrow> action_action p \<noteq> SEND"

definition verdicts :: "packet list \<Rightarrow> u32 list" where
  "verdicts packets = map action_packet_id (filter owes_verdict packets)"

lemma verdicts_simps [simp]:
  "verdicts [] = []"
  "verdicts (p # ps) = (if owes_verdict p then action_packet_id p # verdicts ps else verdicts ps)"
  "verdicts (ps @ qs) = verdicts ps @ verdicts qs"
  by (simp_all add: verdicts_def)

lemma verdicts_cong:
  "list_all2 (\<lambda>p q. action_packet_id q = action_packet_id p \<and> action_action q = action_action p) ps qs
   \<Longrightarrow> verdicts qs = verdicts ps"
  by (induction rule: list_all2_induct) (auto simp: owes_verdict_def)

lemma verdicts_perm: "mset qs = mset ps \<Longrightarrow> mset (verdicts qs) = mset (verdicts ps)"
  unfolding verdicts_def by (metis mset_filter mset_map)

section \<open>The contract\<close>

locale packet_rewriter =
  fixes run :: "packet list \<Rightarrow> packet list result"
  assumes run_wf: "run ps = Inr qs \<Longrightarrow> list_all wf_packet ps \<Longrightarrow> list_all wf_packet qs"
    and run_verdicts: "run ps = Inr qs \<Longrightarrow> list_all wf_packet ps \<Longrightarrow> mset (verdicts qs) = mset (verdicts ps)"
    and run_nonempty: "run ps = Inr qs \<Longrightarrow> list_all wf_packet ps \<Longrightarrow> ps \<noteq> [] \<Longrightarrow> qs \<noteq> []"
begin

lemma run_owed_once:
  assumes "run ps = Inr qs" "list_all wf_packet ps" "distinct (verdicts ps)"
  shows "distinct (verdicts qs)" "set (verdicts qs) = set (verdicts ps)"
  using run_verdicts [OF assms(1,2)] assms(3) by (metis mset_eq_imp_distinct_iff, metis mset_eq_setD)

lemma run_still_owed:
  assumes "run ps = Inr qs" "list_all wf_packet ps" "p \<in> set ps" "owes_verdict p"
  shows "\<exists>q\<in>set qs. owes_verdict q \<and> action_packet_id q = action_packet_id p"
proof -
  have "action_packet_id p \<in> set (verdicts ps)" using assms(3,4) by (auto simp: verdicts_def)
  then have "action_packet_id p \<in> set (verdicts qs)"
    using run_verdicts [OF assms(1,2)] by (metis mset_eq_setD)
  then show ?thesis by (auto simp: verdicts_def)
qed

end

named_theorems rewriting "passes that keep the contract, and their compositions"

lemma rewriter_skip [rewriting, intro!]: "packet_rewriter (\<lambda>ps. Inr ps)"
  by unfold_locales simp_all

lemma rewriter_fail [rewriting, intro!]: "packet_rewriter (\<lambda>ps. Inl e)"
  by unfold_locales simp_all

lemma rewriter_then [rewriting, intro]:
  assumes "packet_rewriter f" "packet_rewriter g"
  shows "packet_rewriter (\<lambda>ps. and_then (f ps) g)"
proof
  fix ps rs
  assume "and_then (f ps) g = Inr rs" and wf: "list_all wf_packet ps"
  then obtain qs where f: "f ps = Inr qs" and g: "g qs = Inr rs" by (auto simp: res)
  note F = packet_rewriter.run_wf [OF assms(1) f wf]
  show "list_all wf_packet rs" using assms(2) g F by (rule packet_rewriter.run_wf)
  show "mset (verdicts rs) = mset (verdicts ps)"
    using packet_rewriter.run_verdicts [OF assms(2) g F] packet_rewriter.run_verdicts [OF assms(1) f wf]
    by simp
  show "rs \<noteq> []" if "ps \<noteq> []"
    using packet_rewriter.run_nonempty [OF assms(1) f wf that]
    by (rule packet_rewriter.run_nonempty [OF assms(2) g F])
qed

lemma rewriter_if [rewriting, intro]:
  "(b \<Longrightarrow> packet_rewriter f) \<Longrightarrow> (\<not> b \<Longrightarrow> packet_rewriter g)
   \<Longrightarrow> packet_rewriter (\<lambda>ps. if b then f ps else g ps)"
  by (cases b) simp_all

lemma rewriter_option [rewriting, intro]:
  "(m = None \<Longrightarrow> packet_rewriter f) \<Longrightarrow> (\<And>x. m = Some x \<Longrightarrow> packet_rewriter (g x))
   \<Longrightarrow> packet_rewriter (\<lambda>ps. case m of None \<Rightarrow> f ps | Some x \<Rightarrow> g x ps)"
  by (cases m) simp_all

lemma rewriter_fold [rewriting]:
  assumes "\<And>x. x \<in> set xs \<Longrightarrow> packet_rewriter (step x)"
  shows "packet_rewriter (fold_r step xs)"
  using assms
proof (induction xs)
  case Nil
  have "fold_r step [] = (\<lambda>ps. Inr ps)" by (simp add: fun_eq_iff)
  then show ?case by (simp add: rewriter_skip)
next
  case (Cons x xs)
  have "fold_r step (x # xs) = (\<lambda>ps. and_then (step x ps) (fold_r step xs))"
    by (simp add: fun_eq_iff)
  with Cons show ?case by (simp add: rewriter_then)
qed

text \<open>A pass that also tells something to the rest of the composition.\<close>

lemma rewriter_then_pair:
  assumes "\<And>ps qs k. f ps = Inr (qs, k) \<Longrightarrow> list_all wf_packet ps \<Longrightarrow>
      list_all wf_packet qs \<and> mset (verdicts qs) = mset (verdicts ps) \<and> (ps \<noteq> [] \<longrightarrow> qs \<noteq> [])"
    and "\<And>k. packet_rewriter (\<lambda>qs. g (qs, k))"
  shows "packet_rewriter (\<lambda>ps. and_then (f ps) g)"
proof
  fix ps rs
  assume "and_then (f ps) g = Inr rs" and wf: "list_all wf_packet ps"
  then obtain qs k where f: "f ps = Inr (qs, k)" and g: "g (qs, k) = Inr rs" by (auto simp: res)
  note Q = assms(1) [OF f wf]
  show "list_all wf_packet rs" using packet_rewriter.run_wf [OF assms(2) g] Q by simp
  show "mset (verdicts rs) = mset (verdicts ps)" using packet_rewriter.run_verdicts [OF assms(2) g] Q by simp
  show "rs \<noteq> []" if "ps \<noteq> []" using packet_rewriter.run_nonempty [OF assms(2) g] Q that by simp
qed

section \<open>Passes over headers\<close>

text \<open>
  A pass that only changes header or payload bytes: packet by packet, each keeps its place, its
  queue id, its action and its fake mark. Such a pass keeps the contract above.
\<close>

definition same_role :: "packet \<Rightarrow> packet \<Rightarrow> bool" where
  "same_role p q \<longleftrightarrow> wf_packet q \<and> action_packet_id q = action_packet_id p
     \<and> action_action q = action_action p \<and> is_fake_blob q = is_fake_blob p"

locale header_pass =
  fixes run :: "packet list \<Rightarrow> packet list result"
  assumes run_pointwise: "run ps = Inr qs \<Longrightarrow> list_all wf_packet ps \<Longrightarrow> list_all2 same_role ps qs"
begin

lemma run_length: "run ps = Inr qs \<Longrightarrow> list_all wf_packet ps \<Longrightarrow> length qs = length ps"
  using run_pointwise by (metis list_all2_lengthD)

lemma run_fake: "run ps = Inr qs \<Longrightarrow> list_all wf_packet ps \<Longrightarrow> map is_fake_blob qs = map is_fake_blob ps"
  using run_pointwise [of ps qs] by (auto simp: list_eq_iff_nth_eq list_all2_conv_all_nth same_role_def)

end

lemma same_role_trans: "same_role p q \<Longrightarrow> same_role q r \<Longrightarrow> same_role p r"
  by (simp add: same_role_def)

lemma same_role_wf: "list_all2 same_role ps qs \<Longrightarrow> list_all wf_packet qs"
  by (induction rule: list_all2_induct) (simp_all add: same_role_def)

lemma same_role_verdicts: "list_all2 same_role ps qs \<Longrightarrow> verdicts qs = verdicts ps"
  by (rule verdicts_cong) (auto simp: same_role_def elim: list_all2_mono)

sublocale header_pass \<subseteq> packet_rewriter run
proof
  fix ps qs
  assume "run ps = Inr qs" "list_all wf_packet ps"
  then have R: "list_all2 same_role ps qs" by (rule run_pointwise)
  show "list_all wf_packet qs" using R by (rule same_role_wf)
  show "mset (verdicts qs) = mset (verdicts ps)" using same_role_verdicts [OF R] by simp
  show "qs \<noteq> []" if "ps \<noteq> []" using R that by auto
qed

named_theorems header_passing "header passes and their compositions"

lemma header_skip [header_passing]: "header_pass (\<lambda>ps. Inr ps)"
  by unfold_locales (auto simp: list_all_iff same_role_def list_all2_same)

lemma header_fail [header_passing]: "header_pass (\<lambda>ps. Inl e)"
  by unfold_locales simp

lemma header_then [header_passing]:
  assumes "header_pass f" "header_pass g"
  shows "header_pass (\<lambda>ps. and_then (f ps) g)"
proof
  fix ps rs
  assume "and_then (f ps) g = Inr rs" and wf: "list_all wf_packet ps"
  then obtain qs where f: "f ps = Inr qs" and g: "g qs = Inr rs" by (auto simp: res)
  have Q: "list_all2 same_role ps qs" using header_pass.run_pointwise [OF assms(1) f wf] .
  then have "list_all2 same_role qs rs"
    by (intro header_pass.run_pointwise [OF assms(2) g] same_role_wf)
  with Q show "list_all2 same_role ps rs"
    using list_all2_trans [of same_role same_role same_role] same_role_trans by blast
qed

lemma header_if [header_passing]:
  "(b \<Longrightarrow> header_pass f) \<Longrightarrow> (\<not> b \<Longrightarrow> header_pass g)
   \<Longrightarrow> header_pass (\<lambda>ps. if b then f ps else g ps)"
  by (cases b) simp_all

lemma header_option [header_passing]:
  "(m = None \<Longrightarrow> header_pass f) \<Longrightarrow> (\<And>x. m = Some x \<Longrightarrow> header_pass (g x))
   \<Longrightarrow> header_pass (\<lambda>ps. case m of None \<Rightarrow> f ps | Some x \<Rightarrow> g x ps)"
  by (cases m) simp_all

text \<open>A loop over a filter view whose body keeps a packet's role.\<close>

lemma header_map_view [header_passing]:
  assumes "\<And>p q. P p \<Longrightarrow> wf_packet p \<Longrightarrow> f p = Inr q \<Longrightarrow> same_role p q"
  shows "header_pass (map_view P f)"
proof
  fix ps qs
  assume run: "map_view P f ps = Inr qs" and wf: "list_all wf_packet ps"
  have "list_all2 (\<lambda>p q. p = q \<or> P p \<and> f p = Inr q) ps qs" using run by (rule map_view_list_all2) auto
  then show "list_all2 same_role ps qs"
    using wf by (induction rule: list_all2_induct) (auto simp: assms, simp_all add: same_role_def)
qed

end
