(* ===== verification/Common.thy ===== *)
theory Common
  imports Reassembly Rewriter
begin

text \<open>
  The passes shared by the modifiers, \<^verbatim>\<open>modify/algorithms/common.{hpp,cpp}\<close>: shifting TCP
  timestamps, cutting a payload into segments of at most the maximum segment size, and the loops
  over a filter view that set the time to live, shift sequence numbers and spoil checksums.
\<close>

section \<open>Timestamps\<close>

text \<open>
  The option loop of \<open>timestamp_val_offset\<close> at position \<open>pos\<close> of the buffer, with the header's
  end at \<open>e\<close>. An option of length zero that is neither padding nor a timestamp leaves the loop
  where it is, so the recursion is a partial function and \<open>None\<close> is a loop that never ends.
\<close>

definition write_timestamps :: "i32 \<Rightarrow> byte list \<Rightarrow> nat \<Rightarrow> (bool \<times> byte list) result" where
  "write_timestamps off bs pos =
     and_then (load32 bs (pos + 2)) (\<lambda>tval.
     and_then (add_int (ntohl tval) off) (\<lambda>v.
     and_then (store32 bs (pos + 2) (htonl v)) (\<lambda>bs'.
     and_then (load32 bs' (pos + 6)) (\<lambda>tresp.
     and_then (add_int (ntohl tresp) off) (\<lambda>r.
     and_then (store32 bs' (pos + 6) (htonl r)) (\<lambda>bs''. Inr (True, bs'')))))))"

partial_function (option) timestamp_loop ::
  "i32 \<Rightarrow> byte list \<Rightarrow> nat \<Rightarrow> nat \<Rightarrow> (bool \<times> byte list) result option" where
  "timestamp_loop off bs pos e =
     (if pos \<ge> e then Some (Inr (True, bs))
      else if e - pos < 2 then Some (Inr (False, bs))
      else
        case load8 bs pos of
          Inl f \<Rightarrow> Some (Inl f)
        | Inr kind \<Rightarrow>
            if kind = 1 then timestamp_loop off bs (pos + 1) e
            else
              case load8 bs (pos + 1) of
                Inl f \<Rightarrow> Some (Inl f)
              | Inr len \<Rightarrow>
                  if kind \<noteq> 8 then
                    if e - pos < unat len then Some (Inr (False, bs))
                    else timestamp_loop off bs (pos + unat len) e
                  else if len < 10 \<or> len > 10 then Some (Inr (False, bs))
                  else Some (write_timestamps off bs pos))"

definition timestamp_val_offset :: "packet \<Rightarrow> i32 \<Rightarrow> (bool \<times> packet) result" where
  "timestamp_val_offset packet off =
     and_then (tcp_doff (packet_bytes packet) (transport_offset packet)) (\<lambda>doff.
     if doff * 4 \<le> sizeof_tcphdr then Inr (False, packet)
     else
       case timestamp_loop off (packet_bytes packet) (transport_offset packet + sizeof_tcphdr)
              (transport_offset packet + doff * 4) of
         None \<Rightarrow> Inl Diverges
       | Some r \<Rightarrow> and_then r (\<lambda>(ok, bs). Inr (ok, packet\<lparr>packet_bytes := bs\<rparr>)))"

section \<open>Segments\<close>

text \<open>
  The loop of \<open>segmentize\<close>. With a segment size of zero it would never end; \<open>segmentize\<close>
  divides by the segment size first.
\<close>

function segment_loop ::
  "packet_view \<Rightarrow> packet \<Rightarrow> nat \<Rightarrow> byte list \<Rightarrow> u32 \<Rightarrow> packet list result" where
  "segment_loop view orig mss pl start_seq =
     (if pl = [] then Inr []
      else if mss = 0 then Inl Diverges
      else
        let chunk_size = min (length pl) mss in
        and_then (create_packet_from view (take chunk_size pl)) (\<lambda>pkt.
        let new_packet = pkt\<lparr>is_fake_blob := is_fake_blob orig, action_action := SEND, action_packet_id := 0\<rparr> in
        and_then (store32 (packet_bytes new_packet) (transport_offset new_packet + 4) (htonl start_seq)) (\<lambda>bs.
        and_then (calc_packet_checksum (new_packet\<lparr>packet_bytes := bs\<rparr>)) (\<lambda>done_packet.
        and_then (segment_loop view orig mss (drop chunk_size pl) (start_seq + word_of_nat chunk_size)) (\<lambda>rest.
        Inr (done_packet # rest))))))"
  by pat_completeness auto

termination segment_loop
  by (relation "measure (\<lambda>(_, _, _, pl, _). length pl)") auto

declare segment_loop.simps [simp del]

definition segmentize :: "byte list \<Rightarrow> nat \<Rightarrow> packet \<Rightarrow> u32 \<Rightarrow> packet list result" where
  "segmentize full_payload mss orig start_seq =
     and_then (parse_packet_view_of orig) (\<lambda>view.
     if mss = 0 then Inl Division_by_zero
     else
       and_then (segment_loop view orig mss full_payload start_seq) (\<lambda>splitted.
       case splitted of
         [] \<Rightarrow> Inl Out_of_bounds
       | front # rest \<Rightarrow>
           if action_action orig = SEND then Inr (front\<lparr>action_action := SEND\<rparr> # rest)
           else Inr (front\<lparr>action_action := DROP_AND_SEND, action_packet_id := action_packet_id orig\<rparr> # rest)))"

section \<open>Loops over filter views\<close>

definition ipv4_ttl :: "(packet \<Rightarrow> bool) \<Rightarrow> byte \<Rightarrow> packet list \<Rightarrow> packet list result" where
  "ipv4_ttl P ttl = map_view P (\<lambda>packet.
     and_then (store8 (packet_bytes packet) (network_offset packet + 8) ttl) (\<lambda>bs.
     Inr (packet\<lparr>packet_bytes := bs\<rparr>)))"

definition timestamp_offset :: "(packet \<Rightarrow> bool) \<Rightarrow> i32 \<Rightarrow> packet list \<Rightarrow> packet list result" where
  "timestamp_offset P off = map_view P (\<lambda>packet.
     and_then (timestamp_val_offset packet off) (\<lambda>(ok, packet').
     calc_packet_checksum packet'))"

definition sequence_offset :: "(packet \<Rightarrow> bool) \<Rightarrow> i32 \<Rightarrow> packet list \<Rightarrow> packet list result" where
  "sequence_offset P off = map_view P (\<lambda>packet.
     and_then (tcp_seq (packet_bytes packet) (transport_offset packet)) (\<lambda>seq.
     and_then (add_int (ntohl seq) off) (\<lambda>v.
     and_then (store32 (packet_bytes packet) (transport_offset packet + 4) (htonl v)) (\<lambda>bs.
     calc_packet_checksum (packet\<lparr>packet_bytes := bs\<rparr>)))))"

text \<open>
  \<open>rand_at i\<close> is what \<open>rand()\<close> returns at position \<open>i\<close> of the vector. The assignment of the
  32-bit \<open>htonl\<close> to the 16-bit field keeps the low half.
\<close>

definition spoil_checksum :: "u32 \<Rightarrow> packet \<Rightarrow> packet result" where
  "spoil_checksum r packet =
     and_then (store16 (packet_bytes packet) (transport_offset packet + 16) 0) (\<lambda>bs.
     and_then (store16 bs (transport_offset packet + 16) (ucast (htonl (r mod 256)))) (\<lambda>bs'.
     Inr (packet\<lparr>packet_bytes := bs'\<rparr>)))"

definition badchecksum ::
  "(packet \<Rightarrow> bool) \<Rightarrow> (nat \<Rightarrow> u32) \<Rightarrow> byte \<Rightarrow> packet list \<Rightarrow> packet list result" where
  "badchecksum P rand_at l4_proto packets =
     (if l4_proto = IPPROTO_TCP
      then map_r (\<lambda>(i, packet). if P packet then spoil_checksum (rand_at i) packet else Inr packet)
             (enumerate 0 packets)
      else Inr packets)"

section \<open>What the timestamp pass touches\<close>

lemma write_timestamps_frame:
  assumes "write_timestamps off bs pos = Inr (ok, bs')"
  shows "length bs' = length bs \<and> (\<forall>j\<le>pos. bs' ! j = bs ! j)"
  using assms
  by (auto simp: write_timestamps_def res byte_ops nth_put32)

lemma timestamp_loop_frame:
  assumes "timestamp_loop off bs pos e = Some (Inr (ok, bs'))"
  shows "length bs' = length bs \<and> (\<forall>j\<le>pos. bs' ! j = bs ! j)"
proof -
  have "\<forall>ok bs'. r = Inr (ok, bs') \<longrightarrow> length bs' = length bs \<and> (\<forall>j\<le>pos. bs' ! j = bs ! j)"
    if "timestamp_loop off bs pos e = Some r" for r
  proof (rule timestamp_loop.raw_induct [OF _ that], goal_cases)
    case (1 loop off bs pos e r)
    have "length bs' = length bs \<and> (\<forall>j\<le>pos. bs' ! j = bs ! j)"
      if "loop off bs pos' e = Some (Inr (ok, bs'))" "pos \<le> pos'" for pos' ok bs'
      using 1(1) [OF that(1)] that(2) by auto
    with 1(2) show ?case
      by (auto split: if_splits sum.splits dest: write_timestamps_frame)
  qed
  with assms show ?thesis by blast
qed

lemma timestamp_val_offset_frame:
  assumes "timestamp_val_offset p off = Inr (ok, q)" "wf_packet p"
  shows "wf_packet q" "seq_of q = seq_of p" "length (packet_bytes q) = length (packet_bytes p)"
    "transport_offset q = transport_offset p" "payload_offset q = payload_offset p"
    "action_packet_id q = action_packet_id p" "action_action q = action_action p"
    "is_fake_blob q = is_fake_blob p"
proof -
  note D = wf_packetD [OF assms(2)]
  consider "q = p" | doff bs where "q = p\<lparr>packet_bytes := bs\<rparr>"
      "timestamp_loop off (packet_bytes p) (transport_offset p + sizeof_tcphdr) doff = Some (Inr (ok, bs))"
    using assms(1) by (auto simp: timestamp_val_offset_def res split: if_splits option.splits sum.splits)
  then have "wf_packet q \<and> seq_of q = seq_of p \<and> length (packet_bytes q) = length (packet_bytes p)
    \<and> transport_offset q = transport_offset p \<and> payload_offset q = payload_offset p
    \<and> action_packet_id q = action_packet_id p \<and> action_action q = action_action p
    \<and> is_fake_blob q = is_fake_blob p"
  proof cases
    case 2
    note F = timestamp_loop_frame [OF 2(2)]
    have same: "bs ! j = packet_bytes p ! j" if "j \<le> transport_offset p + 20" for j
      using F that by (simp add: sizeof_tcphdr_def)
    have "wf_packet q"
      unfolding 2(1) using assms(2) F D by (intro wf_packet_update) (simp_all add: same)
    moreover have "seq_of q = seq_of p" by (simp add: 2(1) seq_of_def get32_def same)
    ultimately show ?thesis using 2(1) F by simp
  qed (use assms in simp)
  then show "wf_packet q" "seq_of q = seq_of p" "length (packet_bytes q) = length (packet_bytes p)"
    "transport_offset q = transport_offset p" "payload_offset q = payload_offset p"
    "action_packet_id q = action_packet_id p" "action_action q = action_action p"
    "is_fake_blob q = is_fake_blob p" by simp_all
qed

interpretation ttl: header_pass "ipv4_ttl P ttl" for P ttl
  unfolding ipv4_ttl_def by (intro header_map_view) (auto simp: res wf_run same_role_def)

interpretation timestamp: header_pass "timestamp_offset P off" for P off
proof -
  have "same_role p q"
    if "wf_packet p" "and_then (timestamp_val_offset p off) (\<lambda>(ok, p'). calc_packet_checksum p') = Inr q"
    for p q
  proof -
    from that(2) obtain ok p' where t: "timestamp_val_offset p off = Inr (ok, p')"
      and c: "calc_packet_checksum p' = Inr q" by (auto simp: res)
    note F = timestamp_val_offset_frame [OF t that(1)]
    then have "q = with_checksum p'" using c wf_calc_packet_checksum [of p'] by simp
    then show ?thesis using F by (simp add: same_role_def)
  qed
  then show "header_pass (timestamp_offset P off)"
    unfolding timestamp_offset_def by (intro header_map_view) blast
qed

lemma sequence_step:
  assumes "wf_packet p"
  shows "and_then (tcp_seq (packet_bytes p) (transport_offset p)) (\<lambda>seq.
      and_then (add_int (ntohl seq) off) (\<lambda>v.
      and_then (store32 (packet_bytes p) (transport_offset p + 4) (htonl v)) (\<lambda>bs.
      calc_packet_checksum (p\<lparr>packet_bytes := bs\<rparr>))))
    = and_then (add_int (seq_of p) off) (\<lambda>v. Inr (with_checksum (put_seq p v)))"
proof (cases "add_int (seq_of p) off")
  case (Inr v)
  then show ?thesis
    by (simp add: wf_load_seq [OF assms] wf_stores(1) [OF assms] wf_calc_packet_checksum
        wf_put(1) [OF assms])
qed (simp add: wf_load_seq [OF assms])

interpretation sequence: header_pass "sequence_offset P off" for P off
  unfolding sequence_offset_def
  by (intro header_map_view) (auto simp: sequence_step res same_role_def)

lemma spoil_checksum_wf:
  "wf_packet p \<Longrightarrow> spoil_checksum r p = Inr (put_check p (ucast (htonl (r mod 256))))"
  by (simp add: spoil_checksum_def wf_run store_check_again)

lemma spoil_pointwise:
  assumes "map_r (\<lambda>(i, packet). if P packet then spoil_checksum (rnd i) packet else Inr packet)
      (enumerate n ps) = Inr qs" "list_all wf_packet ps"
  shows "list_all2 same_role ps qs"
  using assms
proof (induction ps arbitrary: n qs)
  case (Cons p ps)
  then show ?case by (auto simp: res spoil_checksum_wf same_role_def split: if_splits)
qed simp

interpretation spoiling: header_pass "badchecksum P rnd proto" for P rnd proto
proof
  show "list_all2 same_role ps qs" if "badchecksum P rnd proto ps = Inr qs" "list_all wf_packet ps" for ps qs
  proof (cases "proto = IPPROTO_TCP")
    case True
    with that show ?thesis by (intro spoil_pointwise) (simp_all add: badchecksum_def)
  next
    case False
    with that show ?thesis by (auto simp: badchecksum_def list_all2_same list_all_iff same_role_def)
  qed
qed

section \<open>TCP options\<close>

text \<open>Options as the sender writes them: padding, the timestamp option and any other.\<close>

datatype tcp_option = No_operation | Timestamps u32 u32 | Other_option byte "byte list"

definition be32 :: "u32 \<Rightarrow> byte list" where
  "be32 w = [byte_of 3 w, byte_of 2 w, byte_of 1 w, byte_of 0 w]"

fun opt_bytes :: "tcp_option \<Rightarrow> byte list" where
  "opt_bytes No_operation = [1]"
| "opt_bytes (Timestamps tval tresp) = [8, 10] @ be32 tval @ be32 tresp"
| "opt_bytes (Other_option kind data) = [kind, word_of_nat (length data + 2)] @ data"

fun plain_option :: "tcp_option \<Rightarrow> bool" where
  "plain_option No_operation = True"
| "plain_option (Timestamps tval tresp) = False"
| "plain_option (Other_option kind data) = (kind \<noteq> 1 \<and> kind \<noteq> 8 \<and> length data \<le> 253)"

lemma length_be32 [simp]: "length (be32 w) = 4"
  by (simp add: be32_def)

lemma get32_be32: "get32 (xs @ be32 w @ ys) (length xs) = htonl w"
  by (simp add: get32_def be32_def nth_append htonl_def)

lemma byte_of_htonl [simp]:
  "byte_of 0 (htonl w) = byte_of 3 w" "byte_of 1 (htonl w) = byte_of 2 w"
  "byte_of (Suc 0) (htonl w) = byte_of 2 w"
  "byte_of 2 (htonl w) = byte_of 1 w" "byte_of 3 (htonl w) = byte_of 0 w"
  by (simp_all add: htonl_def)

lemma put32_be32: "put32 (xs @ be32 v @ ys) (length xs) (htonl w) = xs @ be32 w @ ys"
  by (simp add: put32_def be32_def list_update_append)

lemma write_timestamps_bytes:
  assumes "add_int a off = Inr a'" "add_int b off = Inr b'"
  shows "write_timestamps off (xs @ opt_bytes (Timestamps a b) @ ys) (length xs) =
    Inr (True, xs @ opt_bytes (Timestamps a' b') @ ys)"
proof -
  let ?bs = "\<lambda>u v. xs @ 8 # 10 # be32 u @ be32 v @ ys"
  have l: "length (xs @ [8, 10] :: byte list) = length xs + 2"
    "length (xs @ [8, 10] @ be32 u) = length xs + 6" for u by simp_all
  have g: "get32 (?bs u v) (length xs + 2) = htonl u" "get32 (?bs u v) (length xs + 6) = htonl v" for u v
    using get32_be32 [of "xs @ [8, 10]" u "be32 v @ ys", unfolded l]
      get32_be32 [of "xs @ [8, 10] @ be32 u" v ys, unfolded l]
    by (simp_all only: append_assoc append_Cons append_Nil)
  have p: "put32 (?bs u v) (length xs + 2) (htonl w) = ?bs w v"
    "put32 (?bs u v) (length xs + 6) (htonl w) = ?bs u w" for u v w
    using put32_be32 [of "xs @ [8, 10]" u "be32 v @ ys" w, unfolded l]
      put32_be32 [of "xs @ [8, 10] @ be32 u" v ys w, unfolded l]
    by (simp_all only: append_assoc append_Cons append_Nil)
  show ?thesis
    using assms by (simp add: write_timestamps_def load32_def store32_def g p)
qed

lemma timestamp_loop_skip:
  assumes "list_all plain_option opts"
    and "length xs + length (concat (map opt_bytes opts)) < e"
  shows "timestamp_loop off (xs @ concat (map opt_bytes opts) @ ys) (length xs) e =
    timestamp_loop off (xs @ concat (map opt_bytes opts) @ ys)
      (length xs + length (concat (map opt_bytes opts))) e"
  using assms
proof (induction opts arbitrary: xs)
  case (Cons opt opts)
  let ?bs = "xs @ concat (map opt_bytes (opt # opts)) @ ys"
  have "timestamp_loop off ?bs (length xs) e = timestamp_loop off ?bs (length (xs @ opt_bytes opt)) e"
  proof (cases opt)
    case No_operation
    have "load8 ?bs (length xs) = Inr 1" using No_operation by (simp add: load8_def get8_def nth_append)
    moreover have "\<not> e \<le> length xs" "\<not> e - length xs < 2"
      using Cons.prems(2) No_operation by auto
    ultimately show ?thesis
      using timestamp_loop.simps [of off ?bs "length xs" e] No_operation by simp
  next
    case (Other_option kind data)
    moreover have "unat (word_of_nat (length data + 2) :: byte) = length data + 2"
      using Cons.prems Other_option by (intro unat_of_nat_small) simp
    moreover have "load8 ?bs (length xs) = Inr kind"
        "load8 ?bs (length xs + 1) = Inr (word_of_nat (length data + 2))"
      using Other_option by (simp_all add: load8_def get8_def nth_append)
    moreover have "\<not> e \<le> length xs" "\<not> e - length xs < 2" "\<not> e - length xs < length data + 2"
        "kind \<noteq> 1" "kind \<noteq> 8"
      using Cons.prems Other_option by auto
    moreover have "length (xs @ opt_bytes opt) = length xs + (length data + 2)"
      using Other_option by simp
    ultimately show ?thesis
      using timestamp_loop.simps [of off ?bs "length xs" e]
      by (simp del: of_nat_add length_append)
  qed (use Cons.prems in simp)
  also have "\<dots> = timestamp_loop off ?bs (length xs + length (concat (map opt_bytes (opt # opts)))) e"
    using Cons.IH [of "xs @ opt_bytes opt"] Cons.prems by (simp add: add.assoc)
  finally show ?case .
qed simp

lemma timestamp_loop_here:
  assumes "add_int a off = Inr a'" "add_int b off = Inr b'" "length xs + 10 \<le> e"
  shows "timestamp_loop off (xs @ opt_bytes (Timestamps a b) @ ys) (length xs) e =
    Some (Inr (True, xs @ opt_bytes (Timestamps a' b') @ ys))"
proof -
  have "timestamp_loop off (xs @ opt_bytes (Timestamps a b) @ ys) (length xs) e =
      Some (write_timestamps off (xs @ opt_bytes (Timestamps a b) @ ys) (length xs))"
    using assms(3) by (subst timestamp_loop.simps) (auto simp: load8_def get8_def nth_append)
  then show ?thesis by (simp only: write_timestamps_bytes [OF assms(1,2)])
qed

lemma timestamp_loop_found:
  assumes "list_all plain_option opts" "add_int a off = Inr a'" "add_int b off = Inr b'"
    and "length xs + length (concat (map opt_bytes opts)) + 10 \<le> e"
  shows "timestamp_loop off (xs @ concat (map opt_bytes opts) @ opt_bytes (Timestamps a b) @ ys) (length xs) e =
    Some (Inr (True, xs @ concat (map opt_bytes opts) @ opt_bytes (Timestamps a' b') @ ys))"
  using timestamp_loop_skip [OF assms(1), of xs e off "opt_bytes (Timestamps a b) @ ys"] assms(4)
    timestamp_loop_here [OF assms(2,3), of "xs @ concat (map opt_bytes opts)" e ys]
  by simp

lemma timestamp_loop_stuck:
  assumes "kind \<noteq> 1" "kind \<noteq> 8" "pos + 2 \<le> e" "pos + 2 \<le> length bs" "bs ! pos = kind" "bs ! (pos + 1) = 0"
  shows "timestamp_loop off bs pos e = None"
proof (rule ccontr)
  assume "timestamp_loop off bs pos e \<noteq> None"
  then obtain r where r: "timestamp_loop off bs pos e = Some r" by auto
  have "pos + 2 \<le> e \<and> pos + 2 \<le> length bs \<and> bs ! pos = kind \<and> bs ! (pos + 1) = 0 \<longrightarrow> False"
  proof (rule timestamp_loop.raw_induct [OF _ r], goal_cases)
    case (1 loop off bs pos e r)
    show ?case
      using 1(2) assms(1,2) by (auto simp: load8_def get8_def dest: 1(1) split: if_splits)
  qed
  with assms show False by simp
qed

text \<open>The option bytes of a packet's TCP header, and its fixed headers.\<close>

definition options_of :: "packet \<Rightarrow> byte list" where
  "options_of p = drop (transport_offset p + 20) (headers_of p)"

definition fixed_headers_of :: "packet \<Rightarrow> byte list" where
  "fixed_headers_of p = take (transport_offset p + 20) (packet_bytes p)"

lemma packet_bytes_parts:
  assumes "wf_packet p"
  shows "packet_bytes p = fixed_headers_of p @ options_of p @ payload_of p"
    "length (fixed_headers_of p) = transport_offset p + 20"
    "length (options_of p) = payload_offset p - (transport_offset p + 20)"
proof -
  note D = wf_packetD [OF assms]
  have "headers_of p = fixed_headers_of p @ options_of p"
    using D by (metis append_take_drop_id fixed_headers_of_def headers_of_def min.absorb1 options_of_def take_take)
  then show "packet_bytes p = fixed_headers_of p @ options_of p @ payload_of p"
    using headers_payload [of p] by simp
  show "length (fixed_headers_of p) = transport_offset p + 20"
    "length (options_of p) = payload_offset p - (transport_offset p + 20)"
    using D assms by (simp_all add: fixed_headers_of_def options_of_def)
qed

lemma timestamp_val_offset_run:
  assumes "wf_packet p" "options_of p \<noteq> []"
  shows "timestamp_val_offset p off =
    (case timestamp_loop off (packet_bytes p) (length (fixed_headers_of p))
            (length (fixed_headers_of p) + length (options_of p)) of
       None \<Rightarrow> Inl Diverges
     | Some r \<Rightarrow> and_then r (\<lambda>(ok, bs). Inr (ok, p\<lparr>packet_bytes := bs\<rparr>)))"
proof -
  note D = wf_packetD [OF assms(1)] and P = packet_bytes_parts [OF assms(1)]
  let ?doff = "high_nibble (packet_bytes p ! (transport_offset p + 12))"
  have "0 < length (options_of p)" using assms(2) by simp
  then have "\<not> ?doff * 4 \<le> sizeof_tcphdr"
      "transport_offset p + ?doff * 4 = length (fixed_headers_of p) + length (options_of p)"
      "transport_offset p + sizeof_tcphdr = length (fixed_headers_of p)"
    using D(4,9) unfolding P(2,3) by (simp_all add: sizeof_tcphdr_def)
  then show ?thesis
    by (simp add: timestamp_val_offset_def wf_doff [OF assms(1)])
qed

section \<open>Segments\<close>

function chunks :: "nat \<Rightarrow> 'a list \<Rightarrow> 'a list list" where
  "chunks n xs = (if xs = [] \<or> n = 0 then [] else take n xs # chunks n (drop n xs))"
  by pat_completeness auto

termination chunks
  by (relation "measure (\<lambda>(_, xs). length xs)") auto

declare chunks.simps [simp del]

lemma chunks_concat: "0 < n \<Longrightarrow> concat (chunks n xs) = xs"
  by (induction n xs rule: chunks.induct) (subst chunks.simps, simp)

lemma chunks_bounds:
  assumes "c \<in> set (chunks n xs)"
  shows "c \<noteq> []" "length c \<le> n"
  using assms
  by (induction n xs rule: chunks.induct) (subst (asm) (2) chunks.simps, auto split: if_splits)+

lemma chunks_empty [simp]: "chunks n xs = [] \<longleftrightarrow> xs = [] \<or> n = 0"
  by (subst chunks.simps) simp

definition segment_packet :: "packet \<Rightarrow> byte list \<Rightarrow> u32 \<Rightarrow> packet" where
  "segment_packet p pl s =
     with_checksum (put_seq ((rebuild p pl)\<lparr>is_fake_blob := is_fake_blob p, action_action := SEND,
       action_packet_id := 0\<rparr>) s)"

lemma segment_packet_fields [simp]:
  assumes "wf_packet p"
  shows "wf_packet (segment_packet p pl s)" "payload_of (segment_packet p pl s) = pl"
    "seq_of (segment_packet p pl s) = s" "action_packet_id (segment_packet p pl s) = 0"
    "action_action (segment_packet p pl s) = SEND" "is_fake_blob (segment_packet p pl s) = is_fake_blob p"
  using assms by (simp_all add: segment_packet_def)

fun number_segments :: "packet \<Rightarrow> u32 \<Rightarrow> byte list list \<Rightarrow> packet list" where
  "number_segments p s [] = []"
| "number_segments p s (c # cs) = segment_packet p c s # number_segments p (s + word_of_nat (length c)) cs"

lemma segment_loop_spec:
  assumes "wf_packet p" "0 < mss"
  shows "segment_loop (view_of p) p mss pl s = Inr (number_segments p s (chunks mss pl))"
proof (induction "length pl" arbitrary: pl s rule: less_induct)
  case less
  show ?case
  proof (cases "pl = []")
    case True
    then show ?thesis by (simp add: segment_loop.simps [of _ _ _ "[]"] chunks.simps [of mss "[]"])
  next
    case False
    let ?n = "min (length pl) mss"
    let ?q = "(rebuild p (take ?n pl))\<lparr>is_fake_blob := is_fake_blob p, action_action := SEND, action_packet_id := 0\<rparr>"
    have w: "wf_packet ?q" using assms(1) by simp
    have "and_then (store32 (packet_bytes ?q) (transport_offset ?q + 4) (htonl s)) (\<lambda>bs.
        calc_packet_checksum (?q\<lparr>packet_bytes := bs\<rparr>)) = Inr (segment_packet p (take ?n pl) s)"
      unfolding wf_stores(1) [OF w] and_then_simps put_bytes
      by (simp only: wf_calc_packet_checksum [OF wf_put(1) [OF w]] segment_packet_def)
    moreover have "segment_loop (view_of p) p mss (drop ?n pl) (s + word_of_nat ?n) =
        Inr (number_segments p (s + word_of_nat ?n) (chunks mss (drop ?n pl)))"
      using False assms(2) by (intro less) (simp add: min_def)
    moreover have "take ?n pl = take mss pl" "drop ?n pl = drop mss pl" "length (take mss pl) = ?n"
      by (simp_all add: min_def)
    ultimately show ?thesis
      using False assms(2)
      by (simp add: segment_loop.simps [of _ _ _ pl] chunks.simps [of mss pl]
          create_packet_from_view_of [OF assms(1)] Let_def and_then_assoc [symmetric])
  qed
qed

lemma number_segments_wf [simp]:
  assumes "wf_packet p"
  shows "list_all wf_packet (number_segments p s cs)" "map payload_of (number_segments p s cs) = cs"
    "verdicts (number_segments p s cs) = []"
    "list_all (\<lambda>q. is_fake_blob q = is_fake_blob p) (number_segments p s cs)"
  using assms by (induction cs arbitrary: s) (simp_all add: owes_verdict_def)

lemma number_segments_length [simp]: "length (number_segments p s cs) = length cs"
  by (induction cs arbitrary: s) simp_all

lemma number_segments_seq:
  assumes "wf_packet p" "i < length cs"
  shows "seq_of (number_segments p s cs ! i) = s + word_of_nat (length (concat (take i cs)))"
  using assms(2)
proof (induction cs arbitrary: s i)
  case (Cons c cs)
  then show ?case using assms(1) by (cases i) simp_all
qed simp

text \<open>The segments as \<open>segmentize\<close> returns them: the first one answers for the original packet.\<close>

fun answer_for :: "packet \<Rightarrow> packet list \<Rightarrow> packet list" where
  "answer_for orig [] = []"
| "answer_for orig (front # rest) =
     (if action_action orig = SEND then front\<lparr>action_action := SEND\<rparr> # rest
      else front\<lparr>action_action := DROP_AND_SEND, action_packet_id := action_packet_id orig\<rparr> # rest)"

lemma segmentize_spec:
  assumes "wf_packet p" "0 < mss" "pl \<noteq> []"
  shows "segmentize pl mss p s = Inr (answer_for p (number_segments p s (chunks mss pl)))"
proof -
  have "number_segments p s (chunks mss pl) \<noteq> []"
    using assms by (metis chunks_empty length_0_conv neq0_conv number_segments_length)
  then show ?thesis
    using assms
    by (cases "number_segments p s (chunks mss pl)")
      (simp_all add: segmentize_def wf_parse segment_loop_spec)
qed

lemma answer_for_simps [simp]:
  "map payload_of (answer_for p ps) = map payload_of ps" "map seq_of (answer_for p ps) = map seq_of ps"
  "map is_fake_blob (answer_for p ps) = map is_fake_blob ps"
  "list_all wf_packet (answer_for p ps) = list_all wf_packet ps" "length (answer_for p ps) = length ps"
  "answer_for p ps = [] \<longleftrightarrow> ps = []"
  by (induction p ps rule: answer_for.induct) simp_all

lemma verdicts_answer_for:
  assumes "verdicts ps = []" "ps \<noteq> []"
  shows "verdicts (answer_for p ps) = verdicts [p]"
  using assms by (cases ps) (auto simp: owes_verdict_def split: if_splits)

section \<open>Properties\<close>

text \<open>C8. Cutting a payload into segments gives well-formed packets whose payloads are non-empty, at
  most the segment size long and concatenate to the payload; the sequence number of each is the
  start plus the number of bytes before it, modulo 2 to the 32; and the verdict the original packet
  owes is owed by the first segment and by no other.\<close>

theorem segmentize_correct:
  assumes "wf_packet p" "0 < mss" "pl \<noteq> []"
  shows "\<exists>ps. segmentize pl mss p s = Inr ps \<and> list_all wf_packet ps
    \<and> concat (map payload_of ps) = pl
    \<and> (\<forall>c\<in>set (map payload_of ps). c \<noteq> [] \<and> length c \<le> mss)
    \<and> (\<forall>i<length ps. seq_of (ps ! i) = s + word_of_nat (length (concat (take i (map payload_of ps)))))
    \<and> verdicts ps = verdicts [p] \<and> verdicts (tl ps) = []"
proof -
  let ?ns = "number_segments p s (chunks mss pl)"
  have "seq_of (answer_for p ?ns ! i) = seq_of (?ns ! i)" if "i < length ?ns" for i
    using that by (metis answer_for_simps(2,5) nth_map)
  then have "seq_of (answer_for p ?ns ! i) = s + word_of_nat (length (concat (take i (chunks mss pl))))"
    if "i < length (chunks mss pl)" for i
    using that number_segments_seq [OF assms(1) that] by simp
  moreover have "?ns \<noteq> []"
    using assms by (metis chunks_empty length_0_conv neq0_conv number_segments_length)
  moreover have "verdicts (tl (answer_for p ?ns)) = []"
    using number_segments_wf(3) [OF assms(1), of s "chunks mss pl"]
    by (cases ?ns) (simp_all del: number_segments_wf split: if_splits)
  ultimately show ?thesis
    using assms chunks_bounds [of _ mss pl]
    by (intro exI [of _ "answer_for p ?ns"])
      (simp add: segmentize_spec chunks_concat verdicts_answer_for)
qed

lemma segmentize_correct_witness:
  "\<exists>ps. segmentize [1, 2, 3, 4, 5] 2 (packet_of sample_bytes 7) 1000 = Inr ps
     \<and> concat (map payload_of ps) = [1, 2, 3, 4, 5] \<and> verdicts ps = [7]"
  using segmentize_correct [of "packet_of sample_bytes 7" 2 "[1, 2, 3, 4, 5]" 1000]
  by (auto simp: sample_layout owes_verdict_def)

text \<open>C32. When the TCP options of a packet are padding and options other than the timestamp up to a
  timestamp option, shifting by an offset that overflows neither value replaces exactly those two
  values; every other option, the fixed headers and the payload are kept.\<close>

theorem timestamp_shift:
  assumes "wf_packet p" "options_of p = concat (map opt_bytes (pre @ Timestamps a b # post))"
    and "list_all plain_option pre" "add_int a off = Inr a'" "add_int b off = Inr b'"
  shows "\<exists>q. timestamp_val_offset p off = Inr (True, q) \<and> wf_packet q
    \<and> options_of q = concat (map opt_bytes (pre @ Timestamps a' b' # post))
    \<and> fixed_headers_of q = fixed_headers_of p \<and> payload_of q = payload_of p"
proof -
  note P = packet_bytes_parts [OF assms(1)]
  let ?post = "concat (map opt_bytes post) @ payload_of p"
  let ?bs = "\<lambda>u v. fixed_headers_of p @ concat (map opt_bytes pre) @ opt_bytes (Timestamps u v) @ ?post"
  have bs: "packet_bytes p = ?bs a b" using P(1) assms(2) by simp
  have len: "length (options_of p) = length (concat (map opt_bytes pre)) + 10 + length (concat (map opt_bytes post))"
    using assms(2) by simp
  have "timestamp_loop off (?bs a b) (length (fixed_headers_of p))
      (length (fixed_headers_of p) + length (options_of p)) = Some (Inr (True, ?bs a' b'))"
    using assms(3-5) by (rule timestamp_loop_found) (simp add: len)
  moreover have ne: "options_of p \<noteq> []" using len by auto
  ultimately have run: "timestamp_val_offset p off = Inr (True, p\<lparr>packet_bytes := ?bs a' b'\<rparr>)"
    unfolding timestamp_val_offset_run [OF assms(1) ne] bs
    by (simp only: option.case and_then_simps prod.case)
  let ?q = "p\<lparr>packet_bytes := ?bs a' b'\<rparr>"
  define opts' where "opts' = concat (map opt_bytes (pre @ Timestamps a' b' # post))"
  have q: "packet_bytes ?q = fixed_headers_of p @ opts' @ payload_of p" by (simp add: opts'_def)
  have "length opts' = length (options_of p)" by (simp add: opts'_def len)
  then have pay: "payload_offset ?q = length (fixed_headers_of p) + length opts'"
    using P(2,3) wf_packetD(4) [OF assms(1)] by simp
  have off: "transport_offset ?q + 20 = length (fixed_headers_of p)" using P(2) by simp
  have "options_of ?q = opts'" unfolding options_of_def headers_of_def pay off q by simp
  moreover have "fixed_headers_of ?q = fixed_headers_of p"
    unfolding fixed_headers_of_def [of ?q] off q by simp
  moreover have "payload_of ?q = payload_of p"
    unfolding payload_of_def [of ?q] pay q by simp
  moreover have "wf_packet ?q" using timestamp_val_offset_frame(1) [OF run assms(1)] .
  ultimately show ?thesis using run opts'_def by blast
qed

text \<open>C40. An option whose length byte is zero, after any number of well-formed options and before a
  timestamp, makes the search run forever.\<close>

theorem timestamp_divergence:
  assumes "wf_packet p" "options_of p = concat (map opt_bytes pre) @ [kind, 0] @ rest"
    and "list_all plain_option pre" "kind \<noteq> 1" "kind \<noteq> 8"
  shows "timestamp_val_offset p off = Inl Diverges"
proof -
  note P = packet_bytes_parts [OF assms(1)]
  let ?pos = "length (fixed_headers_of p) + length (concat (map opt_bytes pre))"
  let ?e = "length (fixed_headers_of p) + length (options_of p)"
  have bs: "packet_bytes p = fixed_headers_of p @ concat (map opt_bytes pre) @ [kind, 0] @ rest @ payload_of p"
    using P(1) assms(2) by simp
  have "packet_bytes p ! ?pos = kind" "packet_bytes p ! (?pos + 1) = 0" "?pos + 2 \<le> length (packet_bytes p)"
    unfolding bs by (simp_all add: nth_append)
  moreover have "?pos + 2 \<le> ?e" using assms(2) by simp
  ultimately have "timestamp_loop off (packet_bytes p) ?pos ?e = None"
    using assms(4,5) by (intro timestamp_loop_stuck [of kind])
  moreover have "timestamp_loop off (packet_bytes p) (length (fixed_headers_of p)) ?e =
      timestamp_loop off (packet_bytes p) ?pos ?e"
    unfolding bs using assms(2,3) by (intro timestamp_loop_skip) simp_all
  moreover have "options_of p \<noteq> []" using assms(2) by simp
  ultimately show ?thesis by (simp add: timestamp_val_offset_run [OF assms(1)])
qed

text \<open>The spoiled checksum is never random: whatever \<open>rand()\<close> returns, the checksum field of
  every selected packet becomes zero, and nothing else changes.\<close>

theorem badchecksum_always_zero:
  assumes "list_all wf_packet ps"
  shows "badchecksum P rand_at IPPROTO_TCP ps = Inr (map (\<lambda>p. if P p then put_check p 0 else p) ps)"
proof -
  have "ucast (htonl (r mod 256)) = (0 :: u16)" for r :: u32
  proof -
    have r: "r mod 256 = take_bit 8 r" by (simp add: take_bit_eq_mod)
    show ?thesis
      unfolding r
      by (rule bit_word_eqI) (auto simp: bit_ucast_iff htonl_def bit_le32 bit_byte_of bit_take_bit_iff)
  qed
  then have "map_r (\<lambda>(i, p). if P p then spoil_checksum (rand_at i) p else Inr p) (enumerate n ps) =
      Inr (map (\<lambda>p. if P p then put_check p 0 else p) ps)" for n
    using assms by (induction ps arbitrary: n) (simp_all add: spoil_checksum_wf)
  then show ?thesis by (simp add: badchecksum_def)
qed

text \<open>A packet with twelve option bytes, for concrete runs.\<close>

definition sample_with :: "byte list \<Rightarrow> packet" where
  "sample_with opts = packet_of ((take 40 sample_bytes)[32 := 0x80] @ opts @ [1, 2, 3, 4]) 7"

definition shift_options :: "byte list" where
  "shift_options = [1, 1, 8, 10, 0, 0, 0, 5, 0, 0, 0, 6]"

definition stuck_options :: "byte list" where
  "stuck_options = [1, 0, 0, 1, 8, 10, 0, 0, 0, 5, 0, 0]"

lemma sample_options:
  "wf_packet (sample_with shift_options)" "options_of (sample_with shift_options) = shift_options"
  "wf_packet (sample_with stuck_options)" "options_of (sample_with stuck_options) = stuck_options"
  by code_simp+

lemma timestamp_shift_witness:
  "\<exists>q. timestamp_val_offset (sample_with shift_options) 3 = Inr (True, q)
     \<and> options_of q = [1, 1, 8, 10, 0, 0, 0, 8, 0, 0, 0, 9]"
proof -
  have bytes: "opt_bytes (Timestamps 5 6) = [8, 10, 0, 0, 0, 5, 0, 0, 0, 6]"
    "opt_bytes (Timestamps 8 9) = [8, 10, 0, 0, 0, 8, 0, 0, 0, 9]" by code_simp+
  then have "shift_options = concat (map opt_bytes ([No_operation, No_operation] @ Timestamps 5 6 # []))"
    by (simp add: shift_options_def)
  moreover have "add_int 5 3 = Inr 8" "add_int 6 3 = Inr 9" by (simp_all add: add_int_def)
  ultimately show ?thesis
    using timestamp_shift [of "sample_with shift_options" "[No_operation, No_operation]" 5 6 "[]" 3 8 9]
      sample_options bytes by auto
qed

lemma timestamp_divergence_witness:
  "timestamp_val_offset (sample_with stuck_options) 3 = Inl Diverges"
proof -
  have "stuck_options = concat (map opt_bytes [No_operation]) @ [0, 0] @ [1, 8, 10, 0, 0, 0, 5, 0, 0]"
    by (simp add: stuck_options_def)
  then show ?thesis
    using timestamp_divergence [of "sample_with stuck_options" "[No_operation]" 0 "[1, 8, 10, 0, 0, 0, 5, 0, 0]"]
      sample_options by simp
qed

lemma badchecksum_always_zero_witness:
  "badchecksum (\<lambda>p. \<not> is_fake_blob p) (\<lambda>_. 200) IPPROTO_TCP sample_pair = Inr (map (\<lambda>p. put_check p 0) sample_pair)"
proof -
  have "list_all (\<lambda>p. \<not> is_fake_blob p) sample_pair" by code_simp
  then have "map (\<lambda>p. if \<not> is_fake_blob p then put_check p 0 else p) sample_pair = map (\<lambda>p. put_check p 0) sample_pair"
    by (auto simp: list_all_iff)
  then show ?thesis using badchecksum_always_zero [OF sample_pair_wf, of "\<lambda>p. \<not> is_fake_blob p" "\<lambda>_. 200"] by simp
qed

end
