(* ===== verification/Split.thy ===== *)
theory Split
  imports Common Classify Markers Args
begin

text \<open>
  Splitting, \<^verbatim>\<open>modify/algorithms/split.{hpp,cpp}\<close>: finding the packet that carries an offset
  of the stream and cutting it in two at a marker. The templates are instantiated with the vector
  of packets only, so an iterator is an index and the end iterator is the length.
\<close>

section \<open>helpers\<close>

definition do_operation :: "u64 \<Rightarrow> operation \<Rightarrow> u64 \<Rightarrow> u64" where
  "do_operation start oper off =
     (case oper of Add \<Rightarrow> start + off | Subtract \<Rightarrow> start - off | NoOp \<Rightarrow> start)"

text \<open>\<open>std::size_t\<close> compared with \<open>-1\<close>.\<close>

definition minus_one :: nat where "minus_one = unat (- 1 :: u64)"

lemma minus_one_eq: "minus_one = 2 ^ 64 - 1"
  by (simp add: minus_one_def unsigned_minus_1_eq_mask mask_eq_exp_minus_1)

fun locate_packet :: "packet list \<Rightarrow> nat list \<Rightarrow> nat \<Rightarrow> nat \<Rightarrow> (nat \<times> nat) result" where
  "locate_packet packets [] split_pos acc = Inr (length packets, 0)"
| "locate_packet packets (it # iters) split_pos acc =
     and_then (payload (packets ! it)) (\<lambda>pl.
     if split_pos < acc + length pl then Inr (it, split_pos - acc)
     else locate_packet packets iters split_pos (acc + length pl))"

text \<open>The comparator reads the headers, so a vector with fewer than two packets is not read.\<close>

definition find_packet_by_offset :: "packet list \<Rightarrow> u64 \<Rightarrow> (nat \<times> nat) result" where
  "find_packet_by_offset packets split_pos =
     and_then
       (if length packets < 2 then Inr (map (\<lambda>_. 0) packets) else map_r packet_seq packets) (\<lambda>seqs.
     and_then (sort_by (\<lambda>lhs rhs. seq_lt (seqs ! lhs) (seqs ! rhs)) [0 ..< length packets]) (\<lambda>iters.
     locate_packet packets iters (unat split_pos) 0))"

definition split_second_packet :: "packet \<Rightarrow> packet_view \<Rightarrow> byte list \<Rightarrow> nat \<Rightarrow> packet result" where
  "split_second_packet pkt view part2 rel =
     and_then (create_packet_from view part2) (\<lambda>res.
     let second = res\<lparr>is_fake_blob := is_fake_blob pkt, action_action := SEND, action_packet_id := 0\<rparr> in
     and_then (tcp_seq (packet_bytes second) (transport_offset second)) (\<lambda>seq.
     and_then (store32 (packet_bytes second) (transport_offset second + 4)
                 (htonl (ntohl seq + word_of_nat rel))) (\<lambda>bs.
     calc_packet_checksum (second\<lparr>packet_bytes := bs\<rparr>))))"

text \<open>ACCEPT becomes DROP_AND_SEND, the other actions stay.\<close>

definition sent_action :: "packet_action \<Rightarrow> packet_action" where
  "sent_action a = (if a = ACCEPT then DROP_AND_SEND else a)"

definition split_first_packet :: "packet \<Rightarrow> nat \<Rightarrow> packet result" where
  "split_first_packet pkt part2_size =
     (let bs = resize_bytes (packet_bytes pkt) (length (packet_bytes pkt) - part2_size);
          first = pkt\<lparr>packet_bytes := bs,
            action_action := sent_action (action_action pkt)\<rparr> in
      and_then (ip_ihl bs (network_offset first)) (\<lambda>ihl.
      and_then (tcp_doff bs (transport_offset first)) (\<lambda>doff.
      and_then (payload first) (\<lambda>pl.
      and_then (store16 bs (network_offset first + 2)
                 (htons (word_of_nat (ihl * 4 + doff * 4 + unat (word_of_nat (length pl) :: u16))))) (\<lambda>bs'.
      calc_packet_checksum (first\<lparr>packet_bytes := bs'\<rparr>))))))"

definition split_and_insert_packets_tcp :: "nat \<Rightarrow> nat \<Rightarrow> packet list \<Rightarrow> packet list result" where
  "split_and_insert_packets_tcp it rel packets =
     (if length packets \<le> it then Inl Invalid_iterator
      else
        let pkt = packets ! it in
        and_then (parse_packet_view_of pkt) (\<lambda>pkt_view.
        and_then (payload pkt) (\<lambda>pkt_payload.
        and_then (subspan_r pkt_payload rel) (\<lambda>part2.
        and_then (split_second_packet pkt pkt_view part2 rel) (\<lambda>second.
        and_then (split_first_packet pkt (length part2)) (\<lambda>first.
        Inr (take it packets @ first # second # drop (it + 1) packets)))))))"

section \<open>split\<close>

type_synonym split_result = "(bool expected \<times> packet list) result"

definition could_not_find :: "string \<Rightarrow> string" where
  "could_not_find name = ''Could not find '' @ [CHR 0x27] @ name @ [CHR 0x27]"

text \<open>The common tail of \<open>split_http\<close> and \<open>split_tls\<close>.\<close>

definition split_at_offset :: "packet list \<Rightarrow> u64 \<Rightarrow> split_result" where
  "split_at_offset packets split_pos =
     and_then (find_packet_by_offset packets split_pos) (\<lambda>(it, rel).
     if rel = minus_one then Inr (Inr True, packets)
     else and_then (split_and_insert_packets_tcp it rel packets) (\<lambda>packets'. Inr (Inr True, packets')))"

definition marker_split :: "packet list \<Rightarrow> position \<Rightarrow> string \<Rightarrow> nat option \<Rightarrow> split_result" where
  "marker_split packets pos name mark =
     (case mark of
        None \<Rightarrow> Inr (Inl (could_not_find name), packets)
      | Some m \<Rightarrow> split_at_offset packets (do_operation (word_of_nat m) (operation pos) (offset pos)))"

definition split_http :: "packet list \<Rightarrow> position \<Rightarrow> markers \<Rightarrow> split_result" where
  "split_http packets pos marks =
     (if arg pos = HOSTSTART_STR then marker_split packets pos HOSTSTART_STR (hoststart marks)
      else if arg pos = HOSTEND_STR then marker_split packets pos HOSTEND_STR (hostend marks)
      else if arg pos = HOSTMID_STR then marker_split packets pos HOSTMID_STR (hostmid marks)
      else split_at_offset packets (offset pos))"

definition split_tls :: "packet list \<Rightarrow> position \<Rightarrow> markers \<Rightarrow> split_result" where
  "split_tls packets pos marks =
     (if arg pos = HOSTSTART_STR then marker_split packets pos HOSTSTART_STR (hoststart marks)
      else if arg pos = HOSTEND_STR then marker_split packets pos HOSTEND_STR (hostend marks)
      else if arg pos = HOSTMID_STR then marker_split packets pos HOSTMID_STR (hostmid marks)
      else if arg pos = SNIEXT_STR then marker_split packets pos SNIEXT_STR (sniext marks)
      else split_at_offset packets (offset pos))"

definition split_other :: "packet list \<Rightarrow> position \<Rightarrow> split_result" where
  "split_other packets pos =
     and_then (find_packet_by_offset packets (offset pos)) (\<lambda>(it, rel).
     if it = length packets then Inr (Inr False, packets)
     else if rel = minus_one then Inr (Inr True, packets)
     else
       and_then (packet_protocol (hd packets)) (\<lambda>proto.
       if proto = IPPROTO_TCP then
         and_then (split_and_insert_packets_tcp it rel packets) (\<lambda>packets'. Inr (Inr True, packets'))
       else
         Inr (Inl ''Wasn't able to split packets because other protocols besides TCP are not supported'',
              packets)))"

definition split :: "packet list \<Rightarrow> position \<Rightarrow> markers \<Rightarrow> l7_proto \<Rightarrow> split_result" where
  "split packets pos marks payload_proto =
     (case payload_proto of
        HTTP \<Rightarrow> split_http packets pos marks
      | TLS \<Rightarrow> split_tls packets pos marks
      | _ \<Rightarrow> split_other packets pos)"

section \<open>Cutting a well-formed packet\<close>

definition cut_first :: "packet \<Rightarrow> nat \<Rightarrow> packet" where
  "cut_first p k = with_checksum (put_tot_len (p\<lparr>packet_bytes := headers_of p @ take k (payload_of p),
     action_action := sent_action (action_action p)\<rparr>)
     (word_of_nat (payload_offset p + k)))"

definition cut_second :: "packet \<Rightarrow> nat \<Rightarrow> packet" where
  "cut_second p k = segment_packet p (drop k (payload_of p)) (seq_of p + word_of_nat k)"

lemma new_payload [simp]:
  assumes "wf_packet p"
  shows "wf_packet (p\<lparr>packet_bytes := headers_of p @ pl\<rparr>)"
    "payload_of (p\<lparr>packet_bytes := headers_of p @ pl\<rparr>) = pl"
    "seq_of (p\<lparr>packet_bytes := headers_of p @ pl\<rparr>) = seq_of p"
  using wf_packetD [OF assms] wf_headers_append [OF assms] assms
  by (simp_all add: payload_of_def seq_of_def get32_def headers_of_def nth_append min_def)

lemma cut_fields [simp]:
  assumes "wf_packet p"
  shows "wf_packet (cut_first p k)" "payload_of (cut_first p k) = take k (payload_of p)"
    "seq_of (cut_first p k) = seq_of p" "action_packet_id (cut_first p k) = action_packet_id p"
    "action_action (cut_first p k) = sent_action (action_action p)"
    "is_fake_blob (cut_first p k) = is_fake_blob p"
    "wf_packet (cut_second p k)" "payload_of (cut_second p k) = drop k (payload_of p)"
    "seq_of (cut_second p k) = seq_of p + word_of_nat k" "action_action (cut_second p k) = SEND"
    "action_packet_id (cut_second p k) = 0" "is_fake_blob (cut_second p k) = is_fake_blob p"
  using assms by (simp_all add: cut_first_def cut_second_def)

lemma split_second_run:
  assumes "wf_packet p"
  shows "split_second_packet p (view_of p) (drop k (payload_of p)) k = Inr (cut_second p k)"
proof -
  let ?q = "(rebuild p (drop k (payload_of p)))\<lparr>is_fake_blob := is_fake_blob p, action_action := SEND,
    action_packet_id := 0\<rparr>"
  have w: "wf_packet ?q" using assms by simp
  have "seq_of ?q = seq_of p" using assms by simp
  then show ?thesis
    unfolding split_second_packet_def create_packet_from_view_of [OF assms] Let_def and_then_simps
      wf_load_seq [OF w]
    by (simp only: and_then_simps htonl_htonl wf_stores(1) [OF w] put_bytes
        wf_calc_packet_checksum [OF wf_put(1) [OF w]] cut_second_def segment_packet_def)
qed

lemma split_first_run:
  assumes "wf_packet p" "k \<le> length (payload_of p)"
  shows "split_first_packet p (length (drop k (payload_of p))) = Inr (cut_first p k)"
proof -
  note D = wf_packetD [OF assms(1)]
  define q where "q = p\<lparr>packet_bytes := headers_of p @ take k (payload_of p),
    action_action := sent_action (action_action p)\<rparr>"
  have w: "wf_packet q" using assms(1) by (simp add: q_def)
  have offs: "transport_offset q = transport_offset p" "network_offset q = 0" "payload_offset q = payload_offset p"
    using D(1) by (simp_all add: q_def)
  have len: "length (packet_bytes p) = payload_offset p + length (payload_of p)"
    using D(6) by (simp add: payload_of_def)
  have bs: "resize_bytes (packet_bytes p) (length (packet_bytes p) - length (drop k (payload_of p)))
      = packet_bytes q"
    using assms D(6) len by (subst headers_payload [of p, symmetric]) (simp add: resize_bytes_def q_def)
  have q: "p\<lparr>packet_bytes := packet_bytes q, action_action := sent_action (action_action p)\<rparr> = q"
    by (simp add: q_def)
  have "payload_of q = take k (payload_of p)" using assms(1) by (simp add: q_def)
  then have pl: "payload q = Inr (take k (payload_of p))" using wf_payload [OF w] by simp
  have size: "low_nibble (packet_bytes q ! 0) * 4 + high_nibble (packet_bytes q ! (transport_offset q + 12)) * 4
      = payload_offset p"
    using wf_packetD(4,8,9) [OF w] offs by simp
  have mod: "(word_of_nat (payload_offset p + unat (word_of_nat k :: u16)) :: u16) = word_of_nat (payload_offset p + k)"
    by simp
  show ?thesis
    unfolding split_first_packet_def bs Let_def q offs(2) wf_ihl [OF w] and_then_simps wf_doff [OF w] pl
      add_0 wf_stores(3) [OF w] size put_bytes wf_calc_packet_checksum [OF wf_put(3) [OF w]]
    using assms(2) mod by (simp add: cut_first_def q_def min_absorb2 del: of_nat_add)
qed

lemma split_and_insert_run:
  assumes "list_all wf_packet ps" "i < length ps" "k \<le> length (payload_of (ps ! i))"
  shows "split_and_insert_packets_tcp i k ps =
    Inr (take i ps @ cut_first (ps ! i) k # cut_second (ps ! i) k # drop (i + 1) ps)"
proof -
  have w: "wf_packet (ps ! i)" using assms(1,2) by (simp add: list_all_length)
  show ?thesis
    using assms(2,3)
    by (simp only: split_and_insert_packets_tcp_def Let_def wf_parse [OF w] wf_payload [OF w] and_then_simps
        subspan_r_def split_second_run [OF w] split_first_run [OF w assms(3)] not_le if_True if_False
        not_less [symmetric] simp_thms)
qed

section \<open>Finding the packet\<close>

definition payload_len :: "packet list \<Rightarrow> nat \<Rightarrow> nat" where
  "payload_len ps i = length (payload_of (ps ! i))"

lemma insert_by_set [simp]: "set (insert_by lt x ys) = insert x (set ys)"
  by (induction ys) auto

lemma sort_by_set: "sort_by lt xs = Inr ys \<Longrightarrow> set ys = set xs"
proof -
  have "set (foldr (insert_by lt) xs []) = set xs" by (induction xs) auto
  then show "sort_by lt xs = Inr ys \<Longrightarrow> set ys = set xs" by (auto simp: sort_by_def split: if_splits)
qed

lemma locate_packet_spec:
  assumes "list_all wf_packet ps" "set iters \<subseteq> {..<length ps}" "acc \<le> pos"
  shows "if pos < acc + sum_list (map (payload_len ps) iters)
    then \<exists>xs i ys. iters = xs @ i # ys
      \<and> locate_packet ps iters pos acc = Inr (i, pos - (acc + sum_list (map (payload_len ps) xs)))
      \<and> acc + sum_list (map (payload_len ps) xs) \<le> pos
      \<and> pos < acc + sum_list (map (payload_len ps) xs) + payload_len ps i
    else locate_packet ps iters pos acc = Inr (length ps, 0)"
  using assms
proof (induction iters arbitrary: acc)
  case (Cons it iters)
  have pl: "payload (ps ! it) = Inr (payload_of (ps ! it))"
    using Cons.prems by (simp add: wf_payload list_all_length)
  show ?case
  proof (cases "pos < acc + payload_len ps it")
    case True
    then have "locate_packet ps (it # iters) pos acc = Inr (it, pos - acc)"
      using pl by (simp add: payload_len_def)
    moreover have cond: "pos < acc + sum_list (map (payload_len ps) (it # iters))" using True by simp
    ultimately show ?thesis
      using True Cons.prems(3) unfolding if_P [OF cond]
      by (intro exI [of _ "[]"] exI [of _ it] exI [of _ iters]) simp
  next
    case False
    then have step: "locate_packet ps (it # iters) pos acc = locate_packet ps iters pos (acc + payload_len ps it)"
      using pl by (simp add: payload_len_def)
    have IH: "if pos < acc + payload_len ps it + sum_list (map (payload_len ps) iters)
      then \<exists>xs i ys. iters = xs @ i # ys
        \<and> locate_packet ps iters pos (acc + payload_len ps it)
            = Inr (i, pos - (acc + payload_len ps it + sum_list (map (payload_len ps) xs)))
        \<and> acc + payload_len ps it + sum_list (map (payload_len ps) xs) \<le> pos
        \<and> pos < acc + payload_len ps it + sum_list (map (payload_len ps) xs) + payload_len ps i
      else locate_packet ps iters pos (acc + payload_len ps it) = Inr (length ps, 0)"
      using Cons.prems False by (intro Cons.IH) auto
    show ?thesis
    proof (cases "pos < acc + sum_list (map (payload_len ps) (it # iters))")
      case True
      with IH obtain xs i ys where "iters = xs @ i # ys"
        "locate_packet ps iters pos (acc + payload_len ps it)
            = Inr (i, pos - (acc + payload_len ps it + sum_list (map (payload_len ps) xs)))"
        "acc + payload_len ps it + sum_list (map (payload_len ps) xs) \<le> pos"
        "pos < acc + payload_len ps it + sum_list (map (payload_len ps) xs) + payload_len ps i"
        by (auto simp: add.assoc)
      then show ?thesis
        unfolding if_P [OF True] step
        by (intro exI [of _ "it # xs"] exI [of _ i] exI [of _ ys]) (simp add: add.assoc)
    next
      case False
      with IH show ?thesis unfolding step by (simp add: add.assoc)
    qed
  qed
qed simp

lemma find_packet_bounds:
  assumes "list_all wf_packet ps" "find_packet_by_offset ps pos = Inr (i, rel)"
  shows "i = length ps \<and> rel = 0 \<or> i < length ps \<and> rel < payload_len ps i"
proof -
  obtain lt iters where sorted: "sort_by lt [0 ..< length ps] = Inr iters"
    and loc: "locate_packet ps iters (unat pos) 0 = Inr (i, rel)"
    using assms(2) by (auto simp: find_packet_by_offset_def res split: if_splits)
  have set: "set iters = {..<length ps}" 
    using sort_by_set [OF sorted] by (simp add: atLeast0LessThan)
  note spec = locate_packet_spec [OF assms(1), of iters 0 "unat pos", unfolded add_0]
  show ?thesis
  proof (cases "unat pos < sum_list (map (payload_len ps) iters)")
    case True
    have "set iters \<subseteq> {..<length ps}" using set by simp
    then obtain xs j ys where it: "iters = xs @ j # ys"
      and run: "locate_packet ps iters (unat pos) 0 = Inr (j, unat pos - sum_list (map (payload_len ps) xs))"
      and pos: "sum_list (map (payload_len ps) xs) \<le> unat pos"
        "unat pos < sum_list (map (payload_len ps) xs) + payload_len ps j"
      using spec unfolding if_P [OF True] by blast
    have "i = j" "rel = unat pos - sum_list (map (payload_len ps) xs)" using loc run by simp_all
    moreover have "j < length ps" using it set by auto
    moreover have "rel < payload_len ps j" using calculation(2) pos by linarith
    ultimately show ?thesis by simp
  next
    case False
    have "locate_packet ps iters (unat pos) 0 = Inr (length ps, 0)"
      using spec set unfolding if_not_P [OF False] by simp
    then show ?thesis using loc by simp
  qed
qed

text \<open>The order of the packets in the stream; ties keep the order of the vector.\<close>

definition stream_order :: "u32 \<Rightarrow> packet list \<Rightarrow> nat list" where
  "stream_order base ps = sort_key (\<lambda>i. seg_rel base (seg_of (ps ! i))) [0 ..< length ps]"

lemma find_packet_order:
  assumes "list_all wf_packet ps" "\<forall>p\<in>set ps. seg_rel base (seg_of p) < 2 ^ 31"
  shows "find_packet_by_offset ps pos = locate_packet ps (stream_order base ps) (unat pos) 0"
proof (cases "length ps < 2")
  case True
  then consider "ps = []" | p where "ps = [p]"
    by (cases ps) (auto simp: less_Suc_eq_0_disj numeral_2_eq_2)
  then show ?thesis
    by cases (simp_all add: find_packet_by_offset_def stream_order_def sort_by_def strict_weak_order_def)
next
  case False
  have "map_r packet_seq ps = Inr (map seq_of ps)"
    using assms(1) by (intro map_r_total) (auto simp: wf_seq list_all_iff)
  moreover have "sort_by (\<lambda>i j. seq_lt (map seq_of ps ! i) (map seq_of ps ! j)) [0 ..< length ps]
      = Inr (stream_order base ps)"
    unfolding stream_order_def
  proof (rule sort_by_key)
    fix i j
    assume "i \<in> set [0 ..< length ps]" "j \<in> set [0 ..< length ps]"
    then show "seq_lt (map seq_of ps ! i) (map seq_of ps ! j) \<longleftrightarrow>
        seg_rel base (seg_of (ps ! i)) < seg_rel base (seg_of (ps ! j))"
      using assms(2) seq_lt_window [of "seq_of (ps ! i)" base "seq_of (ps ! j)"]
      by (simp add: seg_rel_def seg_of_def)
  qed
  ultimately show ?thesis
    using False by (simp add: find_packet_by_offset_def)
qed

lemma stream_order_contiguous:
  assumes "contiguous s ps" "unat (s - base) + length (stream_of ps) < 2 ^ 31"
  shows "stream_order base ps = [0 ..< length ps]"
  unfolding stream_order_def
proof (rule sort_key_id_if_sorted)
  have "length (stream_of (take i ps)) \<le> length (stream_of (take j ps))" if "i \<le> j" for i j
    using that by (metis length_append le_add1 le_Suc_ex stream_of_simps(3) take_add)
  then show "sorted (map (\<lambda>i. seg_rel base (seg_of (ps ! i))) [0 ..< length ps])"
    using contiguous_rel [OF assms] by (auto simp: sorted_iff_nth_mono)
qed

section \<open>What split does\<close>

text \<open>Where a split position asks for a cut, or why it cannot.\<close>

definition marker_offset :: "position \<Rightarrow> string \<Rightarrow> nat option \<Rightarrow> u64 expected" where
  "marker_offset pos name mark =
     (case mark of
        None \<Rightarrow> Inl (could_not_find name)
      | Some m \<Rightarrow> Inr (do_operation (word_of_nat m) (operation pos) (offset pos)))"

definition host_marker :: "l7_proto \<Rightarrow> bool" where
  "host_marker proto \<longleftrightarrow> proto = HTTP \<or> proto = TLS"

definition target_offset :: "position \<Rightarrow> markers \<Rightarrow> l7_proto \<Rightarrow> u64 expected" where
  "target_offset pos marks proto =
     (if host_marker proto \<and> arg pos = HOSTSTART_STR then marker_offset pos HOSTSTART_STR (hoststart marks)
      else if host_marker proto \<and> arg pos = HOSTEND_STR then marker_offset pos HOSTEND_STR (hostend marks)
      else if host_marker proto \<and> arg pos = HOSTMID_STR then marker_offset pos HOSTMID_STR (hostmid marks)
      else if proto = TLS \<and> arg pos = SNIEXT_STR then marker_offset pos SNIEXT_STR (sniext marks)
      else Inr (offset pos))"

lemma marker_split_offset:
  "marker_split ps pos name mark =
     (case marker_offset pos name mark of Inl e \<Rightarrow> Inr (Inl e, ps) | Inr off \<Rightarrow> split_at_offset ps off)"
  by (simp add: marker_split_def marker_offset_def split: option.splits)

lemma split_target:
  "split ps pos marks proto =
     (if host_marker proto then
        (case target_offset pos marks proto of
           Inl e \<Rightarrow> Inr (Inl e, ps)
         | Inr off \<Rightarrow> split_at_offset ps off)
      else split_other ps pos)"
  by (cases proto)
    (simp_all add: split_def split_http_def split_tls_def host_marker_def target_offset_def marker_split_offset
      split del: if_split cong: if_cong, simp_all)

lemma split_other_tcp:
  assumes "list_all wf_packet ps"
  shows "split_other ps pos =
    and_then (find_packet_by_offset ps (offset pos)) (\<lambda>(it, rel).
    if it = length ps then Inr (Inr False, ps) else split_at_offset ps (offset pos))"
proof -
  have "packet_protocol (hd ps) = Inr IPPROTO_TCP" if "ps \<noteq> []"
    using assms that by (cases ps) (simp_all add: wf_protocol)
  then show ?thesis
    using find_packet_bounds [OF assms]
    by (cases "find_packet_by_offset ps (offset pos)")
      (fastforce simp: split_other_def split_at_offset_def)+
qed

text \<open>The only ways a split can change a vector of well-formed packets.\<close>

lemma split_cases:
  assumes "list_all wf_packet ps" "split ps pos marks proto = Inr (r, qs)"
  shows "qs = ps \<or> (\<exists>i k. i < length ps \<and> k < payload_len ps i
    \<and> qs = take i ps @ cut_first (ps ! i) k # cut_second (ps ! i) k # drop (i + 1) ps)"
proof -
  have "qs = ps \<or> split_at_offset ps off = Inr (r, qs)" if "split_other ps pos = Inr (r, qs)" "off = offset pos" for off
    using that unfolding split_other_tcp [OF assms(1)] by (auto simp: res split: if_splits)
  then obtain off where "qs = ps \<or> split_at_offset ps off = Inr (r, qs)"
    using assms(2) unfolding split_target by (auto split: if_splits sum.splits)
  moreover have ?thesis if at: "split_at_offset ps off = Inr (r, qs)"
  proof -
    obtain i k where f: "find_packet_by_offset ps off = Inr (i, k)"
      and c: "qs = ps \<or> split_and_insert_packets_tcp i k ps = Inr qs"
      using at by (auto simp: split_at_offset_def res split: if_splits)
    show ?thesis
    proof (cases "i < length ps")
      case True
      then have k: "k < payload_len ps i" using find_packet_bounds [OF assms(1) f] by auto
      then have "split_and_insert_packets_tcp i k ps =
          Inr (take i ps @ cut_first (ps ! i) k # cut_second (ps ! i) k # drop (i + 1) ps)"
        using True by (intro split_and_insert_run assms(1)) (simp_all add: payload_len_def)
      with c True k show ?thesis by auto
    next
      case False
      then have "split_and_insert_packets_tcp i k ps = Inl Invalid_iterator"
        by (simp add: split_and_insert_packets_tcp_def)
      with c show ?thesis by simp
    qed
  qed
  ultimately show ?thesis by blast
qed

text \<open>A split as a pass over the vector; the modifiers only log its result.\<close>

definition split_pass :: "markers \<Rightarrow> l7_proto \<Rightarrow> position \<Rightarrow> packet list \<Rightarrow> packet list result" where
  "split_pass marks proto pos ps = and_then (split ps pos marks proto) (\<lambda>(res, ps'). Inr ps')"

interpretation splitting: packet_rewriter "split_pass marks proto pos" for marks proto pos
proof
  fix ps qs
  assume "split_pass marks proto pos ps = Inr qs" and wf: "list_all wf_packet ps"
  then obtain r where "split ps pos marks proto = Inr (r, qs)" by (auto simp: split_pass_def res)
  then consider "qs = ps" | i k where "i < length ps"
      "qs = take i ps @ cut_first (ps ! i) k # cut_second (ps ! i) k # drop (i + 1) ps"
    using split_cases [OF wf] by blast
  then have "list_all wf_packet qs \<and> verdicts qs = verdicts ps \<and> (ps \<noteq> [] \<longrightarrow> qs \<noteq> [])"
  proof cases
    case 2
    let ?xs = "take i ps" and ?ys = "drop (Suc i) ps"
    have ps: "ps = ?xs @ ps ! i # ?ys" using 2(1) by (rule id_take_nth_drop)
    have w: "list_all wf_packet ?xs \<and> wf_packet (ps ! i) \<and> list_all wf_packet ?ys"
      using wf by (subst (asm) ps) simp
    have "verdicts ps = verdicts ?xs @ verdicts (ps ! i # ?ys)" by (subst ps) simp
    moreover have "owes_verdict (cut_first (ps ! i) k) = owes_verdict (ps ! i)"
      using w by (simp add: owes_verdict_def sent_action_def)
    ultimately show ?thesis using 2(2) w by (simp add: owes_verdict_def)
  qed (use wf in simp)
  then show "list_all wf_packet qs" "mset (verdicts qs) = mset (verdicts ps)" "ps \<noteq> [] \<Longrightarrow> qs \<noteq> []"
    by auto
qed

lemma sum_payload_len: "i \<le> length ps \<Longrightarrow> sum_list (map (payload_len ps) [0 ..< i]) = length (stream_of (take i ps))"
  by (induction i) (simp_all add: payload_len_def take_Suc_conv_app_nth)

lemma find_packet_contiguous:
  assumes "list_all wf_packet ps" "contiguous s ps" "length (stream_of ps) < 2 ^ 31"
  shows "if unat off < length (stream_of ps)
    then \<exists>i<length ps. find_packet_by_offset ps off = Inr (i, unat off - length (stream_of (take i ps)))
      \<and> length (stream_of (take i ps)) \<le> unat off
      \<and> unat off < length (stream_of (take i ps)) + payload_len ps i
    else find_packet_by_offset ps off = Inr (length ps, 0)"
proof -
  have small: "unat (s - s) + length (stream_of ps) < 2 ^ 31" using assms(3) by simp
  have le: "length (stream_of (take i ps)) \<le> length (stream_of ps)" for i
    by (metis append_take_drop_id length_append le_add1 stream_of_simps(3))
  have "seg_rel s (seg_of (ps ! i)) < 2 ^ 31" if "i < length ps" for i
    unfolding contiguous_rel [OF assms(2) small that] using le [of i] small by linarith
  then have "\<forall>p\<in>set ps. seg_rel s (seg_of p) < 2 ^ 31" by (metis in_set_conv_nth)
  then have find: "find_packet_by_offset ps off = locate_packet ps [0 ..< length ps] (unat off) 0"
    using find_packet_order [OF assms(1), of s off] stream_order_contiguous [OF assms(2) small] by simp
  note spec = locate_packet_spec [OF assms(1), of "[0 ..< length ps]" 0 "unat off", unfolded add_0
      sum_payload_len [OF order_refl] take_all [OF order_refl] find [symmetric]]
  show ?thesis
  proof (cases "unat off < length (stream_of ps)")
    case True
    have "set [0 ..< length ps] \<subseteq> {..<length ps}" by auto
    then obtain xs i ys where it: "[0 ..< length ps] = xs @ i # ys"
      and run: "find_packet_by_offset ps off = Inr (i, unat off - sum_list (map (payload_len ps) xs))"
      and pos: "sum_list (map (payload_len ps) xs) \<le> unat off"
        "unat off < sum_list (map (payload_len ps) xs) + payload_len ps i"
      using spec unfolding if_P [OF True] by blast
    have "length xs < length ps" using arg_cong [OF it, of length] by simp
    moreover have "i = length xs"
      using arg_cong [OF it, of "\<lambda>is. is ! length xs"] calculation by simp
    moreover have "xs = [0 ..< length xs]"
      using arg_cong [OF it, of "take (length xs)"] calculation(1) by simp
    ultimately have "i < length ps" "xs = [0 ..< i]" by simp_all
    then have "sum_list (map (payload_len ps) xs) = length (stream_of (take i ps))"
      by (simp add: sum_payload_len)
    with run pos \<open>i < length ps\<close> show ?thesis unfolding if_P [OF True] by auto
  next
    case False
    then show ?thesis using spec unfolding if_not_P [OF False] by (simp add: atLeast0LessThan)
  qed
qed

text \<open>Cutting one packet of a vector cuts one segment of the stream, or a fake one.\<close>

lemma cut_segs:
  assumes "wf_packet p"
  shows "map seg_of [cut_first p k, cut_second p k] = cut_segment k (seg_of p)"
  using assms by (simp add: seg_of_def cut_segment_def)

section \<open>Properties\<close>

text \<open>C6. When the packets carry their stream in order and without holes, and the split position
  points into it, split returns the same stream with a packet boundary exactly at that position,
  in well-formed packets that are again in order and without holes, so any number of splits can
  follow each other.\<close>

theorem split_cuts_stream:
  assumes "list_all wf_packet ps" "contiguous s ps" "length (stream_of ps) < 2 ^ 31"
    and "target_offset pos marks proto = Inr off" "unat off < length (stream_of ps)"
  shows "\<exists>left right. split ps pos marks proto = Inr (Inr True, left @ right)
    \<and> stream_of left = take (unat off) (stream_of ps) \<and> stream_of right = drop (unat off) (stream_of ps)
    \<and> contiguous s (left @ right) \<and> list_all wf_packet (left @ right)"
proof -
  obtain i where i: "i < length ps"
    and find: "find_packet_by_offset ps off = Inr (i, unat off - length (stream_of (take i ps)))"
    and le: "length (stream_of (take i ps)) \<le> unat off"
    and lt: "unat off < length (stream_of (take i ps)) + payload_len ps i"
    using find_packet_contiguous [OF assms(1-3), of off] unfolding if_P [OF assms(5)] by blast
  define k where "k = unat off - length (stream_of (take i ps))"
  let ?p = "ps ! i" and ?xs = "take i ps" and ?ys = "drop (i + 1) ps"
  have ps: "ps = ?xs @ ?p # ?ys" using id_take_nth_drop [OF i] by simp
  have parts: "list_all wf_packet ?xs" "wf_packet ?p" "list_all wf_packet ?ys" "contiguous s ?xs"
    "contiguous (s + word_of_nat (length (stream_of ?xs))) (?p # ?ys)"
    "stream_of ps = stream_of ?xs @ payload_of ?p @ stream_of ?ys"
    using assms(1,2) ps by (metis contiguous_append list_all_append list.pred_inject(2) stream_of_simps(2,3))+
  have k: "k < length (payload_of ?p)" using le lt by (simp add: k_def payload_len_def)
  have "length (payload_of ?p) \<le> length (stream_of ps)" using parts(6) by simp
  then have "k \<noteq> minus_one" using k assms(3) by (simp add: minus_one_eq)
  then have "split_at_offset ps off = Inr (Inr True, (?xs @ [cut_first ?p k]) @ cut_second ?p k # ?ys)"
    using find split_and_insert_run [OF assms(1) i, of k] k
    by (simp add: split_at_offset_def k_def [symmetric])
  moreover have "split ps pos marks proto = split_at_offset ps off"
    using assms(4) find i
    by (auto simp: split_target split_other_tcp [OF assms(1)] target_offset_def host_marker_def)
  moreover have "stream_of (?xs @ [cut_first ?p k]) = take (unat off) (stream_of ps)"
    using parts(2) le k by (simp add: parts(6) k_def)
  moreover have "stream_of (cut_second ?p k # ?ys) = drop (unat off) (stream_of ps)"
    using parts(2) le k by (simp add: parts(6) k_def)
  moreover have "contiguous s ((?xs @ [cut_first ?p k]) @ cut_second ?p k # ?ys)"
    using parts(2,4,5) k by (simp add: contiguous_append of_nat_diff algebra_simps)
  moreover have "list_all wf_packet ((?xs @ [cut_first ?p k]) @ cut_second ?p k # ?ys)"
    using parts by simp
  ultimately show ?thesis by metis
qed

text \<open>C37. What split does when there is nothing to cut: a marker that was not found leaves the
  packets and returns the reason; a position at or beyond the end of the stream is answered with
  false for protocols without markers, but for HTTP and TLS the end iterator is dereferenced.\<close>

theorem split_without_cut:
  assumes "list_all wf_packet ps" "contiguous s ps" "length (stream_of ps) < 2 ^ 31"
    and "\<forall>off. target_offset pos marks proto = Inr off \<longrightarrow> length (stream_of ps) \<le> unat off"
  shows "split ps pos marks proto =
    (case target_offset pos marks proto of
       Inl e \<Rightarrow> Inr (Inl e, ps)
     | Inr off \<Rightarrow> if host_marker proto then Inl Invalid_iterator else Inr (Inr False, ps))"
proof (cases "target_offset pos marks proto")
  case (Inl e)
  then show ?thesis by (auto simp: split_target target_offset_def host_marker_def)
next
  case (Inr off)
  then have f: "find_packet_by_offset ps off = Inr (length ps, 0)"
    using find_packet_contiguous [OF assms(1-3), of off] assms(4) by (simp add: not_less)
  have "0 \<noteq> minus_one" by (simp add: minus_one_eq)
  then have "split_at_offset ps off = Inl Invalid_iterator"
    by (simp add: split_at_offset_def f split_and_insert_packets_tcp_def)
  with Inr f show ?thesis
    by (auto simp: split_target split_other_tcp [OF assms(1)] target_offset_def host_marker_def)
qed

text \<open>In whatever order the packets stand and however they overlap, a split leaves the stream
  that \<open>concat\<close> finds in the packets that are not fake exactly as it was, keeps every packet
  well-formed, and keeps the verdicts owed to the queue.\<close>

theorem split_keeps_stream:
  assumes "list_all wf_packet ps" "split ps pos marks proto = Inr (r, qs)"
    and "windowed base (map seg_of (filter (\<lambda>p. \<not> is_fake_blob p) ps))"
    and "agrees base S (map seg_of (filter (\<lambda>p. \<not> is_fake_blob p) ps))"
  shows "concat_view (\<lambda>p. \<not> is_fake_blob p) qs = concat_view (\<lambda>p. \<not> is_fake_blob p) ps
    \<and> list_all wf_packet qs \<and> mset (verdicts qs) = mset (verdicts ps)"
proof -
  let ?P = "\<lambda>p. \<not> is_fake_blob p"
  have run: "split_pass marks proto pos ps = Inr qs" using assms(2) by (simp add: split_pass_def)
  note wf = splitting.run_wf [OF run assms(1)]
  have "assemble (map seg_of (filter ?P qs)) = assemble (map seg_of (filter ?P ps))"
    using split_cases [OF assms(1,2)]
  proof (elim disjE exE conjE)
    fix i k
    assume i: "i < length ps" and k: "k < payload_len ps i"
      and qs: "qs = take i ps @ cut_first (ps ! i) k # cut_second (ps ! i) k # drop (i + 1) ps"
    let ?xs = "map seg_of (filter ?P (take i ps))" and ?ys = "map seg_of (filter ?P (drop (i + 1) ps))"
    have w: "wf_packet (ps ! i)" using assms(1) i by (simp add: list_all_length)
    have ps: "filter ?P ps = filter ?P (take i ps) @ filter ?P (ps ! i # drop (i + 1) ps)"
      by (subst id_take_nth_drop [OF i]) simp
    show ?thesis
    proof (cases "is_fake_blob (ps ! i)")
      case False
      then have seg: "map seg_of (filter ?P ps) = ?xs @ seg_of (ps ! i) # ?ys" using ps by simp
      have "map seg_of (filter ?P qs) = ?xs @ cut_segment k (seg_of (ps ! i)) @ ?ys"
        unfolding qs cut_segs [OF w, symmetric] using False w by simp
      moreover have "k \<le> length (snd (seg_of (ps ! i)))" using k by (simp add: seg_of_def payload_len_def)
      ultimately show ?thesis
        using assms(3,4) unfolding seg by (simp add: assemble_cut)
    qed (use ps qs w in simp)
  qed simp
  then show ?thesis
    using wf assms(1) splitting.run_verdicts [OF run assms(1)] by (simp add: wf_concat_view list_all_iff)
qed

text \<open>The position a marker and an offset give, in 64-bit arithmetic: subtracting more than the
  marker's position wraps around to a position near the end of the range, which no stream reaches.\<close>

theorem do_operation_bounds:
  "unat (do_operation m oper off) =
     (case oper of
        NoOp \<Rightarrow> unat m
      | Add \<Rightarrow> if unat m + unat off < 2 ^ 64 then unat m + unat off else unat m + unat off - 2 ^ 64
      | Subtract \<Rightarrow> if unat off \<le> unat m then unat m - unat off else 2 ^ 64 - (unat off - unat m))"
  using unat_less [of m] unat_less [of off]
  by (auto simp: do_operation_def unat_word_ariths unat_sub_if_size word_size mod_if split: operation.split)

text \<open>The sample packets in stream order, cut inside the second one.\<close>

definition hostmid_only :: "nat \<Rightarrow> markers" where
  "hostmid_only m = no_markers\<lparr>hostmid := Some m\<rparr>"

definition at_hostmid :: position where
  "at_hostmid = \<lparr>arg = HOSTMID_STR, operation = NoOp, offset = 0\<rparr>"

lemma sample_sorted:
  "list_all wf_packet (rev sample_pair)" "contiguous 1000 (rev sample_pair)"
  "stream_of (rev sample_pair) = [1, 2, 3, 4, 1, 2, 3, 4]"
  by code_simp+

lemma sample_target: "target_offset at_hostmid (hostmid_only m) TLS = Inr (word_of_nat m)"
  by (simp add: target_offset_def at_hostmid_def hostmid_only_def marker_offset_def do_operation_def
      host_marker_def HOSTMID_STR_def HOSTSTART_STR_def HOSTEND_STR_def)

lemma split_cuts_stream_witness:
  "\<exists>left right. split (rev sample_pair) at_hostmid (hostmid_only 5) TLS = Inr (Inr True, left @ right)
     \<and> stream_of left = [1, 2, 3, 4, 1] \<and> stream_of right = [2, 3, 4]"
  using split_cuts_stream [OF sample_sorted(1,2) _ sample_target [of 5]] by (auto simp: sample_sorted(3))

lemma split_without_cut_witness:
  "split (rev sample_pair) at_hostmid (hostmid_only 8) TLS = Inl Invalid_iterator"
  using split_without_cut [OF sample_sorted(1,2), of at_hostmid "hostmid_only 8" TLS]
  by (simp add: sample_sorted(3) sample_target host_marker_def)

lemma sample_split: "\<exists>qs. split sample_pair at_hostmid (hostmid_only 5) TLS = Inr (Inr True, qs)"
proof -
  have "find_packet_by_offset sample_pair 5 = Inr (0, 1)" by code_simp
  moreover have "\<exists>qs. split_and_insert_packets_tcp 0 1 sample_pair = Inr qs"
    using split_and_insert_run [OF sample_pair_wf, of 0 1] sample_pair_segs
    by (auto simp: sample_pair_def seg_of_def)
  ultimately show ?thesis
    using sample_target [of 5]
    by (auto simp: split_target host_marker_def split_at_offset_def minus_one_eq)
qed

lemma split_keeps_stream_witness:
  "\<exists>r qs. split sample_pair at_hostmid (hostmid_only 5) TLS = Inr (r, qs)
     \<and> concat_view (\<lambda>p. \<not> is_fake_blob p) qs = concat_view (\<lambda>p. \<not> is_fake_blob p) sample_pair"
proof -
  obtain qs where run: "split sample_pair at_hostmid (hostmid_only 5) TLS = Inr (Inr True, qs)"
    using sample_split by blast
  then show ?thesis
    using split_keeps_stream [OF sample_pair_wf run, of 1000 sample_stream] sample_pair_stream
    by (auto simp: sample_pair_fresh)
qed

end
