(* ===== verification/Conntrack.thy ===== *)
theory Conntrack
  imports Common
begin

text \<open>
  Connections and the connection table, \<^verbatim>\<open>conntrack/conn_tracker.{hpp,cpp}\<close> and
  \<^verbatim>\<open>net/consts.hpp\<close>: the guessed TCP state, the maximum segment size, the packets held for
  reassembly, and the removal of dead connections. The clock and the interface's MTU are parameters.
\<close>

section \<open>Connection\<close>

datatype tcp_state = TCP_UNKNOWN | SYN | ESTAB | FIN | CLOSED

record tcp =
  state :: tcp_state
  cur_seq :: u32
  expected_seq :: u32
  mss :: i32

definition new_tcp :: tcp where
  "new_tcp = \<lparr>state = TCP_UNKNOWN, cur_seq = 0, expected_seq = 0, mss = 536\<rparr>"

datatype l4_state = Monostate | Tcp tcp | Udp

text \<open>Times are nanoseconds of the system clock.\<close>

record connection =
  pl_bytes_transfered :: u64
  packet_count :: u64
  mtu :: "i32 option"
  last_packet_time :: int
  payload_proto :: l7_proto
  segs :: "packet list"
  source_addr :: u32
  l4_proto :: byte
  l4_state :: l4_state
  is_done :: bool

definition new_connection :: connection where
  "new_connection =
     \<lparr>pl_bytes_transfered = 0, packet_count = 0, mtu = None, last_packet_time = 0,
      payload_proto = UNKNOWN, segs = [], source_addr = 0, l4_proto = 0, l4_state = Monostate,
      is_done = False\<rparr>"

definition set_l4_proto :: "byte \<Rightarrow> connection \<Rightarrow> connection result" where
  "set_l4_proto proto conn =
     (if proto = IPPROTO_TCP then Inr (conn\<lparr>l4_proto := proto, l4_state := Tcp new_tcp\<rparr>)
      else if proto = IPPROTO_UDP then Inr (conn\<lparr>l4_proto := proto, l4_state := Udp\<rparr>)
      else Inl (Runtime_error ''This L4 protocol is not supported''))"

definition get_l4_tcp :: "connection \<Rightarrow> tcp result" where
  "get_l4_tcp conn = (case l4_state conn of Tcp t \<Rightarrow> Inr t | _ \<Rightarrow> Inl Bad_variant_access)"

text \<open>\<open>iface_mtu\<close> stands for \<open>iface_find_and_get_mtu\<close>; the found value is cached.\<close>

definition get_mss :: "(u32 \<Rightarrow> (string + i32) result) \<Rightarrow> connection \<Rightarrow> (i32 \<times> connection) result" where
  "get_mss iface_mtu conn =
     (if l4_proto conn = IPPROTO_TCP then and_then (get_l4_tcp conn) (\<lambda>t. Inr (mss t, conn))
      else
        and_then
          (case mtu conn of
             Some m \<Rightarrow> Inr m
           | None \<Rightarrow>
               and_then (iface_mtu (source_addr conn)) (\<lambda>found.
               Inr (case found of Inr m \<Rightarrow> m | Inl _ \<Rightarrow> 1500))) (\<lambda>m.
        Inr (ucast (scast m - word_of_nat sizeof_iphdr - word_of_nat sizeof_udphdr :: u64), conn\<lparr>mtu := Some m\<rparr>)))"

definition set_mss :: "i32 \<Rightarrow> connection \<Rightarrow> connection result" where
  "set_mss m conn =
     (if l4_proto conn = IPPROTO_TCP
      then and_then (get_l4_tcp conn) (\<lambda>t. Inr (conn\<lparr>l4_state := Tcp (t\<lparr>mss := m\<rparr>)\<rparr>))
      else Inl (Runtime_error ''Not supported''))"

section \<open>Held packets\<close>

definition reasm_reset :: "connection \<Rightarrow> connection" where
  "reasm_reset conn = conn\<lparr>segs := []\<rparr>"

definition optional_value :: "'a option \<Rightarrow> 'a result" where
  "optional_value m = (case m of None \<Rightarrow> Inl Bad_optional_access | Some x \<Rightarrow> Inr x)"

text \<open>\<open>parse_packet_view(packet).get_seq().value()\<close>\<close>

definition viewed_seq :: "packet \<Rightarrow> u32 result" where
  "viewed_seq p = and_then (parse_packet_view_of p) (\<lambda>v. and_then (get_seq v) optional_value)"

definition reasm_sort :: "connection \<Rightarrow> connection result" where
  "reasm_sort conn =
     (if l4_proto conn = IPPROTO_TCP then
        and_then (map_r (\<lambda>p. and_then (viewed_seq p) (\<lambda>s. Inr (s, p))) (segs conn)) (\<lambda>keyed.
        and_then (sort_by (\<lambda>lhs rhs. seq_lt (fst lhs) (fst rhs)) keyed) (\<lambda>sorted.
        Inr (conn\<lparr>segs := map snd sorted\<rparr>)))
      else Inl (Logic_error ''sort Not supported for anything other than tcp''))"

fun find_duplicate :: "packet_view \<Rightarrow> packet list \<Rightarrow> bool result" where
  "find_duplicate pkt [] = Inr False"
| "find_duplicate pkt (packet # rest) =
     and_then (packet_protocol packet) (\<lambda>proto.
     if proto = IPPROTO_TCP then
       and_then (packet_seq packet) (\<lambda>seq.
       and_then (get_seq pkt) (\<lambda>seq_opt.
       and_then (optional_value seq_opt) (\<lambda>pkt_seq.
       if seq = pkt_seq then Inr True else find_duplicate pkt rest)))
     else find_duplicate pkt rest)"

definition reasm_is_duplicate :: "packet_view \<Rightarrow> connection \<Rightarrow> bool result" where
  "reasm_is_duplicate pkt conn = find_duplicate pkt (segs conn)"

text \<open>The sum of the last sequence number and its payload size is taken in 64 bits.\<close>

definition follows_last :: "packet_view \<Rightarrow> packet list \<Rightarrow> bool result" where
  "follows_last pkt ps =
     and_then (get_seq pkt) (\<lambda>seq_opt.
     case seq_opt of
       None \<Rightarrow> Inr False
     | Some seq \<Rightarrow>
         and_then (viewed_seq (last ps)) (\<lambda>last_seq.
         and_then (payload (last ps)) (\<lambda>pl.
         Inr ((ucast last_seq + word_of_nat (length pl) :: u64) = ucast seq))))"

definition reasm_insert :: "packet_view \<Rightarrow> connection \<Rightarrow> connection result" where
  "reasm_insert pkt conn =
     (if segs conn = [] then
        and_then (create_packet pkt) (\<lambda>p. Inr (conn\<lparr>segs := segs conn @ [p]\<rparr>))
      else
        and_then (reasm_is_duplicate pkt conn) (\<lambda>dup.
        if dup then Inr conn
        else
          and_then (follows_last pkt (segs conn)) (\<lambda>in_order.
          and_then (create_packet pkt) (\<lambda>p.
          if in_order then Inr (conn\<lparr>segs := segs conn @ [p]\<rparr>)
          else reasm_sort (conn\<lparr>segs := segs conn @ [p]\<rparr>)))))"

section \<open>Tracking\<close>

text \<open>
  \<open>parse_mss_opt\<close> over the option bytes from \<open>pos\<close> to \<open>e\<close>. Its result type is
  \<open>std::optional<int>\<close>, so \<open>return false\<close> is the value zero.
\<close>

function mss_loop :: "byte list \<Rightarrow> nat \<Rightarrow> nat \<Rightarrow> i32 option result" where
  "mss_loop bs pos e =
     (if e \<le> pos then Inr None
      else if e - pos < 2 then Inr (Some 0)
      else
        and_then (load8 bs pos) (\<lambda>kind.
        if kind = 1 then mss_loop bs (pos + 1) e
        else
          and_then (load8 bs (pos + 1)) (\<lambda>len.
          if kind \<noteq> 2 then
            if e - pos < unat len then Inr (Some 0)
            else if len = 0 then Inl Assert_failed
            else mss_loop bs (pos + unat len) e
          else if len < 4 \<or> len > 4 then Inr (Some 0)
          else and_then (load16 bs (pos + 2)) (\<lambda>w. Inr (Some (ucast (ntohs w)))))))"
  by pat_completeness auto

termination mss_loop
  by (relation "measure (\<lambda>(_, pos, e). e - pos)") (auto simp: unat_gt_0 intro!: diff_less_mono2)

declare mss_loop.simps [simp del]

definition parse_mss_opt :: "byte list \<Rightarrow> nat \<Rightarrow> nat \<Rightarrow> i32 option result" where
  "parse_mss_opt bs tcp len =
     (if len \<le> sizeof_tcphdr then Inr (Some 0) else mss_loop bs (tcp + sizeof_tcphdr) (tcp + len))"

record tcp_flags =
  fin :: bool
  syn :: bool
  rst :: bool
  ack :: bool

definition flags_of :: "byte \<Rightarrow> tcp_flags" where
  "flags_of b = \<lparr>fin = bit b 0, syn = bit b 1, rst = bit b 2, ack = bit b 4\<rparr>"

text \<open>The three blocks that guess the state, in order.\<close>

definition opening_step :: "tcp_flags \<Rightarrow> tcp \<Rightarrow> tcp" where
  "opening_step fl t =
     (if state t = TCP_UNKNOWN \<and> syn fl \<and> \<not> ack fl then t\<lparr>state := SYN, expected_seq := cur_seq t + 1\<rparr>
      else if state t = SYN \<and> ack fl \<and> cur_seq t = expected_seq t then t\<lparr>state := ESTAB, expected_seq := 0\<rparr>
      else if state t = TCP_UNKNOWN \<and> syn fl \<and> ack fl then t\<lparr>state := ESTAB\<rparr>
      else t)"

definition closing_step :: "tcp_flags \<Rightarrow> tcp \<Rightarrow> tcp" where
  "closing_step fl t = (if state t = ESTAB \<and> fin fl then t\<lparr>state := FIN\<rparr> else t)"

definition reset_step :: "tcp_flags \<Rightarrow> tcp \<Rightarrow> tcp" where
  "reset_step fl t = (if rst fl then t\<lparr>state := CLOSED\<rparr> else t)"

definition track_state :: "tcp_flags \<Rightarrow> tcp \<Rightarrow> tcp" where
  "track_state fl t = reset_step fl (closing_step fl (opening_step fl t))"

definition learn_mss :: "packet_view \<Rightarrow> nat \<Rightarrow> tcp \<Rightarrow> tcp result" where
  "learn_mss v off t =
     and_then (ip_ihl (view_packet v) (view_network_hdr v)) (\<lambda>ihl.
     and_then (subspan_r (view_packet v) (ihl * 4)) (\<lambda>tcpb.
     and_then (tcp_doff (view_packet v) off) (\<lambda>doff.
     and_then (parse_mss_opt (view_packet v) (ihl * 4) (min (length tcpb) (doff * 4))) (\<lambda>mss_opt.
     Inr (case mss_opt of None \<Rightarrow> t | Some m \<Rightarrow> t\<lparr>mss := m\<rparr>)))))"

definition track_tcp :: "packet_view \<Rightarrow> connection \<Rightarrow> connection result" where
  "track_tcp v conn =
     (case view_transport_hdr v of
        Udp_hdr _ \<Rightarrow> Inl Bad_variant_access
      | Tcp_hdr off \<Rightarrow>
          and_then (get_l4_tcp conn) (\<lambda>t.
          and_then (tcp_seq (view_packet v) off) (\<lambda>seq.
          let t1 = t\<lparr>cur_seq := ntohl seq\<rparr> in
          and_then (load8 (view_packet v) (off + 13)) (\<lambda>fl_byte.
          let fl = flags_of fl_byte in
          and_then (if syn fl then learn_mss v off t1 else Inr t1) (\<lambda>t2.
          Inr (conn\<lparr>l4_state := Tcp (track_state fl t2)\<rparr>))))))"

definition track_udp :: "packet_view \<Rightarrow> connection \<Rightarrow> connection result" where
  "track_udp v conn = Inr conn"

definition track_transport :: "packet_view \<Rightarrow> connection \<Rightarrow> connection result" where
  "track_transport v conn =
     and_then (ip_protocol (view_packet v) (view_network_hdr v)) (\<lambda>proto.
     if proto = IPPROTO_TCP then track_tcp v conn
     else if proto = IPPROTO_UDP then track_udp v conn
     else Inr conn)"

definition track :: "int \<Rightarrow> packet_view \<Rightarrow> connection \<Rightarrow> connection result" where
  "track now v conn =
     and_then (track_transport v conn) (\<lambda>conn'.
     Inr (conn'\<lparr>last_packet_time := now,
       pl_bytes_transfered := pl_bytes_transfered conn' + word_of_nat (length (view_payload v)),
       packet_count := packet_count conn' + 1\<rparr>))"

section \<open>ConnTracker\<close>

definition DEFAULT_CONNECTION_TIMEOUT_SECS :: int where "DEFAULT_CONNECTION_TIMEOUT_SECS = 60"
definition SYN_TCP_CONNECTION_TIMEOUT_SECS :: int where "SYN_TCP_CONNECTION_TIMEOUT_SECS = 15"
definition ESTAB_TCP_CONNECTION_TIMEOUT_SECS :: int where "ESTAB_TCP_CONNECTION_TIMEOUT_SECS = 6000"
definition FIN_TCP_CONNECTION_TIMEOUT_SECS :: int where "FIN_TCP_CONNECTION_TIMEOUT_SECS = 15"
definition CLOSE_TCP_CONNECTION_TIMEOUT_SECS :: int where "CLOSE_TCP_CONNECTION_TIMEOUT_SECS = 0"

fun timeout_for_tcp_state :: "tcp_state \<Rightarrow> int" where
  "timeout_for_tcp_state SYN = SYN_TCP_CONNECTION_TIMEOUT_SECS"
| "timeout_for_tcp_state ESTAB = ESTAB_TCP_CONNECTION_TIMEOUT_SECS"
| "timeout_for_tcp_state FIN = FIN_TCP_CONNECTION_TIMEOUT_SECS"
| "timeout_for_tcp_state CLOSED = CLOSE_TCP_CONNECTION_TIMEOUT_SECS"
| "timeout_for_tcp_state TCP_UNKNOWN = DEFAULT_CONNECTION_TIMEOUT_SECS"

type_synonym conn_key = "u32 \<times> u16 \<times> u32 \<times> u16 \<times> int"

text \<open>The hash table, in the order in which it is iterated; a new entry may land anywhere.\<close>

type_synonym conn_table = "(conn_key \<times> connection) list"

definition find_conn :: "conn_table \<Rightarrow> conn_key \<Rightarrow> connection option" where
  "find_conn conns key = map_of conns key"

fun get_conn :: "conn_key \<Rightarrow> conn_table \<Rightarrow> (connection \<times> conn_table) result" where
  "get_conn (saddr, source, daddr, dest, proto) conns =
     (case find_conn conns (saddr, source, daddr, dest, proto) of
        Some conn \<Rightarrow> Inr (conn, conns)
      | None \<Rightarrow>
          and_then (set_l4_proto (word_of_int proto) new_connection) (\<lambda>conn.
          let conn' = conn\<lparr>source_addr := saddr\<rparr> in
          Inr (conn', ((saddr, source, daddr, dest, proto), conn') # conns)))"

text \<open>Writing through the iterator \<open>get_conn\<close> returned.\<close>

definition update_conn :: "conn_key \<Rightarrow> connection \<Rightarrow> conn_table \<Rightarrow> conn_table" where
  "update_conn key conn conns = map (\<lambda>(k, c). if k = key then (k, conn) else (k, c)) conns"

definition calculate_timeout :: "connection \<Rightarrow> int result" where
  "calculate_timeout conn =
     (if l4_proto conn = IPPROTO_TCP
      then and_then (get_l4_tcp conn) (\<lambda>t. Inr (timeout_for_tcp_state (state t)))
      else Inr DEFAULT_CONNECTION_TIMEOUT_SECS)"

text \<open>\<open>duration_cast<seconds>\<close> truncates towards zero.\<close>

definition elapsed_seconds :: "int \<Rightarrow> int \<Rightarrow> int" where
  "elapsed_seconds now time =
     (if time \<le> now then (now - time) div 1000000000 else - ((time - now) div 1000000000))"

text \<open>Returns the ids accepted, in order, and the connections that stay.\<close>

fun clear_dead_connections :: "int \<Rightarrow> conn_table \<Rightarrow> (u32 list \<times> conn_table) result" where
  "clear_dead_connections now [] = Inr ([], [])"
| "clear_dead_connections now ((key, conn) # conns) =
     and_then (calculate_timeout conn) (\<lambda>timeout.
     and_then (clear_dead_connections now conns) (\<lambda>(ids, rest).
     if timeout \<le> elapsed_seconds now (last_packet_time conn)
     then Inr (map action_packet_id (segs conn) @ ids, rest)
     else Inr (ids, (key, conn) # rest)))"

section \<open>Progress of a TCP connection\<close>

text \<open>The states in the order a connection goes through them.\<close>

fun rank :: "tcp_state \<Rightarrow> nat" where
  "rank TCP_UNKNOWN = 0"
| "rank SYN = 1"
| "rank ESTAB = 2"
| "rank FIN = 3"
| "rank CLOSED = 4"

lemma rank_inject: "rank a = rank b \<longleftrightarrow> a = b"
  by (cases a; cases b) simp_all

instantiation tcp_state :: linorder
begin

definition less_eq_tcp_state :: "tcp_state \<Rightarrow> tcp_state \<Rightarrow> bool" where
  "less_eq_tcp_state a b \<longleftrightarrow> rank a \<le> rank b"

definition less_tcp_state :: "tcp_state \<Rightarrow> tcp_state \<Rightarrow> bool" where
  "less_tcp_state a b \<longleftrightarrow> rank a < rank b"

instance
  by standard (auto simp: less_eq_tcp_state_def less_tcp_state_def rank_inject)

end

lemmas tcp_state_order = less_eq_tcp_state_def less_tcp_state_def

lemmas tcp_steps = track_state_def opening_step_def closing_step_def reset_step_def

lemma track_state_progress: "state t \<le> state (track_state fl t)"
  by (cases "state t") (auto simp: tcp_steps tcp_state_order)

text \<open>What one packet does to the TCP part of a connection.\<close>

definition view_flags :: "packet_view \<Rightarrow> tcp_flags" where
  "view_flags v =
     (case view_transport_hdr v of
        Tcp_hdr off \<Rightarrow> flags_of (view_packet v ! (off + 13))
      | Udp_hdr off \<Rightarrow> flags_of 0)"

definition view_seq :: "packet_view \<Rightarrow> u32" where
  "view_seq v =
     (case view_transport_hdr v of
        Tcp_hdr off \<Rightarrow> ntohl (get32 (view_packet v) (off + 4))
      | Udp_hdr off \<Rightarrow> 0)"

lemma learn_mss_effect:
  assumes "learn_mss v off t = Inr t2"
  shows "\<exists>m. t2 = t\<lparr>mss := m\<rparr>"
proof -
  obtain mss_opt where "t2 = (case mss_opt of None \<Rightarrow> t | Some m \<Rightarrow> t\<lparr>mss := m\<rparr>)"
    using assms by (auto simp: learn_mss_def res)
  then show ?thesis
    by (cases mss_opt) (auto intro: exI [of _ "mss t"])
qed

lemma track_tcp_effect:
  assumes "track_tcp v conn = Inr conn'"
  shows "\<exists>t m. l4_state conn = Tcp t
    \<and> conn' = conn\<lparr>l4_state := Tcp (track_state (view_flags v) (t\<lparr>cur_seq := view_seq v, mss := m\<rparr>))\<rparr>"
proof -
  obtain off where v: "view_transport_hdr v = Tcp_hdr off"
    using assms by (cases "view_transport_hdr v") (auto simp: track_tcp_def)
  obtain t where t: "l4_state conn = Tcp t"
    using assms v by (cases "l4_state conn") (auto simp: track_tcp_def get_l4_tcp_def)
  obtain seq where seq: "tcp_seq (view_packet v) off = Inr seq"
    using assms v t by (cases "tcp_seq (view_packet v) off") (auto simp: track_tcp_def get_l4_tcp_def)
  obtain b where b: "load8 (view_packet v) (off + 13) = Inr b"
    using assms v t seq by (cases "load8 (view_packet v) (off + 13)") (auto simp: track_tcp_def get_l4_tcp_def)
  let ?t1 = "t\<lparr>cur_seq := ntohl seq\<rparr>"
  obtain t2 where t2: "(if syn (flags_of b) then learn_mss v off ?t1 else Inr ?t1) = Inr t2"
    and conn': "conn' = conn\<lparr>l4_state := Tcp (track_state (flags_of b) t2)\<rparr>"
    using assms v t seq b by (auto simp: track_tcp_def get_l4_tcp_def Let_def and_then_Inr_iff simp del: add_Suc_right)
  have "?t1 = ?t1\<lparr>mss := mss ?t1\<rparr>" by simp
  then obtain m where m: "t2 = ?t1\<lparr>mss := m\<rparr>"
    using t2 learn_mss_effect [of v off ?t1 t2] by (metis Inr_inject)
  have "flags_of b = view_flags v" using v b by (simp add: view_flags_def load_Inr_iff get8_def)
  moreover have "ntohl seq = view_seq v"
    using v seq by (simp add: view_seq_def tcp_seq_def load_Inr_iff)
  ultimately show ?thesis using t conn' m by auto
qed

text \<open>
  The life of a TCP connection in the table: created, then any number of tracked packets, and
  between them operations that leave the transport part alone (holding packets, the payload
  protocol, the done flag).
\<close>

inductive tracked :: "packet_view list \<Rightarrow> connection \<Rightarrow> bool" where
  created: "set_l4_proto IPPROTO_TCP new_connection = Inr conn \<Longrightarrow> tracked [] conn"
| packet: "tracked vs conn \<Longrightarrow> track now v conn = Inr conn' \<Longrightarrow> tracked (vs @ [v]) conn'"
| other: "tracked vs conn \<Longrightarrow> l4_state conn' = l4_state conn \<Longrightarrow> l4_proto conn' = l4_proto conn \<Longrightarrow>
    tracked vs conn'"

inductive_cases tracked_snocE: "tracked (vs @ [v]) conn"

definition saw_syn_ack :: "packet_view list \<Rightarrow> bool" where
  "saw_syn_ack vs \<longleftrightarrow> (\<exists>v\<in>set vs. syn (view_flags v) \<and> ack (view_flags v))"

definition saw_syn :: "packet_view list \<Rightarrow> u32 \<Rightarrow> bool" where
  "saw_syn vs s \<longleftrightarrow> (\<exists>v\<in>set vs. syn (view_flags v) \<and> \<not> ack (view_flags v) \<and> view_seq v = s)"

definition saw_handshake :: "packet_view list \<Rightarrow> bool" where
  "saw_handshake vs \<longleftrightarrow>
     (\<exists>before v after. vs = before @ v # after \<and> ack (view_flags v) \<and> saw_syn before (view_seq v - 1))"

lemma saw_snoc [intro]:
  "saw_syn_ack vs \<Longrightarrow> saw_syn_ack (vs @ [v])" "saw_syn vs s \<Longrightarrow> saw_syn (vs @ [v]) s"
  by (auto simp: saw_syn_ack_def saw_syn_def)

lemma saw_handshake_snoc [intro]:
  assumes "saw_handshake vs"
  shows "saw_handshake (vs @ [v])"
proof -
  obtain before w after where "vs = before @ w # after" "ack (view_flags w)" "saw_syn before (view_seq w - 1)"
    using assms by (auto simp: saw_handshake_def)
  then show ?thesis
    unfolding saw_handshake_def by (intro exI [of _ before] exI [of _ w] exI [of _ "after @ [v]"]) simp
qed

lemma saw_here [intro]:
  "syn (view_flags v) \<Longrightarrow> ack (view_flags v) \<Longrightarrow> saw_syn_ack (vs @ [v])"
  "syn (view_flags v) \<Longrightarrow> \<not> ack (view_flags v) \<Longrightarrow> view_seq v = s \<Longrightarrow> saw_syn (vs @ [v]) s"
  "ack (view_flags v) \<Longrightarrow> saw_syn vs (view_seq v - 1) \<Longrightarrow> saw_handshake (vs @ [v])"
  by (auto simp: saw_syn_ack_def saw_syn_def saw_handshake_def)

definition tcp_justified :: "packet_view list \<Rightarrow> tcp \<Rightarrow> bool" where
  "tcp_justified vs t \<longleftrightarrow>
     (state t = SYN \<longrightarrow> saw_syn vs (expected_seq t - 1))
     \<and> (state t \<in> {ESTAB, FIN} \<longrightarrow> saw_syn_ack vs \<or> saw_handshake vs)"

lemma tcp_justified_step:
  assumes "tcp_justified vs t"
  shows "tcp_justified (vs @ [v]) (track_state (view_flags v) (t\<lparr>cur_seq := view_seq v, mss := m\<rparr>))"
  using assms unfolding tcp_justified_def
  by (cases "state t") (auto simp: tcp_steps split: if_splits)

lemma track_l4:
  assumes "track now v conn = Inr conn'"
  shows "l4_proto conn' = l4_proto conn
    \<and> (l4_state conn' = l4_state conn
       \<or> (\<exists>t m. l4_state conn = Tcp t
            \<and> l4_state conn' = Tcp (track_state (view_flags v) (t\<lparr>cur_seq := view_seq v, mss := m\<rparr>))))"
  using assms
  by (auto simp: track_def track_transport_def track_udp_def res split: if_splits dest!: track_tcp_effect)

lemma tracked_justified:
  assumes "tracked vs conn"
  shows "l4_proto conn = IPPROTO_TCP \<and> (\<exists>t. l4_state conn = Tcp t \<and> tcp_justified vs t)"
  using assms
proof (induction rule: tracked.induct)
  case (packet vs conn now v conn')
  then obtain t where t: "l4_state conn = Tcp t" "tcp_justified vs t" by auto
  have "tcp_justified (vs @ [v]) t" using t(2) by (auto simp: tcp_justified_def)
  then show ?case
    using track_l4 [OF packet(2)] t tcp_justified_step [OF t(2)] packet.IH by auto
qed (auto simp: set_l4_proto_def new_tcp_def tcp_justified_def)

section \<open>The maximum segment size\<close>

fun mss_skips :: "tcp_option \<Rightarrow> bool" where
  "mss_skips (Other_option kind data) = (kind \<noteq> 1 \<and> kind \<noteq> 2 \<and> length data \<le> 253)"
| "mss_skips opt = True"

lemma mss_loop_option:
  assumes "bs = xs @ opt_bytes opt @ ys" "mss_skips opt" "length xs + length (opt_bytes opt) < e"
  shows "mss_loop bs (length xs) e = mss_loop bs (length xs + length (opt_bytes opt)) e"
proof (cases opt)
  case No_operation
  then have "load8 bs (length xs) = Inr 1" using assms(1) by (simp add: load8_def get8_def nth_append)
  moreover have "\<not> e \<le> length xs" "\<not> e - length xs < 2" using assms(3) No_operation by auto
  ultimately show ?thesis using mss_loop.simps [of bs "length xs" e] No_operation by simp
next
  case (Timestamps a b)
  then have "load8 bs (length xs) = Inr 8" "load8 bs (length xs + 1) = Inr 10"
    using assms(1) by (simp_all add: load8_def get8_def nth_append)
  moreover have "\<not> e \<le> length xs" "\<not> e - length xs < 2" "\<not> e - length xs < 10" "length (opt_bytes opt) = 10"
    using assms(3) Timestamps by auto
  ultimately show ?thesis using mss_loop.simps [of bs "length xs" e] by simp
next
  case (Other_option kind data)
  then have len: "unat (word_of_nat (length data + 2) :: byte) = length data + 2"
    using assms(2) by (intro unat_of_nat_small) simp
  then have "(word_of_nat (length data + 2) :: byte) \<noteq> 0" by (metis add_2_eq_Suc' nat.distinct(1) unat_0)
  moreover have "load8 bs (length xs) = Inr kind" "load8 bs (length xs + 1) = Inr (word_of_nat (length data + 2))"
    using assms(1) Other_option by (simp_all add: load8_def get8_def nth_append)
  moreover have "\<not> e \<le> length xs" "\<not> e - length xs < 2" "\<not> e - length xs < length data + 2"
      "kind \<noteq> 1" "kind \<noteq> 2" "length (opt_bytes opt) = length data + 2"
    using assms(2,3) Other_option by auto
  ultimately show ?thesis
    using mss_loop.simps [of bs "length xs" e] len by (simp del: of_nat_add)
qed

lemma mss_loop_skip:
  assumes "list_all mss_skips opts" "length xs + length (concat (map opt_bytes opts)) < e"
  shows "mss_loop (xs @ concat (map opt_bytes opts) @ ys) (length xs) e =
    mss_loop (xs @ concat (map opt_bytes opts) @ ys) (length xs + length (concat (map opt_bytes opts))) e"
  using assms
proof (induction opts arbitrary: xs)
  case (Cons opt opts)
  let ?bs = "xs @ concat (map opt_bytes (opt # opts)) @ ys"
  have "mss_loop ?bs (length xs) e = mss_loop ?bs (length (xs @ opt_bytes opt)) e"
    using Cons.prems mss_loop_option [of ?bs xs opt "concat (map opt_bytes opts) @ ys" e] by simp
  also have "\<dots> = mss_loop ?bs (length xs + length (concat (map opt_bytes (opt # opts)))) e"
    using Cons.IH [of "xs @ opt_bytes opt"] Cons.prems by (simp add: add.assoc)
  finally show ?case .
qed simp

text \<open>The option a SYN announces its maximum segment size with.\<close>

definition mss_option :: "u16 \<Rightarrow> tcp_option" where
  "mss_option m = Other_option 2 [byte_of 1 m, byte_of 0 m]"

lemma mss_loop_found:
  assumes "length xs + 4 \<le> e"
  shows "mss_loop (xs @ opt_bytes (mss_option m) @ ys) (length xs) e = Inr (Some (ucast m))"
proof -
  let ?bs = "xs @ opt_bytes (mss_option m) @ ys"
  have "load8 ?bs (length xs) = Inr 2" "load8 ?bs (length xs + 1) = Inr 4"
    "load16 ?bs (length xs + 2) = Inr (htons m)"
    by (simp_all add: mss_option_def load8_def load16_def get8_def get16_def nth_append htons_def)
  moreover have "\<not> e \<le> length xs" "\<not> e - length xs < 2" using assms by auto
  ultimately show ?thesis
    using mss_loop.simps [of ?bs "length xs" e] by simp
qed

lemma learn_mss_run:
  assumes "wf_packet p"
  shows "learn_mss (view_of p) (transport_offset p) t =
    and_then (parse_mss_opt (packet_bytes p) (transport_offset p) (payload_offset p - transport_offset p)) (\<lambda>mss_opt.
    Inr (case mss_opt of None \<Rightarrow> t | Some m \<Rightarrow> t\<lparr>mss := m\<rparr>))"
proof -
  note D = wf_packetD [OF assms]
  have L: "low_nibble (packet_bytes p ! 0) * 4 = transport_offset p"
    "high_nibble (packet_bytes p ! (transport_offset p + 12)) * 4 = payload_offset p - transport_offset p"
    using D by simp_all
  have "subspan_r (packet_bytes p) (transport_offset p) = Inr (drop (transport_offset p) (packet_bytes p))"
    "min (length (packet_bytes p) - transport_offset p) (payload_offset p - transport_offset p)
      = payload_offset p - transport_offset p"
    using D(2,4,6) by (simp_all add: subspan_r_def)
  then show ?thesis
    by (simp add: learn_mss_def wf_ihl [OF assms] wf_doff [OF assms] L)
qed

lemma track_tcp_run:
  assumes "wf_packet p" "l4_state conn = Tcp t"
  shows "track_tcp (view_of p) conn =
    and_then (if syn (view_flags (view_of p))
              then learn_mss (view_of p) (transport_offset p) (t\<lparr>cur_seq := seq_of p\<rparr>)
              else Inr (t\<lparr>cur_seq := seq_of p\<rparr>)) (\<lambda>t2.
    Inr (conn\<lparr>l4_state := Tcp (track_state (view_flags (view_of p)) t2)\<rparr>))"
  using wf_packetD [OF assms(1)] assms
  by (simp add: track_tcp_def get_l4_tcp_def wf_load_seq load8_def get8_def view_flags_def)

lemma track_state_mss [simp]: "mss (track_state fl t) = mss t"
  by (simp add: tcp_steps)

section \<open>Holding packets\<close>

text \<open>The packets a connection holds stand strictly in sequence order.\<close>

definition in_seq_order :: "u32 \<Rightarrow> packet list \<Rightarrow> bool" where
  "in_seq_order base ps \<longleftrightarrow> sorted_wrt (\<lambda>p q. seg_rel base (seg_of p) < seg_rel base (seg_of q)) ps"

text \<open>A packet as it comes out of the queue.\<close>

definition fresh_packet :: "packet \<Rightarrow> bool" where
  "fresh_packet p \<longleftrightarrow> wf_packet p \<and> \<not> is_fake_blob p
     \<and> action_action p = (if action_packet_id p \<noteq> 0 then ACCEPT else SEND)"

lemma create_fresh: "fresh_packet p \<Longrightarrow> create_packet (view_of p) = Inr p"
  by (simp add: fresh_packet_def create_packet_view_of)

lemma wf_viewed_seq [wf_run]: "wf_packet p \<Longrightarrow> viewed_seq p = Inr (seq_of p)"
  by (simp add: viewed_seq_def wf_run get_seq_def optional_value_def)

lemma wf_get_seq [wf_run]: "wf_packet p \<Longrightarrow> get_seq (view_of p) = Inr (Some (seq_of p))"
  by (simp add: wf_run get_seq_def)

lemma find_duplicate_run:
  assumes "list_all wf_packet ps" "wf_packet p"
  shows "find_duplicate (view_of p) ps = Inr (seq_of p \<in> seq_of ` set ps)"
  using assms by (induction ps) (auto simp: wf_run optional_value_def)

lemma insort_key_last:
  "\<forall>x\<in>set xs. f x < f a \<Longrightarrow> insort_key f a xs = xs @ [a]"
  by (induction xs) auto

lemma sort_key_snoc:
  assumes "sorted (map f xs)" "f a \<notin> f ` set xs"
  shows "sort_key f (xs @ [a]) = insort_key f a xs"
  using assms
proof (induction xs)
  case (Cons x xs)
  then have IH: "sort_key f (xs @ [a]) = insort_key f a xs" and ne: "f x \<noteq> f a"
    and le: "\<forall>y\<in>set xs. f x \<le> f y" by auto
  show ?case
  proof (cases "f a \<le> f x")
    case True
    then have "insort_key f a xs = a # xs" using le by (intro insort_is_Cons) (auto intro: order_trans)
    moreover have "insort_key f x xs = x # xs" using le by (rule insort_is_Cons)
    ultimately show ?thesis using IH True ne by (simp add: sort_key_def)
  next
    case False
    then have "\<forall>y\<in>set (insort_key f a xs). f x \<le> f y" using le by (auto simp: set_insort_key)
    then have "insort_key f x (insort_key f a xs) = x # insort_key f a xs" by (rule insort_is_Cons)
    then show ?thesis using IH False by (simp add: sort_key_def)
  qed
qed (simp add: sort_key_def)

lemma reasm_sort_run:
  assumes "l4_proto conn = IPPROTO_TCP" "list_all wf_packet (segs conn)"
    and "\<forall>p\<in>set (segs conn). seg_rel base (seg_of p) < 2 ^ 31"
  shows "reasm_sort conn = Inr (conn\<lparr>segs := sort_key (\<lambda>p. seg_rel base (seg_of p)) (segs conn)\<rparr>)"
proof -
  let ?k = "\<lambda>p. seg_rel base (seg_of p)" and ?keyed = "map (\<lambda>p. (seq_of p, p)) (segs conn)"
  have "map_r (\<lambda>p. and_then (viewed_seq p) (\<lambda>s. Inr (s, p))) (segs conn) = Inr ?keyed"
    using assms(2) by (intro map_r_total) (auto simp: wf_run list_all_iff)
  moreover have "sort_by (\<lambda>lhs rhs. seq_lt (fst lhs) (fst rhs)) ?keyed = Inr (sort_key (\<lambda>x. ?k (snd x)) ?keyed)"
  proof (rule sort_by_key)
    fix x y
    assume "x \<in> set ?keyed" "y \<in> set ?keyed"
    then show "seq_lt (fst x) (fst y) \<longleftrightarrow> ?k (snd x) < ?k (snd y)"
      using assms(3) seq_lt_window [of "fst x" base "fst y"] by (auto simp: seg_rel_def seg_of_def)
  qed
  moreover have "map snd (sort_key (\<lambda>x. ?k (snd x)) (map (\<lambda>p. (seq_of p, p)) ps)) = sort_key ?k ps" for ps
  proof (induction ps)
    case (Cons p ps)
    have "map snd (insort_key (\<lambda>x. ?k (snd x)) x xs) = insort_key ?k (snd x) (map snd xs)"
      for x :: "u32 \<times> packet" and xs by (induction xs) auto
    with Cons show ?case by (simp add: sort_key_def)
  qed (simp add: sort_key_def)
  ultimately show ?thesis using assms(1) by (simp add: reasm_sort_def)
qed

lemma in_seq_order_sorted: "in_seq_order base ps \<Longrightarrow> sorted (map (\<lambda>p. seg_rel base (seg_of p)) ps)"
  unfolding in_seq_order_def by (induction ps) auto

lemma in_seq_order_insort:
  assumes "in_seq_order base ps" "seg_rel base (seg_of p) \<notin> (\<lambda>p. seg_rel base (seg_of p)) ` set ps"
  shows "in_seq_order base (insort_key (\<lambda>p. seg_rel base (seg_of p)) p ps)"
  using assms unfolding in_seq_order_def
  by (induction ps) (force simp: set_insort_key)+

lemma seg_rel_inject: "seg_rel base (seg_of p) = seg_rel base (seg_of q) \<longleftrightarrow> seq_of p = seq_of q"
  unfolding seg_rel_def seg_of_def fst_conv by (metis diff_add_cancel word_unat_eq_iff)

lemma ucast_widen: "ucast (ucast (a :: u32) :: u64) = a"
  by transfer simp

lemma ucast_narrow_add: "(ucast (ucast (a :: u32) + word_of_nat n :: u64) :: u32) = a + word_of_nat n"
  by transfer (simp, simp only: take_bit_eq_mod mod_add_left_eq)

lemma in_seq_order_last:
  "in_seq_order base ps \<Longrightarrow> q \<in> set ps \<Longrightarrow> seg_rel base (seg_of q) \<le> seg_rel base (seg_of (last ps))"
  unfolding in_seq_order_def by (induction ps) (auto intro: less_imp_le)

definition ends_in_window :: "u32 \<Rightarrow> packet \<Rightarrow> bool" where
  "ends_in_window base p \<longleftrightarrow> seg_rel base (seg_of p) + length (payload_of p) < 2 ^ 31"

lemma follows_last_run:
  assumes "wf_packet p" "list_all wf_packet ps" "ps \<noteq> []"
    and "ends_in_window base p" "ends_in_window base (last ps)" "follows_last (view_of p) ps = Inr True"
  shows "seg_rel base (seg_of (last ps)) \<le> seg_rel base (seg_of p)"
proof -
  let ?l = "last ps"
  have w: "wf_packet ?l" using assms(2,3) by (simp add: list_all_iff)
  define n where "n = length (payload_of ?l)"
  have n: "n < 2 ^ 31" using assms(5) by (simp add: ends_in_window_def n_def)
  have eq: "(ucast (seq_of ?l) + word_of_nat n :: u64) = ucast (seq_of p)"
    using assms(6) w by (simp add: follows_last_def wf_get_seq [OF assms(1)] wf_run n_def)
  have "seq_of p = ucast (ucast (seq_of p) :: u64)" by (simp only: ucast_widen)
  also have "\<dots> = ucast (ucast (seq_of ?l) + word_of_nat n :: u64)" unfolding eq ..
  also have "\<dots> = seq_of ?l + word_of_nat n" by (rule ucast_narrow_add)
  finally have "seg_rel base (seg_of p) = seg_rel base (seq_of ?l + word_of_nat n, [])"
    by (simp add: seg_rel_def seg_of_def)
  also have "\<dots> = seg_rel base (seg_of ?l) + n"
    using rel_cut [of base "seg_of ?l" n "[]"] assms(5) by (simp add: ends_in_window_def seg_of_def n_def)
  finally show ?thesis by simp
qed

lemma reasm_insert_run:
  assumes "l4_proto conn = IPPROTO_TCP" "list_all wf_packet (segs conn)" "fresh_packet p"
    and "list_all (ends_in_window base) (p # segs conn)" "in_seq_order base (segs conn)"
  shows "reasm_insert (view_of p) conn =
    Inr (conn\<lparr>segs := if seq_of p \<in> seq_of ` set (segs conn) then segs conn
                      else insort_key (\<lambda>p. seg_rel base (seg_of p)) p (segs conn)\<rparr>)"
proof -
  let ?k = "\<lambda>p. seg_rel base (seg_of p)" and ?ps = "segs conn"
  have wp: "wf_packet p" using assms(3) by (simp add: fresh_packet_def)
  show ?thesis
  proof (cases "?ps = []")
    case True
    then show ?thesis by (simp add: reasm_insert_def create_fresh [OF assms(3)])
  next
    case False
    have dup: "reasm_is_duplicate (view_of p) conn = Inr (seq_of p \<in> seq_of ` set ?ps)"
      using find_duplicate_run [OF assms(2) wp] by (simp add: reasm_is_duplicate_def)
    show ?thesis
    proof (cases "seq_of p \<in> seq_of ` set ?ps")
      case True
      then show ?thesis using False dup by (simp add: reasm_insert_def)
    next
      case new: False
      then have fresh: "?k p \<notin> ?k ` set ?ps" by (auto simp: seg_rel_inject)
      have w: "wf_packet (last ?ps)" using assms(2) False by (simp add: list_all_iff)
      obtain in_order where fl: "follows_last (view_of p) ?ps = Inr in_order"
        by (simp add: follows_last_def wf_get_seq [OF wp] wf_viewed_seq [OF w] wf_payload [OF w])
      have sort: "reasm_sort (conn\<lparr>segs := ?ps @ [p]\<rparr>) = Inr (conn\<lparr>segs := insort_key ?k p ?ps\<rparr>)"
      proof -
        have "\<forall>q\<in>set (?ps @ [p]). ?k q < 2 ^ 31"
          using assms(4) by (auto simp: ends_in_window_def list_all_iff)
        then have "reasm_sort (conn\<lparr>segs := ?ps @ [p]\<rparr>) = Inr (conn\<lparr>segs := sort_key ?k (?ps @ [p])\<rparr>)"
          using assms(1,2) wp by (subst reasm_sort_run [where base = base]) auto
        then show ?thesis
          using sort_key_snoc [OF in_seq_order_sorted [OF assms(5)] fresh] by simp
      qed
      have snoc: "?ps @ [p] = insort_key ?k p ?ps" if in_order
      proof -
        have last: "?k (last ?ps) \<le> ?k p"
          using follows_last_run [OF wp assms(2) False] assms(4) fl that False by (simp add: list_all_iff)
        have "?k q < ?k p" if q: "q \<in> set ?ps" for q
        proof -
          have "?k q \<le> ?k (last ?ps)"
            using q by (rule in_seq_order_last [OF assms(5)])
          moreover have "?k q \<noteq> ?k p" using fresh q by (metis imageI)
          ultimately show ?thesis using last by linarith
        qed
        then show ?thesis by (simp add: insort_key_last)
      qed
      show ?thesis
        using False new dup fl sort snoc by (cases in_order) (simp_all add: reasm_insert_def create_fresh [OF assms(3)])
    qed
  qed
qed

section \<open>The table as a store\<close>

text \<open>
  What the packet loop relies on when it asks for a connection, changes it through the iterator
  and asks again later.
\<close>

locale conn_store =
  fixes lookup :: "'s \<Rightarrow> 'k \<Rightarrow> 'v option"
    and acquire :: "'k \<Rightarrow> 's \<Rightarrow> ('v \<times> 's) result"
    and put :: "'k \<Rightarrow> 'v \<Rightarrow> 's \<Rightarrow> 's"
  assumes acquire_found: "lookup s k = Some v \<Longrightarrow> acquire k s = Inr (v, s)"
    and acquire_lookup: "acquire k s = Inr (v, s') \<Longrightarrow> lookup s' k = Some v"
    and acquire_other: "acquire k s = Inr (v, s') \<Longrightarrow> k' \<noteq> k \<Longrightarrow> lookup s' k' = lookup s k'"
    and put_lookup: "lookup s k = Some w \<Longrightarrow> lookup (put k v s) k = Some v"
    and put_other: "k' \<noteq> k \<Longrightarrow> lookup (put k v s) k' = lookup s k'"
begin

lemma session_again:
  assumes "acquire k s = Inr (v, s')"
  shows "acquire k (put k w s') = Inr (w, put k w s')"
  using put_lookup [OF acquire_lookup [OF assms]] by (rule acquire_found)

lemma session_other:
  assumes "acquire k s = Inr (v, s')" "k' \<noteq> k"
  shows "lookup (put k w s') k' = lookup s k'"
  using put_other [OF assms(2)] acquire_other [OF assms] by simp

end

lemma get_conn_cases:
  assumes "get_conn key conns = Inr (conn, conns')"
  shows "find_conn conns key = Some conn \<and> conns' = conns
    \<or> find_conn conns key = None \<and> conns' = (key, conn) # conns"
  using assms by (cases key) (auto simp: res Let_def split: option.splits)

lemma find_update_conn:
  "find_conn (update_conn key conn conns) k =
     (if k = key then map_option (\<lambda>_. conn) (find_conn conns key) else find_conn conns k)"
  by (induction conns) (auto simp: update_conn_def find_conn_def)

interpretation table: conn_store find_conn get_conn update_conn
proof
  show "get_conn k s = Inr (v, s)" if "find_conn s k = Some v" for s k v
    using that by (cases k) simp
  show "find_conn s' k = Some v" if "get_conn k s = Inr (v, s')" for k s v s'
    using get_conn_cases [OF that] by (auto simp: find_conn_def)
  show "find_conn s' k' = find_conn s k'" if "get_conn k s = Inr (v, s')" "k' \<noteq> k" for k s v s' k'
    using get_conn_cases [OF that(1)] that(2) by (auto simp: find_conn_def)
qed (simp_all add: find_update_conn)

fun_cases get_conn_InrE: "get_conn key conns = Inr r"

text \<open>Every connection the table ever holds has the state its protocol needs.\<close>

definition wf_conn :: "connection \<Rightarrow> bool" where
  "wf_conn conn \<longleftrightarrow> (l4_proto conn = IPPROTO_TCP \<longrightarrow> (\<exists>t. l4_state conn = Tcp t))"

definition timeout_of :: "connection \<Rightarrow> int" where
  "timeout_of conn =
     (if l4_proto conn = IPPROTO_TCP
      then (case l4_state conn of Tcp t \<Rightarrow> timeout_for_tcp_state (state t) | _ \<Rightarrow> 0)
      else DEFAULT_CONNECTION_TIMEOUT_SECS)"

lemma calculate_timeout_run: "wf_conn conn \<Longrightarrow> calculate_timeout conn = Inr (timeout_of conn)"
  by (auto simp: wf_conn_def calculate_timeout_def timeout_of_def get_l4_tcp_def)

definition expired :: "int \<Rightarrow> connection \<Rightarrow> bool" where
  "expired now conn \<longleftrightarrow> timeout_of conn \<le> elapsed_seconds now (last_packet_time conn)"

lemma clear_dead_run:
  assumes "list_all (\<lambda>(k, conn). wf_conn conn) conns"
  shows "clear_dead_connections now conns =
    Inr (concat (map (\<lambda>(k, conn). map action_packet_id (segs conn)) (filter (\<lambda>(k, conn). expired now conn) conns)),
         filter (\<lambda>(k, conn). \<not> expired now conn) conns)"
  using assms
proof (induction conns)
  case (Cons entry conns)
  then show ?case by (cases entry) (simp add: calculate_timeout_run expired_def)
qed simp

lemma get_conn_wf:
  assumes "get_conn key conns = Inr (conn, conns')" "list_all (\<lambda>(k, conn). wf_conn conn) conns"
  shows "list_all (\<lambda>(k, conn). wf_conn conn) conns'"
  using assms
  by (cases key)
    (auto simp: res Let_def set_l4_proto_def wf_conn_def split: option.splits if_splits)

section \<open>Properties\<close>

text \<open>C11. A TCP connection is taken for established, or for closing, only after a SYN+ACK or after a
  SYN and a later packet that acknowledges with exactly the next sequence number, whatever other
  packets and operations come in between.\<close>

theorem established_after_handshake:
  assumes "tracked vs conn" "l4_state conn = Tcp t" "state t \<in> {ESTAB, FIN}"
  shows "saw_syn_ack vs \<or> saw_handshake vs"
  using tracked_justified [OF assms(1)] assms(2,3) by (auto simp: tcp_justified_def)

text \<open>Tracking a packet never moves the TCP state backwards, so a closed connection stays closed,
  and it counts the packet, adds its payload to the byte count and stamps the time.\<close>

theorem track_progress:
  assumes "track now v conn = Inr conn'"
  shows "(\<forall>t t'. l4_state conn = Tcp t \<and> l4_state conn' = Tcp t' \<longrightarrow> state t \<le> state t')
    \<and> packet_count conn' = packet_count conn + 1 \<and> last_packet_time conn' = now
    \<and> pl_bytes_transfered conn' = pl_bytes_transfered conn + word_of_nat (length (view_payload v))
    \<and> segs conn' = segs conn"
proof -
  have "state t \<le> state t'" if "l4_state conn = Tcp t" "l4_state conn' = Tcp t'" for t t'
    using track_l4 [OF assms] that track_state_progress [of "t\<lparr>cur_seq := view_seq v, mss := m\<rparr>" "view_flags v" for m]
    by auto
  moreover have "packet_count conn' = packet_count conn + 1 \<and> last_packet_time conn' = now
      \<and> pl_bytes_transfered conn' = pl_bytes_transfered conn + word_of_nat (length (view_payload v))
      \<and> segs conn' = segs conn"
    using assms
    by (auto simp: track_def track_transport_def track_udp_def res split: if_splits dest!: track_tcp_effect)
  ultimately show ?thesis by blast
qed

text \<open>A SYN that announces a maximum segment size, after any options that are not cut short,
  sets exactly that size.\<close>

theorem syn_sets_mss:
  assumes "wf_packet p" "options_of p = concat (map opt_bytes (pre @ mss_option m # post))"
    and "list_all mss_skips pre" "syn (view_flags (view_of p))" "l4_state conn = Tcp t"
  shows "\<exists>t'. track_tcp (view_of p) conn = Inr (conn\<lparr>l4_state := Tcp t'\<rparr>) \<and> mss t' = ucast m"
proof -
  note P = packet_bytes_parts [OF assms(1)]
  let ?fx = "fixed_headers_of p" and ?pre = "concat (map opt_bytes pre)"
    and ?rest = "concat (map opt_bytes post) @ payload_of p"
  let ?e = "length ?fx + length (options_of p)"
  have bs: "packet_bytes p = ?fx @ ?pre @ opt_bytes (mss_option m) @ ?rest" using P(1) assms(2) by simp
  have len: "length (options_of p) = length ?pre + 4 + length (concat (map opt_bytes post))"
    using assms(2) by (simp add: mss_option_def)
  have "mss_loop (packet_bytes p) (length ?fx) ?e = mss_loop (packet_bytes p) (length ?fx + length ?pre) ?e"
    unfolding bs using assms(3) by (rule mss_loop_skip) (simp add: len)
  also have "\<dots> = Inr (Some (ucast m))"
    using mss_loop_found [of "?fx @ ?pre" ?e m ?rest] bs len by simp
  finally have "mss_loop (packet_bytes p) (length ?fx) ?e = Inr (Some (ucast m))" .
  moreover have "transport_offset p + (payload_offset p - transport_offset p) = ?e"
      "transport_offset p + sizeof_tcphdr = length ?fx" "\<not> payload_offset p - transport_offset p \<le> sizeof_tcphdr"
    using P(2,3) wf_packetD(4) [OF assms(1)] len by (simp_all add: sizeof_tcphdr_def)
  ultimately have "parse_mss_opt (packet_bytes p) (transport_offset p) (payload_offset p - transport_offset p)
      = Inr (Some (ucast m))"
    by (simp add: parse_mss_opt_def)
  then show ?thesis
    using assms(4)
    by (intro exI [of _ "track_state (view_flags (view_of p)) (t\<lparr>cur_seq := seq_of p, mss := ucast m\<rparr>)"])
      (simp add: track_tcp_run [OF assms(1,5)] learn_mss_run [OF assms(1)])
qed

text \<open>C39. A SYN without any TCP option sets the maximum segment size to zero, not to the default of
  536 bytes: \<open>return false\<close> in a function that returns an optional number is the number zero.\<close>

theorem syn_without_options_zero_mss:
  assumes "wf_packet p" "options_of p = []" "syn (view_flags (view_of p))" "l4_state conn = Tcp t"
  shows "\<exists>t'. track_tcp (view_of p) conn = Inr (conn\<lparr>l4_state := Tcp t'\<rparr>) \<and> mss t' = 0"
proof -
  have "payload_offset p - transport_offset p \<le> sizeof_tcphdr"
    using packet_bytes_parts(3) [OF assms(1)] assms(2) by (simp add: sizeof_tcphdr_def)
  then have "parse_mss_opt (packet_bytes p) (transport_offset p) (payload_offset p - transport_offset p) = Inr (Some 0)"
    by (simp add: parse_mss_opt_def)
  then show ?thesis
    using assms(3)
    by (intro exI [of _ "track_state (view_flags (view_of p)) (t\<lparr>cur_seq := seq_of p, mss := 0\<rparr>)"])
      (simp add: track_tcp_run [OF assms(1,4)] learn_mss_run [OF assms(1)])
qed

text \<open>C12. Holding a packet keeps the held packets well-formed and strictly in sequence order, also
  across the wrap-around of the sequence numbers; the packet is added once, and a retransmission of
  a held sequence number changes nothing.\<close>

theorem reasm_insert_in_order:
  assumes "l4_proto conn = IPPROTO_TCP" "list_all wf_packet (segs conn)" "fresh_packet p"
    and "list_all (ends_in_window base) (p # segs conn)" "in_seq_order base (segs conn)"
  shows "\<exists>conn'. reasm_insert (view_of p) conn = Inr conn' \<and> conn' = conn\<lparr>segs := segs conn'\<rparr>
    \<and> list_all wf_packet (segs conn') \<and> in_seq_order base (segs conn')
    \<and> mset (segs conn') = mset (segs conn) + (if seq_of p \<in> seq_of ` set (segs conn) then {#} else {#p#})"
proof -
  have "wf_packet p" using assms(3) by (simp add: fresh_packet_def)
  then have "list_all wf_packet (insort_key f p (segs conn))" for f :: "packet \<Rightarrow> nat"
    using assms(2) by (simp add: list_all_iff set_insort_key)
  moreover have "in_seq_order base (insort_key (\<lambda>p. seg_rel base (seg_of p)) p (segs conn))"
    if "seq_of p \<notin> seq_of ` set (segs conn)"
    using that by (intro in_seq_order_insort assms(5)) (auto simp: seg_rel_inject)
  ultimately show ?thesis
    using assms(2,5) by (simp add: reasm_insert_run [OF assms])
qed

text \<open>Working on one connection through the iterator the table returned changes that connection
  only, and the next request for the same five-tuple finds it as it was left.\<close>

theorem get_conn_session:
  assumes "get_conn key conns = Inr (conn, conns')"
  shows "get_conn key (update_conn key conn2 conns') = Inr (conn2, update_conn key conn2 conns')
    \<and> (\<forall>k. k \<noteq> key \<longrightarrow> find_conn (update_conn key conn2 conns') k = find_conn conns k)"
  using table.session_again [OF assms] table.session_other [OF assms] by simp

text \<open>C26. Clearing the table removes exactly the connections whose last packet is at least their
  timeout old, accepts every packet they hold once, and keeps the others with what they hold.\<close>

theorem clear_dead_connections_correct:
  assumes "list_all (\<lambda>(k, conn). wf_conn conn) conns"
  shows "\<exists>ids rest. clear_dead_connections now conns = Inr (ids, rest)
    \<and> rest = filter (\<lambda>(k, conn). \<not> expired now conn) conns
    \<and> mset ids + mset (concat (map (\<lambda>(k, conn). map action_packet_id (segs conn)) rest))
      = mset (concat (map (\<lambda>(k, conn). map action_packet_id (segs conn)) conns))"
proof -
  have "mset (concat (map f (filter P xs))) + mset (concat (map f (filter (\<lambda>x. \<not> P x) xs))) = mset (concat (map f xs))"
    for f :: "conn_key \<times> connection \<Rightarrow> u32 list" and P xs by (induction xs) auto
  from this [of _ "\<lambda>(k, conn). expired now conn"] show ?thesis
    by (simp add: clear_dead_run [OF assms] case_prod_beta')
qed

text \<open>A handshake, option bytes and held packets for concrete runs.\<close>

definition tcp_connection :: connection where
  "tcp_connection = new_connection\<lparr>l4_proto := IPPROTO_TCP, l4_state := Tcp new_tcp\<rparr>"

definition syn_view :: packet_view where
  "syn_view = view_of (packet_of (sample_bytes[33 := 2]) 1)"

definition ack_view :: packet_view where
  "ack_view = view_of (packet_of ((put32 sample_bytes 24 (htonl 1001))[33 := 16]) 2)"

definition syn_with :: "byte list \<Rightarrow> packet" where
  "syn_with opts = packet_of ((take 40 sample_bytes)[32 := word_of_nat (4 * (20 + length opts)), 33 := 2] @ opts) 1"

lemma sample_handshake:
  "\<exists>c1 c2 t. track 5 syn_view tcp_connection = Inr c1 \<and> track 6 ack_view c1 = Inr c2
     \<and> l4_state c2 = Tcp t \<and> state t = ESTAB"
proof -
  have "case and_then (track 5 syn_view tcp_connection) (track 6 ack_view) of
      Inl e \<Rightarrow> False | Inr c \<Rightarrow> (case l4_state c of Tcp t \<Rightarrow> state t = ESTAB | _ \<Rightarrow> False)"
    by code_simp
  then show ?thesis by (auto simp: and_then_def split: sum.splits l4_state.splits)
qed

lemma established_after_handshake_witness:
  "\<exists>c1 c2. track 5 syn_view tcp_connection = Inr c1 \<and> track 6 ack_view c1 = Inr c2
     \<and> (saw_syn_ack [syn_view, ack_view] \<or> saw_handshake [syn_view, ack_view])"
proof -
  obtain c1 c2 t where run: "track 5 syn_view tcp_connection = Inr c1" "track 6 ack_view c1 = Inr c2"
    "l4_state c2 = Tcp t" "state t = ESTAB" using sample_handshake by blast
  have "tracked [] tcp_connection"
    by (rule tracked.created) (simp add: set_l4_proto_def tcp_connection_def)
  then have "tracked ([] @ [syn_view]) c1" using run(1) by (rule tracked.packet)
  then have "tracked (([] @ [syn_view]) @ [ack_view]) c2" using run(2) by (rule tracked.packet)
  then show ?thesis using established_after_handshake [of "[syn_view, ack_view]" c2 t] run by auto
qed

lemma track_progress_witness:
  "\<exists>c1. track 5 syn_view tcp_connection = Inr c1 \<and> packet_count c1 = 1 \<and> last_packet_time c1 = 5"
proof -
  obtain c1 where run: "track 5 syn_view tcp_connection = Inr c1" using sample_handshake by blast
  then show ?thesis using track_progress [OF run] by (simp add: tcp_connection_def new_connection_def)
qed

lemma sample_syn:
  "wf_packet (syn_with [1, 2, 4, 0x05, 0xB4, 1, 1, 1])"
  "options_of (syn_with [1, 2, 4, 0x05, 0xB4, 1, 1, 1]) =
     concat (map opt_bytes ([No_operation] @ mss_option 1460 # [No_operation, No_operation, No_operation]))"
  "syn (view_flags (view_of (syn_with [1, 2, 4, 0x05, 0xB4, 1, 1, 1])))"
  "wf_packet (syn_with [])" "options_of (syn_with []) = []" "syn (view_flags (view_of (syn_with [])))"
  by code_simp+

lemma syn_sets_mss_witness:
  "\<exists>t'. track_tcp (view_of (syn_with [1, 2, 4, 0x05, 0xB4, 1, 1, 1])) tcp_connection =
      Inr (tcp_connection\<lparr>l4_state := Tcp t'\<rparr>) \<and> mss t' = 1460"
  using syn_sets_mss [OF sample_syn(1,2) _ sample_syn(3), of tcp_connection new_tcp]
  by (simp add: tcp_connection_def)

lemma syn_without_options_zero_mss_witness:
  "\<exists>t'. track_tcp (view_of (syn_with [])) tcp_connection = Inr (tcp_connection\<lparr>l4_state := Tcp t'\<rparr>) \<and> mss t' = 0"
  using syn_without_options_zero_mss [OF sample_syn(4-6), of tcp_connection new_tcp]
  by (simp add: tcp_connection_def)

lemma sample_hold:
  "list_all (ends_in_window 1000) sample_pair" "list_all fresh_packet sample_pair"
proof -
  have "list_all (ends_in_window 1000) sample_pair \<longleftrightarrow>
      list_all (\<lambda>s. seg_rel 1000 s + length (snd s) < 2 ^ 31) (map seg_of sample_pair)"
    by (simp add: list.pred_map comp_def ends_in_window_def [abs_def] seg_of_def)
  then show "list_all (ends_in_window 1000) sample_pair"
    unfolding sample_pair_segs by (simp add: seg_rel_def)
  show "list_all fresh_packet sample_pair" by code_simp
qed

lemma reasm_insert_in_order_witness:
  "\<exists>conn'. reasm_insert (view_of (sample_pair ! 1)) (tcp_connection\<lparr>segs := [sample_pair ! 0]\<rparr>) = Inr conn'
     \<and> in_seq_order 1000 (segs conn') \<and> mset (segs conn') = mset sample_pair"
proof -
  let ?c = "tcp_connection\<lparr>segs := [sample_pair ! 0]\<rparr>"
  have new: "seq_of (sample_pair ! 1) \<notin> seq_of ` set (segs ?c)"
  proof -
    have "seq_of (sample_pair ! 1) \<noteq> seq_of (sample_pair ! 0)" by code_simp
    then show ?thesis by simp
  qed
  have pair: "mset sample_pair = mset (segs ?c) + {#sample_pair ! 1#}" by (simp add: sample_pair_def)
  have "l4_proto ?c = IPPROTO_TCP" by (simp add: tcp_connection_def)
  moreover have "list_all wf_packet (segs ?c)" "fresh_packet (sample_pair ! 1)"
      "list_all (ends_in_window 1000) (sample_pair ! 1 # segs ?c)"
    using sample_pair_wf sample_hold by (simp_all add: sample_pair_def)
  moreover have "in_seq_order 1000 (segs ?c)" by (simp add: in_seq_order_def)
  ultimately obtain conn' where "reasm_insert (view_of (sample_pair ! 1)) ?c = Inr conn'"
      "in_seq_order 1000 (segs conn')"
      "mset (segs conn') = mset (segs ?c) + (if seq_of (sample_pair ! 1) \<in> seq_of ` set (segs ?c) then {#} else {#sample_pair ! 1#})"
    using reasm_insert_in_order by blast
  then show ?thesis using new pair by (intro exI [of _ conn']) simp
qed

lemma get_conn_session_witness:
  "get_conn (1, 2, 3, 4, 6) (update_conn (1, 2, 3, 4, 6) (tcp_connection\<lparr>source_addr := 1, is_done := True\<rparr>)
       [((1, 2, 3, 4, 6), tcp_connection\<lparr>source_addr := 1\<rparr>)])
   = Inr (tcp_connection\<lparr>source_addr := 1, is_done := True\<rparr>,
       update_conn (1, 2, 3, 4, 6) (tcp_connection\<lparr>source_addr := 1, is_done := True\<rparr>)
         [((1, 2, 3, 4, 6), tcp_connection\<lparr>source_addr := 1\<rparr>)])"
proof -
  have "get_conn (1, 2, 3, 4, 6) [] = Inr (tcp_connection\<lparr>source_addr := 1\<rparr>, [((1, 2, 3, 4, 6), tcp_connection\<lparr>source_addr := 1\<rparr>)])"
    by (simp add: find_conn_def set_l4_proto_def IPPROTO_TCP_def tcp_connection_def Let_def)
  from get_conn_session [OF this] show ?thesis by blast
qed

lemma clear_dead_connections_correct_witness:
  "\<exists>ids rest. clear_dead_connections 61000000000 [((1, 2, 3, 4, 6), tcp_connection)] = Inr (ids, rest) \<and> rest = []"
proof -
  have "wf_conn tcp_connection" "expired 61000000000 tcp_connection"
    by (simp_all add: wf_conn_def tcp_connection_def expired_def timeout_of_def new_tcp_def elapsed_seconds_def
        new_connection_def DEFAULT_CONNECTION_TIMEOUT_SECS_def)
  then show ?thesis
    using clear_dead_connections_correct [of "[((1, 2, 3, 4, 6), tcp_connection)]" 61000000000]
    by (auto simp del: clear_dead_connections.simps)
qed

end
