(* ===== verification/Modifiers.thy ===== *)
theory Modifiers
  imports Split Conntrack
begin

text \<open>
  What the two modifiers share: their arguments, the context and the surroundings a modification
  runs in, the overlapping first segment, and the passes guarded by options. The modifiers
  themselves are \<open>Splitter\<close> and \<open>Disorder\<close>.
\<close>

section \<open>Arguments and context\<close>

record modifier_args =
  splits :: "position list"
  fake_blob :: "byte list option"
  badcksum :: bool
  seq_offset :: "i32 option"
  ts_offset :: "i32 option"
  arg_ttl :: "byte option"
  l7_payload :: "l7_proto option"
  seqovl_pat :: "byte list option"

record modify_context =
  ctx_full_payload :: "byte list"
  ctx_markers :: markers
  ctx_conn :: connection

text \<open>
  What the source leaves to its surroundings: the values of \<open>rand()\<close> (by loop and position), the
  MTU of an interface, whether an insertion that grows the vector reallocates it, which decides if
  iterators taken before stay valid, and whether a filter view over a vector caches an iterator or
  a position.
\<close>

record environment =
  rand_at :: "nat \<Rightarrow> nat \<Rightarrow> u32"
  iface_mtu :: "u32 \<Rightarrow> (string + i32) result"
  reallocates :: bool
  view_caches_iterator :: bool

definition matches :: "('a modifier_args_scheme) \<Rightarrow> connection \<Rightarrow> bool" where
  "matches args conn =
     (case l7_payload args of Some proto \<Rightarrow> payload_proto conn = proto | None \<Rightarrow> True)"

section \<open>Guarded passes\<close>

definition original :: "packet \<Rightarrow> bool" where "original p \<longleftrightarrow> \<not> is_fake_blob p"

text \<open>
  A filter view caches where it begins the first time it is used. When the library caches an
  iterator, a view that was used before the vector was changed under it is stale, and using it
  again is undefined; a cached position (libstdc++ does this for vectors) stays right, because what
  is inserted before the next use stands at the place of the first packet and is admitted like it.
\<close>

definition through_view :: "bool \<Rightarrow> (packet list \<Rightarrow> packet list result) \<Rightarrow> packet list \<Rightarrow> packet list result" where
  "through_view stale pass packets = (if stale then Inl Invalid_iterator else pass packets)"

definition ttl_pass :: "'a modifier_args_scheme \<Rightarrow> (packet \<Rightarrow> bool) \<Rightarrow> packet list \<Rightarrow> packet list result" where
  "ttl_pass args P packets =
     (case arg_ttl args of None \<Rightarrow> Inr packets | Some ttl \<Rightarrow> ipv4_ttl P ttl packets)"

definition ts_pass ::
  "'a modifier_args_scheme \<Rightarrow> connection \<Rightarrow> (packet \<Rightarrow> bool) \<Rightarrow> packet list \<Rightarrow> packet list result" where
  "ts_pass args conn P packets =
     (case ts_offset args of
        None \<Rightarrow> Inr packets
      | Some off \<Rightarrow> if l4_proto conn = IPPROTO_TCP then timestamp_offset P off packets else Inr packets)"

definition seq_pass ::
  "'a modifier_args_scheme \<Rightarrow> connection \<Rightarrow> bool \<Rightarrow> (packet \<Rightarrow> bool) \<Rightarrow> packet list \<Rightarrow> packet list result" where
  "seq_pass args conn stale P packets =
     (case seq_offset args of
        None \<Rightarrow> Inr packets
      | Some off \<Rightarrow>
          if l4_proto conn = IPPROTO_TCP then through_view stale (sequence_offset P off) packets
          else Inr packets)"

definition cksum_pass ::
  "'a modifier_args_scheme \<Rightarrow> connection \<Rightarrow> bool \<Rightarrow> (packet \<Rightarrow> bool) \<Rightarrow> (nat \<Rightarrow> u32) \<Rightarrow>
     packet list \<Rightarrow> packet list result" where
  "cksum_pass args conn stale P rnd packets =
     (if badcksum args then
        if l4_proto conn = IPPROTO_TCP then through_view stale (badchecksum P rnd (l4_proto conn)) packets
        else badchecksum P rnd (l4_proto conn) packets
      else Inr packets)"

definition split_passes :: "'a modifier_args_scheme \<Rightarrow> modify_context \<Rightarrow> packet list \<Rightarrow> packet list result" where
  "split_passes args ctx =
     fold_r (split_pass (ctx_markers ctx) (payload_proto (ctx_conn ctx))) (splits args)"

section \<open>The overlapping segment\<close>

text \<open>
  The pattern loop: \<open>remaining\<close> bytes from position \<open>at\<close> on. An empty pattern never shrinks the
  span, so the loop does not end.
\<close>

function fill_pattern :: "byte list \<Rightarrow> nat \<Rightarrow> nat \<Rightarrow> byte list \<Rightarrow> byte list result" where
  "fill_pattern pat remaining at buf =
     (if remaining = 0 then Inr buf
      else if pat = [] then Inl Diverges
      else
        let chunk_size = min (length pat) remaining in
        and_then (copy_into buf at (take chunk_size pat))
          (fill_pattern pat (remaining - chunk_size) (at + chunk_size)))"
  by pat_completeness auto

termination fill_pattern
  by (relation "measure (\<lambda>(_, remaining, _, _). remaining)") auto

declare fill_pattern.simps [simp del]

definition max_vector_size :: nat where "max_vector_size = 2 ^ 63 - 1"

text \<open>
  The new payload: \<open>n\<close> bytes of pattern or zeros, then the old payload. \<open>n\<close> has been converted to
  \<open>std::size_t\<close>; as a \<open>std::ptrdiff_t\<close> it may be negative.
\<close>

definition overlap_payload :: "byte list option \<Rightarrow> u64 \<Rightarrow> byte list \<Rightarrow> byte list result" where
  "overlap_payload pat n pl =
     (let total_size = unat (word_of_nat (length pl) + n) in
      if max_vector_size < total_size
      then Inl (Logic_error ''cannot create std::vector larger than max_size()'')
      else
        and_then
          (case pat of
             None \<Rightarrow> Inr (replicate total_size 0)
           | Some p \<Rightarrow> fill_pattern p (unat n) 0 (replicate total_size 0)) (\<lambda>buf.
        if sint n < 0 then Inl Out_of_bounds else copy_into buf (unat n) pl))"

definition mss_for :: "environment \<Rightarrow> connection \<Rightarrow> packet \<Rightarrow> u64 \<Rightarrow> u64 result" where
  "mss_for env conn packet tcp_size =
     and_then (get_mss (iface_mtu env) conn) (\<lambda>(m, _).
     and_then (ip_ihl (packet_bytes packet) (network_offset packet)) (\<lambda>ihl.
     and_then (tcp_doff (packet_bytes packet) (transport_offset packet)) (\<lambda>doff.
     Inr (scast m - (word_of_nat (ihl * 4) - word_of_nat sizeof_iphdr)
            - (word_of_nat (doff * 4) - tcp_size)))))"

text \<open>The else branch of both \<open>seqovl\<close> functions: one packet that replaces \<open>packet\<close>.\<close>

definition overlap_packet :: "packet_view \<Rightarrow> packet \<Rightarrow> byte list \<Rightarrow> u32 \<Rightarrow> packet result" where
  "overlap_packet view packet new_payload n =
     and_then (create_packet_from view new_payload) (\<lambda>created.
     let new_packet =
       (if action_action packet = SEND
        then created\<lparr>is_fake_blob := is_fake_blob packet, action_action := SEND\<rparr>
        else created\<lparr>is_fake_blob := is_fake_blob packet, action_action := DROP_AND_SEND,
               action_packet_id := action_packet_id packet\<rparr>) in
     and_then (tcp_seq (packet_bytes new_packet) (transport_offset new_packet)) (\<lambda>seq.
     and_then (store32 (packet_bytes new_packet) (transport_offset new_packet + 4)
                 (htonl (ntohl seq - n))) (\<lambda>bs.
     calc_packet_checksum (new_packet\<lparr>packet_bytes := bs\<rparr>))))"

text \<open>Replaces the packet at \<open>i\<close>; the flag tells that the vector was erased from and inserted into.\<close>

definition overlap_at ::
  "environment \<Rightarrow> connection \<Rightarrow> byte list option \<Rightarrow> u64 \<Rightarrow> u64 \<Rightarrow> nat \<Rightarrow> packet list \<Rightarrow>
     (packet list \<times> nat) result" where
  "overlap_at env conn pat n tcp_size i packets =
     (let packet = packets ! i in
      and_then (parse_packet_view_of packet) (\<lambda>view.
      and_then (payload packet) (\<lambda>pl.
      and_then (overlap_payload pat n pl) (\<lambda>new_payload.
      and_then (mss_for env conn packet tcp_size) (\<lambda>mss.
      if unat mss < length new_payload then
        and_then (packet_seq packet) (\<lambda>seq.
        and_then (segmentize new_payload (unat mss) packet (seq - ucast n)) (\<lambda>splitted.
        Inr (take i packets @ splitted @ drop (i + 1) packets, length splitted)))
      else
        and_then (overlap_packet view packet new_payload (ucast n)) (\<lambda>new_packet.
        Inr (packets[i := new_packet], 0)))))))"

text \<open>\<open>std::ranges::find_if\<close> for the first packet that is not fake; the length is the end.\<close>

fun first_original :: "packet list \<Rightarrow> nat" where
  "first_original [] = 0"
| "first_original (p # ps) = (if original p then 0 else first_original ps + 1)"

section \<open>The fake packet\<close>

definition make_fake :: "byte list \<Rightarrow> packet list \<Rightarrow> packet result" where
  "make_fake blob packets =
     (if packets = [] then Inl Invalid_iterator
      else
        and_then (parse_packet_view_of (hd packets)) (\<lambda>front_view.
        and_then (create_packet_from front_view blob) (\<lambda>new_packet.
        Inr (new_packet\<lparr>action_action := SEND, action_packet_id := 0, is_fake_blob := True\<rparr>))))"

definition mark_fake :: "packet list \<Rightarrow> packet list" where
  "mark_fake packets = map (\<lambda>p. p\<lparr>is_fake_blob := True\<rparr>) packets"

section \<open>The contract of the shared passes\<close>

interpretation shared_ttl: header_pass "ttl_pass args P" for args :: "'a modifier_args_scheme" and P
  unfolding ttl_pass_def by (intro header_passing ttl.header_pass_axioms)

interpretation shared_ts: header_pass "ts_pass args conn P"
  for args :: "'a modifier_args_scheme" and conn P
  unfolding ts_pass_def by (intro header_passing timestamp.header_pass_axioms)

lemma header_through_view: "header_pass f \<Longrightarrow> header_pass (through_view stale f)"
  unfolding through_view_def by (intro header_passing)

interpretation shared_seq: header_pass "seq_pass args conn stale P"
  for args :: "'a modifier_args_scheme" and conn stale P
  unfolding seq_pass_def by (intro header_passing header_through_view sequence.header_pass_axioms)

interpretation shared_cksum: header_pass "cksum_pass args conn stale P rnd"
  for args :: "'a modifier_args_scheme" and conn stale P rnd
  unfolding cksum_pass_def by (intro header_passing header_through_view spoiling.header_pass_axioms)

interpretation shared_splits: packet_rewriter "split_passes args ctx"
  for args :: "'a modifier_args_scheme" and ctx
  unfolding split_passes_def by (intro rewriting splitting.packet_rewriter_axioms)

section \<open>The overlapping segment on well-formed packets\<close>

definition overlapped :: "packet \<Rightarrow> byte list \<Rightarrow> u32 \<Rightarrow> packet" where
  "overlapped p new_payload n =
     with_checksum (put_seq
       (if action_action p = SEND
        then (rebuild p new_payload)\<lparr>is_fake_blob := is_fake_blob p, action_action := SEND\<rparr>
        else (rebuild p new_payload)\<lparr>is_fake_blob := is_fake_blob p, action_action := DROP_AND_SEND,
               action_packet_id := action_packet_id p\<rparr>)
       (seq_of p - n))"

lemma overlapped_fields [simp]:
  assumes "wf_packet p"
  shows "wf_packet (overlapped p pl n)" "payload_of (overlapped p pl n) = pl"
    "seq_of (overlapped p pl n) = seq_of p - n" "is_fake_blob (overlapped p pl n) = is_fake_blob p"
    "verdicts [overlapped p pl n] = verdicts [p]"
  using assms by (simp_all add: overlapped_def owes_verdict_def)

lemma overlap_packet_run:
  assumes "wf_packet p"
  shows "overlap_packet (view_of p) p pl n = Inr (overlapped p pl n)"
proof -
  define q where "q = (if action_action p = SEND
      then (rebuild p pl)\<lparr>is_fake_blob := is_fake_blob p, action_action := SEND\<rparr>
      else (rebuild p pl)\<lparr>is_fake_blob := is_fake_blob p, action_action := DROP_AND_SEND,
             action_packet_id := action_packet_id p\<rparr>)"
  have w: "wf_packet q" and s: "seq_of q = seq_of p" using assms by (simp_all add: q_def)
  have "overlap_packet (view_of p) p pl n =
      and_then (tcp_seq (packet_bytes q) (transport_offset q)) (\<lambda>seq.
      and_then (store32 (packet_bytes q) (transport_offset q + 4) (htonl (ntohl seq - n))) (\<lambda>bs.
      calc_packet_checksum (q\<lparr>packet_bytes := bs\<rparr>)))"
    by (simp only: overlap_packet_def create_packet_from_view_of [OF assms] and_then_simps Let_def q_def [symmetric])
  also have "\<dots> = Inr (with_checksum (put_seq q (seq_of p - n)))"
    by (simp only: wf_load_seq [OF w] and_then_simps htonl_htonl s wf_stores(1) [OF w] put_bytes
        wf_calc_packet_checksum [OF wf_put(1) [OF w]])
  finally show ?thesis by (simp only: overlapped_def q_def [symmetric])
qed

lemma segmentize_zero: "wf_packet p \<Longrightarrow> segmentize pl 0 p s = Inl Division_by_zero"
  by (simp add: segmentize_def wf_parse)

text \<open>The two outcomes on a well-formed packet: segments, or one packet in its place.\<close>

lemma overlap_at_cases:
  assumes "overlap_at env conn pat n tcp_size i ps = Inr (qs, k)" "list_all wf_packet ps" "i < length ps"
  shows "\<exists>new_payload mss. overlap_payload pat n (payload_of (ps ! i)) = Inr new_payload
    \<and> mss_for env conn (ps ! i) tcp_size = Inr mss
    \<and> (if unat mss < length new_payload
       then 0 < unat mss \<and> k = length (chunks (unat mss) new_payload)
         \<and> qs = take i ps @ answer_for (ps ! i) (number_segments (ps ! i) (seq_of (ps ! i) - ucast n)
                 (chunks (unat mss) new_payload)) @ drop (i + 1) ps
       else k = 0 \<and> qs = ps[i := overlapped (ps ! i) new_payload (ucast n)])"
proof -
  have w: "wf_packet (ps ! i)" using assms(2,3) by (simp add: list_all_length)
  obtain pl mss where pl: "overlap_payload pat n (payload_of (ps ! i)) = Inr pl"
    and mss: "mss_for env conn (ps ! i) tcp_size = Inr mss"
    using assms(1) by (auto simp: overlap_at_def wf_parse [OF w] wf_payload [OF w] res Let_def)
  show ?thesis
  proof (cases "unat mss < length pl")
    case True
    have run: "and_then (segmentize pl (unat mss) (ps ! i) (seq_of (ps ! i) - ucast n)) (\<lambda>splitted.
        Inr (take i ps @ splitted @ drop (i + 1) ps, length splitted)) = Inr (qs, k)"
      using assms(1) True pl mss
      by (simp add: overlap_at_def wf_parse [OF w] wf_payload [OF w] wf_seq [OF w] Let_def)
    then have "0 < unat mss" using segmentize_zero [OF w] by (cases "unat mss") auto
    moreover have "pl \<noteq> []" using True by auto
    ultimately show ?thesis
      using run True pl mss by (auto simp: segmentize_spec [OF w])
  next
    case False
    then show ?thesis
      using assms(1) pl mss
      by (auto simp: overlap_at_def wf_parse [OF w] wf_payload [OF w] Let_def overlap_packet_run [OF w])
  qed
qed

lemma rewrite_at:
  assumes "list_all wf_packet ps" "i < length ps" "list_all wf_packet new" "mset (verdicts new) = mset (verdicts [ps ! i])"
  shows "list_all wf_packet (take i ps @ new @ drop (i + 1) ps)"
    "mset (verdicts (take i ps @ new @ drop (i + 1) ps)) = mset (verdicts ps)"
proof -
  have ps: "ps = take i ps @ ps ! i # drop (i + 1) ps" using id_take_nth_drop [OF assms(2)] by simp
  have "list_all wf_packet (take i ps) \<and> list_all wf_packet (drop (i + 1) ps)"
    using assms(1) by (subst (asm) ps) simp
  then show "list_all wf_packet (take i ps @ new @ drop (i + 1) ps)" using assms(3) by simp
  have "verdicts ps = verdicts (take i ps) @ verdicts [ps ! i] @ verdicts (drop (i + 1) ps)"
    by (subst ps) simp
  then show "mset (verdicts (take i ps @ new @ drop (i + 1) ps)) = mset (verdicts ps)"
    using assms(4) by simp
qed

lemma overlap_at_contract:
  assumes "overlap_at env conn pat n tcp_size i ps = Inr (qs, k)" "list_all wf_packet ps" "i < length ps"
  shows "list_all wf_packet qs \<and> mset (verdicts qs) = mset (verdicts ps) \<and> qs \<noteq> []"
proof -
  have w: "wf_packet (ps ! i)" using assms(2,3) by (simp add: list_all_length)
  obtain pl mss where C: "overlap_payload pat n (payload_of (ps ! i)) = Inr pl
    \<and> mss_for env conn (ps ! i) tcp_size = Inr mss
    \<and> (if unat mss < length pl
       then 0 < unat mss \<and> k = length (chunks (unat mss) pl)
         \<and> qs = take i ps @ answer_for (ps ! i) (number_segments (ps ! i) (seq_of (ps ! i) - ucast n)
                 (chunks (unat mss) pl)) @ drop (i + 1) ps
       else k = 0 \<and> qs = ps[i := overlapped (ps ! i) pl (ucast n)])"
    using overlap_at_cases [OF assms] by (elim exE) (rule that)
  show ?thesis
  proof (cases "unat mss < length pl")
    case True
    let ?ns = "number_segments (ps ! i) (seq_of (ps ! i) - ucast n) (chunks (unat mss) pl)"
    have "pl \<noteq> []" "unat mss \<noteq> 0" using True C by auto
    then have ne: "?ns \<noteq> []" by (metis chunks_empty length_0_conv number_segments_length)
    have "verdicts (answer_for (ps ! i) ?ns) = verdicts [ps ! i]"
      using ne w by (intro verdicts_answer_for) simp_all
    moreover have "list_all wf_packet (answer_for (ps ! i) ?ns)" using w by simp
    ultimately have "list_all wf_packet qs" "mset (verdicts qs) = mset (verdicts ps)"
      using rewrite_at [OF assms(2,3), of "answer_for (ps ! i) ?ns"] C True by simp_all
    moreover have "qs \<noteq> []" using C True ne by simp
    ultimately show ?thesis by simp
  next
    case False
    then have "qs = take i ps @ [overlapped (ps ! i) pl (ucast n)] @ drop (i + 1) ps"
      using C assms(3) by (simp add: upd_conv_take_nth_drop)
    then show ?thesis
      using rewrite_at [OF assms(2,3), of "[overlapped (ps ! i) pl (ucast n)]"] w
      by (simp del: verdicts_simps)
  qed
qed

lemma first_original_le: "first_original ps \<le> length ps"
  by (induction ps) auto

lemma first_original_found:
  assumes "first_original ps < length ps"
  shows "original (ps ! first_original ps)" "\<forall>j<first_original ps. \<not> original (ps ! j)"
  using assms by (induction ps) (auto simp: nth_Cons split: if_splits nat.splits)

text \<open>The fake packet and its insertion.\<close>

definition fake_packet :: "byte list \<Rightarrow> packet \<Rightarrow> packet" where
  "fake_packet blob p = (rebuild p blob)\<lparr>action_action := SEND, action_packet_id := 0, is_fake_blob := True\<rparr>"

lemma make_fake_run:
  "ps \<noteq> [] \<Longrightarrow> list_all wf_packet ps \<Longrightarrow> make_fake blob ps = Inr (fake_packet blob (hd ps))"
  by (cases ps) (simp_all add: make_fake_def wf_parse create_packet_from_view_of fake_packet_def)

lemma fake_packet_fields [simp]:
  assumes "wf_packet p"
  shows "wf_packet (fake_packet blob p)" "payload_of (fake_packet blob p) = blob"
    "seq_of (fake_packet blob p) = seq_of p" "is_fake_blob (fake_packet blob p)"
    "action_action (fake_packet blob p) = SEND" "action_packet_id (fake_packet blob p) = 0"
  using assms by (simp_all add: fake_packet_def)

lemma mark_fake_keeps [simp]:
  "list_all wf_packet (mark_fake ps) = list_all wf_packet ps" "verdicts (mark_fake ps) = verdicts ps"
  by (induction ps) (simp_all add: mark_fake_def owes_verdict_def)

text \<open>Putting a fake packet in front, for both modifiers.\<close>

lemma rewriter_prepend_fake:
  assumes "packet_rewriter process" "\<And>p. wf_packet p \<Longrightarrow> cksum p = Inr (with_checksum p)"
  shows "packet_rewriter (\<lambda>ps. and_then (make_fake blob ps) (\<lambda>p.
    and_then (cksum p) (\<lambda>p.
    and_then (process [p]) (\<lambda>blobs. Inr (mark_fake blobs @ ps)))))"
proof
  fix ps qs
  assume run: "and_then (make_fake blob ps) (\<lambda>p. and_then (cksum p) (\<lambda>p.
      and_then (process [p]) (\<lambda>blobs. Inr (mark_fake blobs @ ps)))) = Inr qs"
    and wf: "list_all wf_packet ps"
  have ne: "ps \<noteq> []" using run by (auto simp: make_fake_def)
  let ?p = "fake_packet blob (hd ps)"
  have w: "wf_packet ?p" using wf ne by (cases ps) simp_all
  then obtain blobs where b: "process [with_checksum ?p] = Inr blobs" and qs: "qs = mark_fake blobs @ ps"
    using run by (auto simp: make_fake_run [OF ne wf] assms(2) res)
  have "verdicts [with_checksum ?p] = []" by (simp add: owes_verdict_def fake_packet_def)
  then have "verdicts blobs = []"
    using packet_rewriter.run_verdicts [OF assms(1) b] w by simp
  moreover have "list_all wf_packet blobs" using packet_rewriter.run_wf [OF assms(1) b] w by simp
  ultimately show "list_all wf_packet qs" "mset (verdicts qs) = mset (verdicts ps)" "ps \<noteq> [] \<Longrightarrow> qs \<noteq> []"
    using wf by (simp_all add: qs)
qed

section \<open>What the overlap carries\<close>

definition pattern_bytes :: "byte list option \<Rightarrow> nat \<Rightarrow> byte list" where
  "pattern_bytes pat n =
     (case pat of None \<Rightarrow> replicate n 0 | Some p \<Rightarrow> map (\<lambda>j. p ! (j mod length p)) [0 ..< n])"

lemma length_pattern_bytes [simp]: "length (pattern_bytes pat n) = n"
  by (simp add: pattern_bytes_def split: option.split)

lemma repeat_pattern:
  assumes "p \<noteq> []"
  shows "map (\<lambda>j. p ! (j mod length p)) [0 ..< r] =
    take (min (length p) r) p @ map (\<lambda>j. p ! (j mod length p)) [0 ..< r - min (length p) r]"
proof (rule nth_equalityI)
  fix i
  assume "i < length (map (\<lambda>j. p ! (j mod length p)) [0 ..< r])"
  then have i: "i < r" by simp
  show "map (\<lambda>j. p ! (j mod length p)) [0 ..< r] ! i =
    (take (min (length p) r) p @ map (\<lambda>j. p ! (j mod length p)) [0 ..< r - min (length p) r]) ! i"
  proof (cases "i < length p")
    case True
    with i show ?thesis by (simp add: nth_append)
  next
    case False
    with i have "(i - length p) mod length p = i mod length p" by (simp add: le_mod_geq)
    moreover have "[0 ..< r - length p] ! (i - length p) = i - length p" using i False by simp
    ultimately show ?thesis using i False by (simp add: nth_append)
  qed
qed simp

lemma fill_pattern_run:
  assumes "p \<noteq> []" "at + r \<le> length buf"
  shows "fill_pattern p r at buf = Inr (take at buf @ map (\<lambda>j. p ! (j mod length p)) [0 ..< r] @ drop (at + r) buf)"
  using assms(2)
proof (induction r arbitrary: at buf rule: less_induct)
  case (less r)
  show ?case
  proof (cases "r = 0")
    case False
    let ?c = "min (length p) r"
    let ?buf = "take at buf @ take ?c p @ drop (at + ?c) buf"
    have c: "0 < ?c" "?c \<le> r" using False assms(1) by (simp_all add: min_def)
    have "copy_into buf at (take ?c p) = Inr ?buf"
      using less.prems c(2) by (simp add: copy_into_def min_def)
    moreover have "fill_pattern p (r - ?c) (at + ?c) ?buf =
        Inr (take (at + ?c) ?buf @ map (\<lambda>j. p ! (j mod length p)) [0 ..< r - ?c] @ drop (at + ?c + (r - ?c)) ?buf)"
      using less.prems c by (intro less.IH) simp_all
    moreover have "take (at + ?c) ?buf = take at buf @ take ?c p" using less.prems c(2) by simp
    moreover have "drop (at + ?c + (r - ?c)) ?buf = drop (at + r) buf"
      using less.prems c(2) by (simp add: add.commute)
    ultimately show ?thesis
      using False assms(1) by (simp add: fill_pattern.simps [of p r] Let_def repeat_pattern [OF assms(1), of r])
  qed (simp add: fill_pattern.simps [of p 0])
qed

lemma overlap_payload_run:
  assumes "0 \<le> sint n" "length pl + unat n \<le> max_vector_size" "pat \<noteq> Some []"
  shows "overlap_payload pat n pl = Inr (pattern_bytes pat (unat n) @ pl)"
proof -
  have "length pl + unat n < 2 ^ 64" using assms(2) by (simp add: max_vector_size_def)
  then have size: "unat (word_of_nat (length pl) + n) = length pl + unat n"
    by (simp add: unat_word_ariths unat_of_nat_small)
  have fill: "fill_pattern p (unat n) 0 (replicate (length pl + unat n) 0)
      = Inr (map (\<lambda>j. p ! (j mod length p)) [0 ..< unat n] @ replicate (length pl) 0)" if "pat = Some p" for p
    using fill_pattern_run [of p 0 "unat n" "replicate (length pl + unat n) 0"] assms(3) that by simp
  have copy: "copy_into (xs @ replicate (length pl) 0) (length xs) pl = Inr (xs @ pl)" for xs :: "byte list"
    by (simp add: copy_into_def)
  have zeros: "copy_into (replicate (length pl + unat n) 0) (unat n) pl = Inr (replicate (unat n) 0 @ pl)"
    using copy [of "replicate (unat n) 0"] by (simp add: replicate_add [symmetric] add.commute)
  show ?thesis
  proof (cases pat)
    case None
    then show ?thesis
      using assms(1,2) size zeros by (simp add: overlap_payload_def pattern_bytes_def Let_def)
  next
    case (Some p)
    then show ?thesis
      using assms(1,2) size fill copy [of "map (\<lambda>j. p ! (j mod length p)) [0 ..< unat n]"]
      by (simp add: overlap_payload_def pattern_bytes_def Let_def)
  qed
qed

lemma number_segments_contiguous:
  "wf_packet p \<Longrightarrow> contiguous s (number_segments p s cs)"
  by (induction cs arbitrary: s) simp_all

lemma stream_of_payloads: "map payload_of ps = cs \<Longrightarrow> stream_of ps = concat cs"
  by (simp add: stream_of_def)

lemma contiguous_answer_for [simp]: "contiguous s (answer_for p ps) = contiguous s ps"
  by (cases ps) simp_all

lemma overlap_at_runs:
  assumes "list_all wf_packet ps" "i < length ps" "overlap_payload pat n (payload_of (ps ! i)) = Inr pl"
    and "mss_for env conn (ps ! i) tcp_size = Inr msv" "0 < unat msv"
  shows "\<exists>qs k. overlap_at env conn pat n tcp_size i ps = Inr (qs, k) \<and> (k = 0 \<longleftrightarrow> length pl \<le> unat msv)"
proof -
  have w: "wf_packet (ps ! i)" using assms(1,2) by (simp add: list_all_length)
  show ?thesis
  proof (cases "unat msv < length pl")
    case True
    then have "pl \<noteq> []" by auto
    then have "answer_for (ps ! i) (number_segments (ps ! i) s (chunks (unat msv) pl)) \<noteq> []" for s
      using assms(5) by (metis answer_for_simps(6) chunks_empty length_0_conv neq0_conv number_segments_length)
    then show ?thesis
      using True assms(3-5) \<open>pl \<noteq> []\<close>
      by (simp add: overlap_at_def wf_parse [OF w] wf_payload [OF w] wf_seq [OF w] segmentize_spec [OF w] Let_def)
  next
    case False
    then show ?thesis
      using assms(3,4)
      by (simp add: overlap_at_def wf_parse [OF w] wf_payload [OF w] Let_def overlap_packet_run [OF w])
  qed
qed

section \<open>Properties\<close>

text \<open>C23. The overlap replaces one packet by packets that carry, without holes and from the sequence
  number \<open>n\<close> lower on, exactly \<open>n\<close> bytes of pattern and then the old payload, whether it fits into
  one packet or is cut into segments; so every byte of the old payload keeps its sequence number,
  and the packet's verdict is still owed once.\<close>

theorem overlap_keeps_data:
  assumes "overlap_at env conn pat n tcp_size i ps = Inr (qs, k)" "list_all wf_packet ps" "i < length ps"
    and "0 \<le> sint n" "length (payload_of (ps ! i)) + unat n \<le> max_vector_size" "pat \<noteq> Some []"
  shows "\<exists>new. qs = take i ps @ new @ drop (i + 1) ps
    \<and> stream_of new = pattern_bytes pat (unat n) @ payload_of (ps ! i)
    \<and> contiguous (seq_of (ps ! i) - ucast n) new \<and> verdicts new = verdicts [ps ! i]"
proof -
  let ?p = "ps ! i" and ?pl = "pattern_bytes pat (unat n) @ payload_of (ps ! i)"
  have w: "wf_packet ?p" using assms(2,3) by (simp add: list_all_length)
  obtain pl mss where C: "overlap_payload pat n (payload_of ?p) = Inr pl
    \<and> mss_for env conn ?p tcp_size = Inr mss
    \<and> (if unat mss < length pl
       then 0 < unat mss \<and> k = length (chunks (unat mss) pl)
         \<and> qs = take i ps @ answer_for ?p (number_segments ?p (seq_of ?p - ucast n)
                 (chunks (unat mss) pl)) @ drop (i + 1) ps
       else k = 0 \<and> qs = ps[i := overlapped ?p pl (ucast n)])"
    using overlap_at_cases [OF assms(1-3)] by (elim exE) (rule that)
  then have pl: "pl = ?pl" using overlap_payload_run [OF assms(4-6)] by simp
  show ?thesis
  proof (cases "unat mss < length pl")
    case True
    let ?ns = "number_segments ?p (seq_of ?p - ucast n) (chunks (unat mss) pl)"
    have ne: "?ns \<noteq> []"
      using True C by (metis chunks_empty length_0_conv less_nat_zero_code nat_less_le number_segments_length)
    have "stream_of (answer_for ?p ?ns) = ?pl"
      using C True w pl by (simp add: stream_of_payloads [of _ "chunks (unat mss) pl"] chunks_concat)
    moreover have "contiguous (seq_of ?p - ucast n) (answer_for ?p ?ns)"
      using w by (simp add: number_segments_contiguous)
    moreover have "verdicts (answer_for ?p ?ns) = verdicts [?p]"
      using w ne by (intro verdicts_answer_for) simp_all
    ultimately show ?thesis using C True by auto
  next
    case False
    then have "qs = take i ps @ [overlapped ?p pl (ucast n)] @ drop (i + 1) ps"
      using C assms(3) by (simp add: upd_conv_take_nth_drop)
    moreover have "verdicts [overlapped ?p pl (ucast n)] = verdicts [?p]" using w by (rule overlapped_fields(5))
    ultimately show ?thesis using w pl by (intro exI [of _ "[overlapped ?p pl (ucast n)]"]) simp
  qed
qed

definition sample_env :: environment where
  "sample_env = \<lparr>rand_at = \<lambda>_ _. 0, iface_mtu = \<lambda>_. Inr (Inr 1500), reallocates = True,
     view_caches_iterator = True\<rparr>"

definition sample_packet :: packet where
  "sample_packet = packet_of sample_bytes 7"

lemma sample_packet_fields [simp]:
  "wf_packet sample_packet" "payload_of sample_packet = [1, 2, 3, 4]" "seq_of sample_packet = 1000"
  "original sample_packet"
  by code_simp+

lemma sample_mss: "mss_for sample_env (tcp_connection\<lparr>l4_state := Tcp (new_tcp\<lparr>mss := m\<rparr>)\<rparr>) sample_packet sz
  = Inr (scast m - (20 - sz))"
proof -
  have "ip_ihl (packet_bytes sample_packet) (network_offset sample_packet) = Inr 5"
    "tcp_doff (packet_bytes sample_packet) (transport_offset sample_packet) = Inr 5" by code_simp+
  then show ?thesis
    by (simp add: mss_for_def get_mss_def tcp_connection_def get_l4_tcp_def sizeof_iphdr_def)
qed

lemma overlap_keeps_data_witness:
  "\<exists>qs k new. overlap_at sample_env (tcp_connection\<lparr>l4_state := Tcp (new_tcp\<lparr>mss := 4\<rparr>)\<rparr>) (Some [7]) 2 20 0 [sample_packet]
      = Inr (qs, k) \<and> k \<noteq> 0 \<and> stream_of new = [7, 7, 1, 2, 3, 4] \<and> contiguous 998 new \<and> qs = new"
proof -
  let ?conn = "tcp_connection\<lparr>l4_state := Tcp (new_tcp\<lparr>mss := 4\<rparr>)\<rparr>"
  have pl: "overlap_payload (Some [7]) 2 (payload_of ([sample_packet] ! 0)) = Inr [7, 7, 1, 2, 3, 4]"
    by (subst overlap_payload_run) (simp_all add: max_vector_size_def pattern_bytes_def upt_rec)
  obtain qs k where run: "overlap_at sample_env ?conn (Some [7]) 2 20 0 [sample_packet] = Inr (qs, k)" and k: "k \<noteq> 0"
    using overlap_at_runs [OF _ _ pl, of sample_env ?conn 20 4] sample_mss [of 4 20] by auto
  have bytes: "pattern_bytes (Some [7]) 2 = [7, 7]" by (simp add: pattern_bytes_def upt_rec)
  obtain new where "qs = new" "stream_of new = [7, 7, 1, 2, 3, 4]" "contiguous 998 new"
    using overlap_keeps_data [OF run] by (auto simp: max_vector_size_def bytes)
  with run k show ?thesis by blast
qed

end
