(* ===== verification/Splitter.thy ===== *)
theory Splitter
  imports Modifiers
begin

text \<open>
  The splitter modifier, \<^verbatim>\<open>modify/splitter.{hpp,cpp}\<close>: it either puts a fake packet in front of
  the real ones or splits the real ones, and changes header fields of what it handled.
\<close>

record splitter_args = modifier_args +
  split_seqovl :: "i32 option"

definition splitter_process_fake ::
  "environment \<Rightarrow> splitter_args \<Rightarrow> modify_context \<Rightarrow> packet list \<Rightarrow> packet list result" where
  "splitter_process_fake env args ctx packets =
     (let conn = ctx_conn ctx in
      and_then (ttl_pass args is_fake_blob packets) (\<lambda>packets.
      and_then (ts_pass args conn is_fake_blob packets) (\<lambda>packets.
      and_then (seq_pass args conn False is_fake_blob packets) (\<lambda>packets.
      cksum_pass args conn False is_fake_blob (rand_at env 0) packets))))"

text \<open>
  \<open>Splitter::seqovl\<close>. The size subtracted from the maximum segment size for the TCP header is
  \<open>sizeof(tcp)\<close>, the size of a pointer.
\<close>

definition splitter_seqovl ::
  "environment \<Rightarrow> splitter_args \<Rightarrow> connection \<Rightarrow> packet list \<Rightarrow> (packet list \<times> nat) result" where
  "splitter_seqovl env args conn packets =
     (let it = first_original packets in
      if it = length packets then Inr (packets, 0)
      else
        and_then (optional_value (split_seqovl args)) (\<lambda>n.
        overlap_at env conn (seqovl_pat args) (scast n) 8 it packets))"

definition splitter_seqovl_pass ::
  "environment \<Rightarrow> splitter_args \<Rightarrow> connection \<Rightarrow> packet list \<Rightarrow> (packet list \<times> nat) result" where
  "splitter_seqovl_pass env args conn packets =
     (case split_seqovl args of
        None \<Rightarrow> Inr (packets, 0)
      | Some _ \<Rightarrow> if l4_proto conn = IPPROTO_TCP then splitter_seqovl env args conn packets else Inr (packets, 0))"

text \<open>
  The view over the real packets is first used by the time-to-live or the timestamp loop; erasing
  the first real packet afterwards invalidates the iterator the view holds, if it holds one.
\<close>

definition splitter_process_orig ::
  "environment \<Rightarrow> splitter_args \<Rightarrow> modify_context \<Rightarrow> packet list \<Rightarrow> packet list result" where
  "splitter_process_orig env args ctx packets =
     (let conn = ctx_conn ctx;
          view_used = arg_ttl args \<noteq> None \<or> ts_offset args \<noteq> None \<and> l4_proto conn = IPPROTO_TCP in
      and_then (split_passes args ctx packets) (\<lambda>packets.
      and_then (ttl_pass args original packets) (\<lambda>packets.
      and_then (ts_pass args conn original packets) (\<lambda>packets.
      and_then (splitter_seqovl_pass env args conn packets) (\<lambda>(packets, inserted).
      let stale = (view_used \<and> inserted \<noteq> 0 \<and> view_caches_iterator env) in
      and_then (seq_pass args conn stale original packets) (\<lambda>packets.
      cksum_pass args conn stale original (rand_at env 0) packets))))))"

definition splitter_modify ::
  "environment \<Rightarrow> splitter_args \<Rightarrow> modify_context \<Rightarrow> packet list \<Rightarrow> packet list result" where
  "splitter_modify env args ctx packets =
     (case fake_blob args of
        Some blob \<Rightarrow>
          and_then (make_fake blob packets) (\<lambda>new_packet.
          and_then (calc_packet_checksum new_packet) (\<lambda>new_packet.
          and_then (splitter_process_fake env args ctx [new_packet]) (\<lambda>blob_packets.
          Inr (mark_fake blob_packets @ packets))))
      | None \<Rightarrow> splitter_process_orig env args ctx packets)"

section \<open>The contract\<close>

interpretation splitter_fake: header_pass "splitter_process_fake env args ctx" for env args ctx
  unfolding splitter_process_fake_def Let_def
  by (intro header_passing shared_ttl.header_pass_axioms shared_ts.header_pass_axioms
      shared_seq.header_pass_axioms shared_cksum.header_pass_axioms)

lemma splitter_seqovl_contract:
  assumes "splitter_seqovl_pass env args conn ps = Inr (qs, k)" "list_all wf_packet ps"
  shows "list_all wf_packet qs \<and> mset (verdicts qs) = mset (verdicts ps) \<and> (ps \<noteq> [] \<longrightarrow> qs \<noteq> [])"
proof -
  have "qs = ps \<or> first_original ps \<noteq> length ps
      \<and> (\<exists>n. overlap_at env conn (seqovl_pat args) n 8 (first_original ps) ps = Inr (qs, k))"
    using assms(1)
    by (auto simp: splitter_seqovl_pass_def splitter_seqovl_def optional_value_def Let_def
        split: option.splits if_splits)
  then consider "qs = ps" | n where "first_original ps \<noteq> length ps"
      "overlap_at env conn (seqovl_pat args) n 8 (first_original ps) ps = Inr (qs, k)" by blast
  then show ?thesis
  proof cases
    case 2
    then have "first_original ps < length ps" using first_original_le [of ps] by linarith
    then show ?thesis using overlap_at_contract [OF 2(2) assms(2)] by simp
  qed (use assms(2) in simp)
qed

interpretation splitter_orig: packet_rewriter "splitter_process_orig env args ctx" for env args ctx
proof -
  let ?conn = "ctx_conn ctx"
  define tail where "tail used = (\<lambda>(packets, inserted). and_then
      (seq_pass args ?conn (used \<and> inserted \<noteq> (0::nat) \<and> view_caches_iterator env) original packets) (\<lambda>packets.
      cksum_pass args ?conn (used \<and> inserted \<noteq> 0 \<and> view_caches_iterator env) original (rand_at env 0) packets))" for used
  have "packet_rewriter (\<lambda>ps. and_then (splitter_seqovl_pass env args ?conn ps) (tail used))" for used
  proof (rule rewriter_then_pair)
    show "packet_rewriter (\<lambda>packets. tail used (packets, k))" for k
      unfolding tail_def prod.case
      by (intro rewriting shared_seq.packet_rewriter_axioms shared_cksum.packet_rewriter_axioms)
  qed (rule splitter_seqovl_contract)
  then have "packet_rewriter (\<lambda>ps. and_then (split_passes args ctx ps) (\<lambda>ps.
      and_then (ttl_pass args original ps) (\<lambda>ps. and_then (ts_pass args ?conn original ps) (\<lambda>ps.
      and_then (splitter_seqovl_pass env args ?conn ps)
        (tail (arg_ttl args \<noteq> None \<or> ts_offset args \<noteq> None \<and> l4_proto ?conn = IPPROTO_TCP))))))"
    by (intro rewriting shared_splits.packet_rewriter_axioms shared_ttl.packet_rewriter_axioms
        shared_ts.packet_rewriter_axioms)
  then show "packet_rewriter (splitter_process_orig env args ctx)"
    unfolding splitter_process_orig_def Let_def tail_def .
qed

interpretation splitter: packet_rewriter "splitter_modify env args ctx" for env args ctx
  unfolding splitter_modify_def
  by (intro rewriting splitter_orig.packet_rewriter_axioms rewriter_prepend_fake splitter_fake.packet_rewriter_axioms
      wf_calc_packet_checksum)

section \<open>Properties\<close>

text \<open>C34. With a fake payload configured, the splitter sends exactly one more packet, in front, that
  is marked fake, is sent without a queue id, and owes no verdict; every real packet stays as it
  was.\<close>

theorem splitter_fake_in_front:
  assumes "splitter_modify env args ctx ps = Inr qs" "fake_blob args = Some blob" "list_all wf_packet ps"
  shows "\<exists>f. qs = f # ps \<and> wf_packet f \<and> is_fake_blob f \<and> action_action f = SEND \<and> action_packet_id f = 0"
proof -
  have ne: "ps \<noteq> []" using assms(1,2) by (auto simp: splitter_modify_def make_fake_def)
  let ?p = "with_checksum (fake_packet blob (hd ps))"
  have w: "wf_packet (fake_packet blob (hd ps))" using assms(3) ne by (cases ps) simp_all
  obtain blobs where b: "splitter_process_fake env args ctx [?p] = Inr blobs" and qs: "qs = mark_fake blobs @ ps"
    using assms(1,2) w
    by (auto simp: splitter_modify_def make_fake_run [OF ne assms(3)] wf_calc_packet_checksum res)
  have "list_all2 same_role [?p] blobs" using splitter_fake.run_pointwise [OF b] w by simp
  then obtain f where "blobs = [f]" "same_role ?p f" by (auto simp: list_all2_Cons1)
  then show ?thesis
    using w qs by (auto simp: mark_fake_def same_role_def fake_packet_def)
qed

text \<open>When the time to live is set and the overlap cuts the first real packet into segments, the
  checksum or sequence pass that follows walks through an iterator the erasure has invalidated,
  unless the library caches the position instead.\<close>

theorem splitter_stale_view:
  assumes "fake_blob args = None" "arg_ttl args \<noteq> None" "badcksum args \<or> seq_offset args \<noteq> None"
    and "l4_proto (ctx_conn ctx) = IPPROTO_TCP"
    and "split_passes args ctx ps = Inr ps1" "ttl_pass args original ps1 = Inr ps2"
    and "ts_pass args (ctx_conn ctx) original ps2 = Inr ps3"
    and "splitter_seqovl_pass env args (ctx_conn ctx) ps3 = Inr (ps4, k)" "k \<noteq> 0"
    and "view_caches_iterator env"
  shows "splitter_modify env args ctx ps = Inl Invalid_iterator"
  using assms
  by (auto simp: splitter_modify_def splitter_process_orig_def seq_pass_def cksum_pass_def
      through_view_def split: option.splits)

text \<open>Arguments and a context for concrete runs.\<close>

definition plain_args :: splitter_args where
  "plain_args = \<lparr>splits = [], fake_blob = None, badcksum = False, seq_offset = None, ts_offset = None,
     arg_ttl = None, l7_payload = None, seqovl_pat = None, split_seqovl = None\<rparr>"

definition sample_context :: "i32 \<Rightarrow> modify_context" where
  "sample_context m = \<lparr>ctx_full_payload = [1, 2, 3, 4], ctx_markers = no_markers,
     ctx_conn = tcp_connection\<lparr>l4_state := Tcp (new_tcp\<lparr>mss := m\<rparr>)\<rparr>\<rparr>"

lemma splitter_fake_in_front_witness:
  "\<exists>f. splitter_modify sample_env (plain_args\<lparr>fake_blob := Some [9]\<rparr>) (sample_context 536) [sample_packet]
      = Inr (f # [sample_packet]) \<and> is_fake_blob f"
proof -
  have run: "splitter_modify sample_env (plain_args\<lparr>fake_blob := Some [9]\<rparr>) (sample_context 536) [sample_packet]
      = Inr (mark_fake [with_checksum (fake_packet [9] sample_packet)] @ [sample_packet])"
    by (simp add: splitter_modify_def make_fake_run wf_calc_packet_checksum splitter_process_fake_def
        plain_args_def ttl_pass_def ts_pass_def seq_pass_def cksum_pass_def Let_def)
  show ?thesis using splitter_fake_in_front [OF run, of "[9]"] run by auto
qed

lemma splitter_stale_view_witness:
  "splitter_modify sample_env (plain_args\<lparr>arg_ttl := Some 3, badcksum := True, split_seqovl := Some 2\<rparr>)
     (sample_context 14) [sample_packet] = Inl Invalid_iterator"
proof -
  let ?args = "plain_args\<lparr>arg_ttl := Some 3, badcksum := True, split_seqovl := Some 2\<rparr>"
  let ?q = "put_ttl sample_packet 3" and ?conn = "ctx_conn (sample_context 14)"
  have w: "wf_packet ?q" by simp
  have "original ?q" by (simp add: original_def put_ttl_def sample_packet_def packet_of_def)
  have ttl: "ttl_pass ?args original [sample_packet] = Inr [?q]"
    by (simp add: ttl_pass_def ipv4_ttl_def map_view_def plain_args_def wf_run)
  have pl: "overlap_payload None 2 (payload_of ([?q] ! 0)) = Inr [0, 0, 1, 2, 3, 4]"
  proof -
    have "replicate (2::nat) 0 = [0, 0 :: byte]" by (simp add: numeral_2_eq_2)
    then show ?thesis by (subst overlap_payload_run) (simp_all add: max_vector_size_def pattern_bytes_def)
  qed
  have "ip_ihl (packet_bytes ?q) (network_offset ?q) = Inr 5"
    "tcp_doff (packet_bytes ?q) (transport_offset ?q) = Inr 5" by code_simp+
  then have "mss_for sample_env ?conn ?q 8 = Inr 2"
    by (simp add: mss_for_def get_mss_def tcp_connection_def get_l4_tcp_def sizeof_iphdr_def sample_context_def)
  then obtain qs k where run: "overlap_at sample_env ?conn None 2 8 0 [?q] = Inr (qs, k)" "k \<noteq> 0"
    using overlap_at_runs [OF _ _ pl, of sample_env ?conn 8 2] w by auto
  then have "splitter_seqovl_pass sample_env ?args ?conn [?q] = Inr (qs, k)"
    using \<open>original ?q\<close>
    by (simp add: splitter_seqovl_pass_def splitter_seqovl_def plain_args_def optional_value_def Let_def
        sample_context_def tcp_connection_def)
  then show ?thesis
    using splitter_stale_view [of ?args "sample_context 14" "[sample_packet]" "[sample_packet]" "[?q]" "[?q]"
        sample_env qs k] ttl run(2)
    by (simp add: sample_env_def plain_args_def split_passes_def ts_pass_def sample_context_def tcp_connection_def)
qed

end
