(* ===== verification/Disorder.thy ===== *)
theory Disorder
  imports Modifiers
begin

text \<open>
  The disorder modifier, \<^verbatim>\<open>modify/disorder.{hpp,cpp}\<close>: like the splitter, with the overlap on
  the second real segment and with the real packets sent in reverse order.
\<close>

record disorder_args = modifier_args +
  dis_seqovl :: "position option"

definition calculate_seqovl_off :: "position \<Rightarrow> markers \<Rightarrow> u64 option result" where
  "calculate_seqovl_off pos marks =
     (let from_mark = (\<lambda>mark. Inr (map_option (\<lambda>m. do_operation (word_of_nat m) (operation pos) (offset pos)) mark))
      in
      if arg pos = HOSTSTART_STR then from_mark (hoststart marks)
      else if arg pos = HOSTEND_STR then from_mark (hostend marks)
      else if arg pos = HOSTMID_STR then from_mark (hostmid marks)
      else if arg pos = SNIEXT_STR then
        (case hostend marks of
           None \<Rightarrow> Inr None
         | Some _ \<Rightarrow> and_then (optional_value (sniext marks)) (\<lambda>m. from_mark (Some m)))
      else Inr (Some (offset pos)))"

definition disorder_seqovl ::
  "environment \<Rightarrow> disorder_args \<Rightarrow> modify_context \<Rightarrow> packet list \<Rightarrow> (packet list \<times> nat) result" where
  "disorder_seqovl env args ctx packets =
     and_then (optional_value (dis_seqovl args)) (\<lambda>pos.
     and_then (calculate_seqovl_off pos (ctx_markers ctx)) (\<lambda>seqovl_opt.
     case seqovl_opt of
       None \<Rightarrow> Inr (packets, 0)
     | Some n \<Rightarrow>
         let it = first_original packets in
         if it = length packets then Inr (packets, 0)
         else
           let second = it + 1 in
           and_then (payload (hd packets)) (\<lambda>front.
           if length front \<le> unat n then Inr (packets, 0)
           else if second = length packets then Inl Invalid_iterator
           else overlap_at env (ctx_conn ctx) (seqovl_pat args) n (word_of_nat sizeof_tcphdr) second packets)))"

definition disorder_seqovl_pass ::
  "environment \<Rightarrow> disorder_args \<Rightarrow> modify_context \<Rightarrow> packet list \<Rightarrow> (packet list \<times> nat) result" where
  "disorder_seqovl_pass env args ctx packets =
     (case dis_seqovl args of
        None \<Rightarrow> Inr (packets, 0)
      | Some _ \<Rightarrow> if l4_proto (ctx_conn ctx) = IPPROTO_TCP then disorder_seqovl env args ctx packets
          else Inr (packets, 0))"

definition disorder_process_fake ::
  "environment \<Rightarrow> disorder_args \<Rightarrow> modify_context \<Rightarrow> packet list \<Rightarrow> packet list result" where
  "disorder_process_fake env args ctx packets =
     (let conn = ctx_conn ctx in
      and_then (seq_pass args conn False is_fake_blob packets) (\<lambda>packets.
      and_then (ts_pass args conn is_fake_blob packets) (\<lambda>packets.
      and_then (ttl_pass args is_fake_blob packets) (\<lambda>packets.
      cksum_pass args conn False is_fake_blob (rand_at env 0) packets))))"

text \<open>
  The view over the real packets holds the first of them; the overlap erases behind it, so the
  view goes stale only if it holds an iterator and inserting more than one segment reallocates the
  vector. The checksums
  are spoiled twice.
\<close>

definition disorder_process_orig ::
  "environment \<Rightarrow> disorder_args \<Rightarrow> modify_context \<Rightarrow> packet list \<Rightarrow> packet list result" where
  "disorder_process_orig env args ctx packets =
     (let conn = ctx_conn ctx;
          view_used = arg_ttl args \<noteq> None
            \<or> (ts_offset args \<noteq> None \<or> seq_offset args \<noteq> None) \<and> l4_proto conn = IPPROTO_TCP in
      and_then (split_passes args ctx packets) (\<lambda>packets.
      and_then (seq_pass args conn False original packets) (\<lambda>packets.
      and_then (ts_pass args conn original packets) (\<lambda>packets.
      and_then (ttl_pass args original packets) (\<lambda>packets.
      and_then (disorder_seqovl_pass env args ctx packets) (\<lambda>(packets, inserted).
      let stale = (view_used \<and> 1 < inserted \<and> reallocates env \<and> view_caches_iterator env) in
      and_then (cksum_pass args conn stale original (rand_at env 0) packets) (\<lambda>packets.
      cksum_pass args conn stale original (rand_at env 1) packets)))))))"

text \<open>\<open>std::reverse\<close> through a filter view: the admitted elements swap places, the others stay.\<close>

fun put_back :: "('a \<Rightarrow> bool) \<Rightarrow> 'a list \<Rightarrow> 'a list \<Rightarrow> 'a list" where
  "put_back P [] ys = []"
| "put_back P (x # xs) ys = (if P x then hd ys # put_back P xs (tl ys) else x # put_back P xs ys)"

definition reverse_view :: "('a \<Rightarrow> bool) \<Rightarrow> 'a list \<Rightarrow> 'a list" where
  "reverse_view P xs = put_back P xs (rev (filter P xs))"

definition fake_cksum :: "packet \<Rightarrow> packet result" where
  "fake_cksum p =
     and_then (packet_protocol p) (\<lambda>proto. if proto = IPPROTO_TCP then calc_packet_checksum p else Inr p)"

definition disorder_modify ::
  "environment \<Rightarrow> disorder_args \<Rightarrow> modify_context \<Rightarrow> packet list \<Rightarrow> packet list result" where
  "disorder_modify env args ctx packets =
     and_then
       (case fake_blob args of
          Some blob \<Rightarrow>
            and_then (make_fake blob packets) (\<lambda>new_packet.
            and_then (fake_cksum new_packet) (\<lambda>new_packet.
            and_then (disorder_process_fake env args ctx [new_packet]) (\<lambda>blob_packets.
            Inr (mark_fake blob_packets @ packets))))
        | None \<Rightarrow> disorder_process_orig env args ctx packets) (\<lambda>packets.
     Inr (reverse_view original packets))"

section \<open>Reversal\<close>

lemma put_back_filter:
  "length ys = length (filter P xs) \<Longrightarrow> \<forall>y\<in>set ys. P y \<Longrightarrow>
   filter P (put_back P xs ys) = ys \<and> filter (\<lambda>x. \<not> P x) (put_back P xs ys) = filter (\<lambda>x. \<not> P x) xs"
proof (induction xs arbitrary: ys)
  case (Cons x xs)
  then show ?case by (cases ys) (auto split: if_splits)
qed simp

lemma filter_reverse_view:
  "filter P (reverse_view P xs) = rev (filter P xs)"
  "filter (\<lambda>x. \<not> P x) (reverse_view P xs) = filter (\<lambda>x. \<not> P x) xs"
proof -
  have "length (rev (filter P xs)) = length (filter P xs)" "\<forall>y\<in>set (rev (filter P xs)). P y" by simp_all
  from put_back_filter [OF this] show "filter P (reverse_view P xs) = rev (filter P xs)"
    "filter (\<lambda>x. \<not> P x) (reverse_view P xs) = filter (\<lambda>x. \<not> P x) xs"
    unfolding reverse_view_def by blast+
qed

lemma mset_reverse_view [simp]: "mset (reverse_view P xs) = mset xs"
proof -
  have "mset (reverse_view P xs) = mset (filter P (reverse_view P xs)) + mset (filter (\<lambda>x. \<not> P x) (reverse_view P xs))"
    by (metis mset_filter multiset_partition)
  also have "\<dots> = mset (filter P xs) + mset (filter (\<lambda>x. \<not> P x) xs)"
    unfolding filter_reverse_view by simp
  also have "\<dots> = mset xs" by (metis mset_filter multiset_partition)
  finally show ?thesis .
qed

lemma put_back_original_places:
  "length ys = length (filter P xs) \<Longrightarrow> \<forall>y\<in>set ys. P y \<Longrightarrow> map P (put_back P xs ys) = map P xs"
proof (induction xs arbitrary: ys)
  case (Cons x xs)
  then show ?case by (cases ys) (auto split: if_splits)
qed simp

section \<open>The contract\<close>

interpretation reversal: packet_rewriter "\<lambda>ps. Inr (reverse_view P ps)" for P
proof
  fix ps qs :: "packet list"
  assume run: "Inr (reverse_view P ps) = Inr qs" and wf: "list_all wf_packet ps"
  then have m: "mset qs = mset ps" by auto
  then have "set qs = set ps" by (metis set_mset_mset)
  then show "list_all wf_packet qs" using wf by (simp add: list_all_iff)
  show "mset (verdicts qs) = mset (verdicts ps)" using m by (rule verdicts_perm)
  show "qs \<noteq> []" if "ps \<noteq> []" using m that by auto
qed

interpretation disorder_fake: header_pass "disorder_process_fake env args ctx" for env args ctx
  unfolding disorder_process_fake_def Let_def
  by (intro header_passing shared_ttl.header_pass_axioms shared_ts.header_pass_axioms
      shared_seq.header_pass_axioms shared_cksum.header_pass_axioms)

lemma disorder_seqovl_contract:
  assumes "disorder_seqovl_pass env args ctx ps = Inr (qs, k)" "list_all wf_packet ps"
  shows "list_all wf_packet qs \<and> mset (verdicts qs) = mset (verdicts ps) \<and> (ps \<noteq> [] \<longrightarrow> qs \<noteq> [])"
proof -
  have "qs = ps \<or> first_original ps \<noteq> length ps \<and> first_original ps + 1 \<noteq> length ps
      \<and> (\<exists>n. overlap_at env (ctx_conn ctx) (seqovl_pat args) n (word_of_nat sizeof_tcphdr)
               (first_original ps + 1) ps = Inr (qs, k))"
    using assms(1)
    by (auto simp: disorder_seqovl_pass_def disorder_seqovl_def optional_value_def Let_def res
        split: option.splits if_splits)
  then consider "qs = ps" | n where "first_original ps \<noteq> length ps" "first_original ps + 1 \<noteq> length ps"
      "overlap_at env (ctx_conn ctx) (seqovl_pat args) n (word_of_nat sizeof_tcphdr)
         (first_original ps + 1) ps = Inr (qs, k)" by blast
  then show ?thesis
  proof cases
    case 2
    then have "first_original ps + 1 < length ps" using first_original_le [of ps] by linarith
    then show ?thesis using overlap_at_contract [OF 2(3) assms(2)] by simp
  qed (use assms(2) in simp)
qed

interpretation disorder_orig: packet_rewriter "disorder_process_orig env args ctx" for env args ctx
proof -
  let ?conn = "ctx_conn ctx"
  define tail where "tail used = (\<lambda>(packets, inserted). and_then
      (cksum_pass args ?conn (used \<and> (1::nat) < inserted \<and> reallocates env \<and> view_caches_iterator env) original (rand_at env 0) packets) (\<lambda>packets.
      cksum_pass args ?conn (used \<and> 1 < inserted \<and> reallocates env \<and> view_caches_iterator env) original (rand_at env 1) packets))" for used
  have "packet_rewriter (\<lambda>ps. and_then (disorder_seqovl_pass env args ctx ps) (tail used))" for used
  proof (rule rewriter_then_pair)
    show "packet_rewriter (\<lambda>packets. tail used (packets, k))" for k
      unfolding tail_def prod.case by (intro rewriting shared_cksum.packet_rewriter_axioms)
  qed (rule disorder_seqovl_contract)
  then have "packet_rewriter (\<lambda>ps. and_then (split_passes args ctx ps) (\<lambda>ps.
      and_then (seq_pass args ?conn False original ps) (\<lambda>ps. and_then (ts_pass args ?conn original ps) (\<lambda>ps.
      and_then (ttl_pass args original ps) (\<lambda>ps. and_then (disorder_seqovl_pass env args ctx ps)
        (tail (arg_ttl args \<noteq> None \<or> (ts_offset args \<noteq> None \<or> seq_offset args \<noteq> None)
                \<and> l4_proto ?conn = IPPROTO_TCP)))))))"
    by (intro rewriting shared_splits.packet_rewriter_axioms shared_ttl.packet_rewriter_axioms
        shared_ts.packet_rewriter_axioms shared_seq.packet_rewriter_axioms)
  then show "packet_rewriter (disorder_process_orig env args ctx)"
    unfolding disorder_process_orig_def Let_def tail_def .
qed

lemma fake_cksum_run: "wf_packet p \<Longrightarrow> fake_cksum p = Inr (with_checksum p)"
  by (simp add: fake_cksum_def wf_run)

interpretation disorder: packet_rewriter "disorder_modify env args ctx" for env args ctx
  unfolding disorder_modify_def
  by (intro rewriting disorder_orig.packet_rewriter_axioms rewriter_prepend_fake
      disorder_fake.packet_rewriter_axioms fake_cksum_run reversal.packet_rewriter_axioms)

section \<open>Properties\<close>

text \<open>C33. The disorder modifier sends the real packets in exactly the reverse of the order they were
  in after its other steps; fake packets keep their places.\<close>

theorem disorder_reverses:
  assumes "disorder_modify env args ctx ps = Inr qs" "fake_blob args = None"
  shows "\<exists>mid. disorder_process_orig env args ctx ps = Inr mid
    \<and> filter original qs = rev (filter original mid)
    \<and> filter (\<lambda>p. \<not> original p) qs = filter (\<lambda>p. \<not> original p) mid
    \<and> map original qs = map original mid"
proof -
  obtain mid where mid: "disorder_process_orig env args ctx ps = Inr mid" and qs: "qs = reverse_view original mid"
    using assms by (auto simp: disorder_modify_def res)
  have "map original qs = map original mid"
    unfolding qs reverse_view_def by (rule put_back_original_places) simp_all
  with mid qs show ?thesis by (auto simp: filter_reverse_view)
qed

text \<open>Two ways the overlap of the disorder modifier stops the program: a single real packet has no
  second segment to put the overlap on, and a maximum segment size of zero, which a SYN without
  options leaves behind, is divided by.\<close>

theorem disorder_seqovl_stops:
  assumes "list_all wf_packet ps" "l4_proto (ctx_conn ctx) = IPPROTO_TCP"
    and "dis_seqovl args = Some pos" "calculate_seqovl_off pos (ctx_markers ctx) = Inr (Some n)"
    and "first_original ps < length ps" "unat n < length (payload_of (hd ps))"
  shows "if first_original ps + 1 = length ps then disorder_seqovl_pass env args ctx ps = Inl Invalid_iterator
    else \<forall>pl. overlap_payload (seqovl_pat args) n (payload_of (ps ! (first_original ps + 1))) = Inr pl
      \<and> mss_for env (ctx_conn ctx) (ps ! (first_original ps + 1)) (word_of_nat sizeof_tcphdr) = Inr 0 \<and> pl \<noteq> []
      \<longrightarrow> disorder_seqovl_pass env args ctx ps = Inl Division_by_zero"
proof -
  have front: "payload (hd ps) = Inr (payload_of (hd ps))"
    using assms(1,5) by (cases ps) (simp_all add: wf_payload)
  have "disorder_seqovl_pass env args ctx ps =
      (if first_original ps + 1 = length ps then Inl Invalid_iterator
       else overlap_at env (ctx_conn ctx) (seqovl_pat args) n (word_of_nat sizeof_tcphdr) (first_original ps + 1) ps)"
    using assms front
    by (simp add: disorder_seqovl_pass_def disorder_seqovl_def optional_value_def Let_def not_le)
  moreover have "overlap_at env (ctx_conn ctx) (seqovl_pat args) n (word_of_nat sizeof_tcphdr) (first_original ps + 1) ps
      = Inl Division_by_zero"
    if "first_original ps + 1 \<noteq> length ps"
      "overlap_payload (seqovl_pat args) n (payload_of (ps ! (first_original ps + 1))) = Inr pl"
      "mss_for env (ctx_conn ctx) (ps ! (first_original ps + 1)) (word_of_nat sizeof_tcphdr) = Inr 0" "pl \<noteq> []" for pl
  proof -
    define i where "i = first_original ps + 1"
    have w: "wf_packet (ps ! i)" using assms(1,5) that(1) by (simp add: list_all_length i_def)
    show ?thesis
      using that unfolding i_def [symmetric] by (simp add: overlap_at_def wf_parse [OF w] wf_payload [OF w] wf_seq [OF w] segmentize_zero [OF w] Let_def)
  qed
  ultimately show ?thesis by simp
qed

definition plain_disorder :: disorder_args where
  "plain_disorder = \<lparr>splits = [], fake_blob = None, badcksum = False, seq_offset = None, ts_offset = None,
     arg_ttl = None, l7_payload = None, seqovl_pat = None, dis_seqovl = None\<rparr>"

definition disorder_context :: modify_context where
  "disorder_context = \<lparr>ctx_full_payload = [1, 2, 3, 4], ctx_markers = no_markers, ctx_conn = tcp_connection\<rparr>"

lemma disorder_reverses_witness:
  "\<exists>qs. disorder_modify sample_env plain_disorder disorder_context sample_pair = Inr qs
     \<and> filter original qs = rev sample_pair"
proof -
  have orig: "disorder_process_orig sample_env plain_disorder disorder_context sample_pair = Inr sample_pair"
    by (simp add: disorder_process_orig_def plain_disorder_def split_passes_def seq_pass_def ts_pass_def
        ttl_pass_def disorder_seqovl_pass_def cksum_pass_def Let_def)
  then obtain qs where run: "disorder_modify sample_env plain_disorder disorder_context sample_pair = Inr qs"
    by (simp add: disorder_modify_def plain_disorder_def)
  have "filter original sample_pair = sample_pair"
    using sample_pair_fresh by (simp add: original_def [abs_def])
  then show ?thesis
    using disorder_reverses [OF run] orig run by (auto simp: plain_disorder_def)
qed

lemma disorder_seqovl_stops_witness:
  "disorder_seqovl_pass sample_env (plain_disorder\<lparr>dis_seqovl := Some (empty_position\<lparr>offset := 2\<rparr>)\<rparr>)
     disorder_context [sample_packet] = Inl Invalid_iterator"
proof -
  have "calculate_seqovl_off (empty_position\<lparr>offset := 2\<rparr>) (ctx_markers disorder_context) = Inr (Some 2)"
    by (simp add: calculate_seqovl_off_def empty_position_def HOSTSTART_STR_def HOSTEND_STR_def
        HOSTMID_STR_def SNIEXT_STR_def Let_def)
  then show ?thesis
    using disorder_seqovl_stops [of "[sample_packet]" disorder_context
        "plain_disorder\<lparr>dis_seqovl := Some (empty_position\<lparr>offset := 2\<rparr>)\<rparr>" _ 2 sample_env]
    by (simp add: disorder_context_def tcp_connection_def plain_disorder_def)
qed

end
