(* ===== verification/Modifier.thy ===== *)
theory Modifier
  imports Splitter Disorder
begin

text \<open>
  The chain of modifiers of a profile, \<^verbatim>\<open>modify/modifier.{hpp,cpp}\<close>: the host and address
  filter and the loop over the modifiers, with the virtual calls as a case distinction.
\<close>

datatype i_modifier = Splitter_modifier splitter_args | Disorder_modifier disorder_args

record modifier =
  modifiers :: "i_modifier list"
  hosts :: "byte list list option"
  ips :: "u32 list option"

text \<open>\<open>Modifier::filter\<close>; the hosts and addresses are sets of which only membership is asked.\<close>

definition host_of :: "byte list \<Rightarrow> nat \<Rightarrow> nat \<Rightarrow> byte list result" where
  "host_of full_payload hstart hend =
     (if hstart \<le> hend \<and> hend \<le> length full_payload
      then Inr (take (hend - hstart) (drop hstart full_payload)) else Inl Out_of_bounds)"

definition modifier_filter :: "modifier \<Rightarrow> packet list \<Rightarrow> byte list \<Rightarrow> markers \<Rightarrow> bool result" where
  "modifier_filter m packets full_payload marks =
     and_then
       (case ips m of
          None \<Rightarrow> Inr True
        | Some addrs \<Rightarrow>
            if packets = [] then Inl Invalid_iterator
            else and_then (ip_saddr (packet_bytes (hd packets)) (network_offset (hd packets)))
                   (\<lambda>saddr. Inr (saddr \<in> set addrs))) (\<lambda>ip_ok.
     if \<not> ip_ok then Inr False
     else
       case hosts m of
         None \<Rightarrow> Inr True
       | Some names \<Rightarrow>
           (case (hoststart marks, hostend marks) of
              (Some hstart, Some hend) \<Rightarrow>
                and_then (host_of full_payload hstart hend) (\<lambda>host. Inr (host \<in> set names))
            | _ \<Rightarrow> Inr True))"

definition modifier_step ::
  "environment \<Rightarrow> modify_context \<Rightarrow> i_modifier \<Rightarrow> packet list \<Rightarrow> packet list result" where
  "modifier_step env ctx m packets =
     (case m of
        Splitter_modifier args \<Rightarrow>
          if matches args (ctx_conn ctx) then splitter_modify env args ctx packets else Inr packets
      | Disorder_modifier args \<Rightarrow>
          if matches args (ctx_conn ctx) then disorder_modify env args ctx packets else Inr packets)"

definition modifier_modify :: "environment \<Rightarrow> modifier \<Rightarrow> connection \<Rightarrow> packet list \<Rightarrow> packet list result" where
  "modifier_modify env m conn vec =
     and_then (concat_view original vec) (\<lambda>full_payload.
     and_then (find_markers full_payload (payload_proto conn)) (\<lambda>marks.
     case marks of
       Inl _ \<Rightarrow> Inr vec
     | Inr marks \<Rightarrow>
         and_then (modifier_filter m vec full_payload marks) (\<lambda>wanted.
         if \<not> wanted then Inr vec
         else
           fold_r (modifier_step env
                     \<lparr>ctx_full_payload = full_payload, ctx_markers = marks, ctx_conn = conn\<rparr>)
             (modifiers m) vec)))"

section \<open>The contract\<close>

interpretation step: packet_rewriter "modifier_step env ctx m" for env ctx m
  unfolding modifier_step_def
  by (cases m)
    (simp_all only: i_modifier.case, (intro rewriting splitter.packet_rewriter_axioms disorder.packet_rewriter_axioms)+)

lemma modifier_modify_cases:
  assumes "modifier_modify env m conn ps = Inr qs"
  shows "qs = ps \<or> (\<exists>ctx. ctx_conn ctx = conn \<and> fold_r (modifier_step env ctx) (modifiers m) ps = Inr qs)"
proof -
  obtain full marks where f: "concat_view original ps = Inr full"
    and m: "find_markers full (payload_proto conn) = Inr marks"
    using assms unfolding modifier_modify_def and_then_Inr_iff by blast
  show ?thesis
  proof (cases marks)
    case (Inl e)
    then show ?thesis using assms f m by (simp add: modifier_modify_def)
  next
    case (Inr ms)
    then obtain wanted where w: "modifier_filter m ps full ms = Inr wanted"
      using assms f m by (auto simp: modifier_modify_def res)
    show ?thesis
    proof (cases wanted)
      case True
      then have "fold_r (modifier_step env \<lparr>ctx_full_payload = full, ctx_markers = ms, ctx_conn = conn\<rparr>)
          (modifiers m) ps = Inr qs"
        using assms f m Inr w by (simp add: modifier_modify_def)
      then show ?thesis
        by (intro disjI2 exI [of _ "\<lparr>ctx_full_payload = full, ctx_markers = ms, ctx_conn = conn\<rparr>"]) simp
    next
      case False
      then show ?thesis using assms f m Inr w by (simp add: modifier_modify_def)
    qed
  qed
qed

interpretation chain: packet_rewriter "modifier_modify env m conn" for env m conn
proof
  fix ps qs
  assume run: "modifier_modify env m conn ps = Inr qs" and wf: "list_all wf_packet ps"
  have F: "packet_rewriter (fold_r (modifier_step env ctx) (modifiers m))" for ctx
    by (intro rewriter_fold step.packet_rewriter_axioms)
  note C = modifier_modify_cases [OF run]
  show "list_all wf_packet qs" using C packet_rewriter.run_wf [OF F _ wf] wf by blast
  show "mset (verdicts qs) = mset (verdicts ps)" using C packet_rewriter.run_verdicts [OF F _ wf] by auto
  show "qs \<noteq> []" if "ps \<noteq> []" using C packet_rewriter.run_nonempty [OF F _ wf that] that by blast
qed

section \<open>Properties\<close>

text \<open>C4. Whatever modifiers a profile chains, with whatever arguments: if the modification returns,
  every queue id that was owed a verdict is still owed exactly as many verdicts as before, no other
  id is, and all packets are well-formed TCP packets.\<close>

theorem modifier_keeps_verdicts:
  assumes "modifier_modify env m conn ps = Inr qs" "list_all wf_packet ps"
  shows "mset (verdicts qs) = mset (verdicts ps) \<and> list_all wf_packet qs \<and> (ps \<noteq> [] \<longrightarrow> qs \<noteq> [])"
  using chain.run_verdicts [OF assms] chain.run_wf [OF assms] chain.run_nonempty [OF assms] by blast

text \<open>C35. A profile restricted to host names leaves the packets of every other host untouched: when
  the markers were found and the bytes they delimit are not one of the names, nothing changes.\<close>

theorem modifier_host_filter:
  assumes "concat_view original ps = Inr full" "find_markers full (payload_proto conn) = Inr (Inr marks)"
    and "hosts m = Some names" "ips m = None" "hoststart marks = Some hstart" "hostend marks = Some hend"
    and "hstart \<le> hend" "hend \<le> length full" "take (hend - hstart) (drop hstart full) \<notin> set names"
  shows "modifier_modify env m conn ps = Inr ps"
  using assms by (simp add: modifier_modify_def modifier_filter_def host_of_def)

definition sample_modifier :: modifier where
  "sample_modifier = \<lparr>modifiers = [Disorder_modifier plain_disorder], hosts = None, ips = None\<rparr>"

lemma sample_modifier_run:
  "modifier_modify sample_env sample_modifier tcp_connection sample_pair = Inr (rev sample_pair)"
proof -
  have "\<forall>p\<in>set sample_pair. original p \<longrightarrow> wf_packet p" using sample_pair_wf by (simp add: list_all_iff)
  then obtain full where full: "concat_view original sample_pair = Inr full" using wf_concat_view by blast
  have "find_markers full (payload_proto tcp_connection) = Inr (Inr no_markers)"
    by (simp add: find_markers_def tcp_connection_def new_connection_def)
  moreover have "disorder_modify sample_env plain_disorder ctx sample_pair = Inr (reverse_view original sample_pair)" for ctx
    by (simp add: disorder_modify_def disorder_process_orig_def plain_disorder_def split_passes_def seq_pass_def
        ts_pass_def ttl_pass_def disorder_seqovl_pass_def cksum_pass_def Let_def)
  ultimately have "modifier_modify sample_env sample_modifier tcp_connection sample_pair = Inr (reverse_view original sample_pair)"
    using full
    by (simp add: modifier_modify_def modifier_filter_def sample_modifier_def modifier_step_def matches_def
        plain_disorder_def)
  moreover have "reverse_view original sample_pair = rev sample_pair" by code_simp
  ultimately show ?thesis by simp
qed

lemma modifier_keeps_verdicts_witness:
  "\<exists>qs. modifier_modify sample_env sample_modifier tcp_connection sample_pair = Inr qs \<and> mset (verdicts qs) = {#7, 8#}"
proof -
  note run = sample_modifier_run
  have "verdicts sample_pair = [8, 7]" by code_simp
  then have "mset (verdicts sample_pair) = {#7, 8#}" by simp
  then show ?thesis using modifier_keeps_verdicts [OF run sample_pair_wf] run by auto
qed

text \<open>A plain request for a host that is not in the profile.\<close>

definition request_packet :: packet where
  "request_packet = packet_of (take 40 sample_bytes @ ascii ''Host: a'' @ crlf) 7"

lemma modifier_host_filter_witness:
  "modifier_modify sample_env (sample_modifier\<lparr>hosts := Some [ascii ''b'']\<rparr>) (tcp_connection\<lparr>payload_proto := HTTP\<rparr>)
     [request_packet] = Inr [request_packet]"
proof -
  have w: "wf_packet request_packet" and s: "assemble (map seg_of (filter original [request_packet])) = ascii ''Host: a'' @ crlf"
    by code_simp+
  have "concat_view original [request_packet] = Inr (ascii ''Host: a'' @ crlf)"
    using w s by (simp only: wf_concat_view list.set ball_simps simp_thms)
  moreover have "find_markers (ascii ''Host: a'' @ crlf) HTTP =
      Inr (Inr \<lparr>hoststart = Some 6, hostmid = Some 6, hostend = Some 7, sniext = None\<rparr>)"
    "ascii ''b'' \<noteq> take 1 (drop 6 (ascii ''Host: a'' @ crlf))" "length (ascii ''Host: a'' @ crlf) = 9"
    by code_simp+
  ultimately show ?thesis
    using modifier_host_filter [of "[request_packet]" "ascii ''Host: a'' @ crlf" "tcp_connection\<lparr>payload_proto := HTTP\<rparr>"
        "\<lparr>hoststart = Some 6, hostmid = Some 6, hostend = Some 7, sniext = None\<rparr>"
        "sample_modifier\<lparr>hosts := Some [ascii ''b'']\<rparr>" "[ascii ''b'']" 6 7 sample_env]
    by (simp add: sample_modifier_def)
qed

end
