(* ===== verification/Stream_Safety.thy ===== *)
theory Stream_Safety
  imports Modifier
begin

text \<open>
  The stream of the real packets: whatever a modifier does to them, the byte stream they carry stays
  the stream the sender wrote. The promise is a locale; splits, header passes, reversal and fake
  packets are its interpretations, and the chain of modifiers inherits it from them for every
  argument that is not meant to change sequence numbers or timestamps. Fake packets are told apart
  by the program's own mark here; what a receiver makes of real and fake packets is \<open>Receiver\<close>.
\<close>

section \<open>The promise\<close>

definition orig_segs :: "packet list \<Rightarrow> segment list" where
  "orig_segs ps = map seg_of (filter original ps)"

definition carries :: "u32 \<Rightarrow> (nat \<Rightarrow> byte) \<Rightarrow> packet list \<Rightarrow> bool" where
  "carries base S ps \<longleftrightarrow> windowed base (orig_segs ps) \<and> agrees base S (orig_segs ps)"

locale stream_keeper =
  fixes run :: "packet list \<Rightarrow> packet list result"
  assumes run_well_formed: "run ps = Inr qs \<Longrightarrow> list_all wf_packet ps \<Longrightarrow> list_all wf_packet qs"
    and run_carries: "run ps = Inr qs \<Longrightarrow> list_all wf_packet ps \<Longrightarrow> carries base S ps \<Longrightarrow>
      carries base S qs \<and> covered base (orig_segs qs) = covered base (orig_segs ps)"
begin

lemma run_concat:
  assumes "run ps = Inr qs" "list_all wf_packet ps" "carries base S ps"
  shows "concat_view original qs = concat_view original ps"
proof -
  have Q: "list_all wf_packet qs" "carries base S qs" "covered base (orig_segs qs) = covered base (orig_segs ps)"
    using run_well_formed [OF assms(1,2)] run_carries [OF assms] by simp_all
  have "assemble (orig_segs ps) = map S [0 ..< first_gap base (orig_segs ps)]"
    "assemble (orig_segs qs) = map S [0 ..< first_gap base (orig_segs qs)]"
    using assms(3) Q(2) unfolding carries_def by (blast intro: assemble_windowed)+
  then have "assemble (orig_segs qs) = assemble (orig_segs ps)"
    using Q(3) by (simp add: first_gap_def)
  then show ?thesis
    using assms(2) Q(1) by (simp add: wf_concat_view list_all_iff orig_segs_def)
qed

end

named_theorems stream_keeping "passes that keep the stream, and their compositions"

lemma keeper_skip [stream_keeping]: "stream_keeper (\<lambda>ps. Inr ps)"
  by unfold_locales simp_all

lemma keeper_then [stream_keeping]:
  assumes "stream_keeper f" "stream_keeper g"
  shows "stream_keeper (\<lambda>ps. and_then (f ps) g)"
proof
  fix ps rs
  assume "and_then (f ps) g = Inr rs" and wf: "list_all wf_packet ps"
  then obtain qs where f: "f ps = Inr qs" and g: "g qs = Inr rs" by (auto simp: res)
  note F = stream_keeper.run_well_formed [OF assms(1) f wf]
  show "list_all wf_packet rs" using assms(2) g F by (rule stream_keeper.run_well_formed)
  show "carries base S rs \<and> covered base (orig_segs rs) = covered base (orig_segs ps)"
    if "carries base S ps" for base S
    using stream_keeper.run_carries [OF assms(1) f wf that] stream_keeper.run_carries [OF assms(2) g F]
    by metis
qed

lemma keeper_if [stream_keeping]:
  "(b \<Longrightarrow> stream_keeper f) \<Longrightarrow> (\<not> b \<Longrightarrow> stream_keeper g)
   \<Longrightarrow> stream_keeper (\<lambda>ps. if b then f ps else g ps)"
  by (cases b) simp_all

lemma keeper_fold [stream_keeping]:
  assumes "\<And>x. x \<in> set xs \<Longrightarrow> stream_keeper (step x)"
  shows "stream_keeper (fold_r step xs)"
  using assms
proof (induction xs)
  case Nil
  have "fold_r step [] = (\<lambda>ps. Inr ps)" by (simp add: fun_eq_iff)
  then show ?case by (simp add: keeper_skip)
next
  case (Cons x xs)
  have "fold_r step (x # xs) = (\<lambda>ps. and_then (step x ps) (fold_r step xs))"
    by (simp add: fun_eq_iff)
  with Cons show ?case by (simp add: keeper_then)
qed

section \<open>Passes that keep the data\<close>

definition same_data :: "packet \<Rightarrow> packet \<Rightarrow> bool" where
  "same_data p q \<longleftrightarrow> wf_packet q \<and> is_fake_blob q = is_fake_blob p \<and> seg_of q = seg_of p"

lemma keeper_same_data:
  assumes "\<And>ps qs. f ps = Inr qs \<Longrightarrow> list_all wf_packet ps \<Longrightarrow> list_all2 same_data ps qs"
  shows "stream_keeper f"
proof
  fix ps qs base S
  assume "f ps = Inr qs" "list_all wf_packet ps"
  then have R: "list_all2 same_data ps qs" by (rule assms)
  then show "list_all wf_packet qs" by (induction rule: list_all2_induct) (simp_all add: same_data_def)
  have "orig_segs qs = orig_segs ps"
    using R unfolding orig_segs_def
    by (induction rule: list_all2_induct) (simp_all add: same_data_def original_def)
  then show "carries base S ps \<Longrightarrow> carries base S qs \<and> covered base (orig_segs qs) = covered base (orig_segs ps)"
    by (simp add: carries_def)
qed

lemma ttl_same_data:
  assumes "ttl_pass args P ps = Inr qs" "list_all wf_packet ps"
  shows "list_all2 same_data ps qs"
proof (cases "arg_ttl args")
  case None
  then show ?thesis using assms by (auto simp: ttl_pass_def same_data_def list_all2_same list_all_iff)
next
  case (Some ttl)
  have "ipv4_ttl P ttl ps = Inr qs" using assms(1) Some by (simp add: ttl_pass_def)
  then have "list_all2 (\<lambda>p q. wf_packet p \<longrightarrow> same_data p q) ps qs"
    unfolding ipv4_ttl_def by (rule map_view_list_all2) (auto simp: wf_run same_data_def seg_of_def)
  then show ?thesis
    using assms(2) by (induction rule: list_all2_induct) auto
qed

interpretation ttl_stream: stream_keeper "ttl_pass args P" for args :: "'a modifier_args_scheme" and P
  by (rule keeper_same_data) (rule ttl_same_data)

lemma spoil_same_data:
  assumes "map_r (\<lambda>(i, packet). if P packet then spoil_checksum (rnd i) packet else Inr packet)
      (enumerate n ps) = Inr qs" "list_all wf_packet ps"
  shows "list_all2 same_data ps qs"
  using assms
proof (induction ps arbitrary: n qs)
  case (Cons p ps)
  then show ?case by (auto simp: res spoil_checksum_wf same_data_def seg_of_def split: if_splits)
qed simp

lemma cksum_same_data:
  assumes "cksum_pass args conn stale P rnd ps = Inr qs" "list_all wf_packet ps"
  shows "list_all2 same_data ps qs"
proof -
  have "qs = ps \<or> map_r (\<lambda>(i, packet). if P packet then spoil_checksum (rnd i) packet else Inr packet)
      (enumerate 0 ps) = Inr qs"
    using assms(1) by (auto simp: cksum_pass_def through_view_def badchecksum_def split: if_splits)
  then show ?thesis
    using assms(2) spoil_same_data by (auto simp: same_data_def list_all2_same list_all_iff)
qed

interpretation cksum_stream: stream_keeper "cksum_pass args conn stale P rnd"
  for args :: "'a modifier_args_scheme" and conn stale P rnd
  by (rule keeper_same_data) (rule cksum_same_data)

section \<open>Splits, reversal, fake packets\<close>

lemma cut_orig_segs:
  assumes "list_all wf_packet ps" "i < length ps"
  shows "orig_segs (take i ps @ cut_first (ps ! i) k # cut_second (ps ! i) k # drop (i + 1) ps) =
    orig_segs (take i ps) @ (if original (ps ! i) then cut_segment k (seg_of (ps ! i)) else [])
      @ orig_segs (drop (i + 1) ps)"
    "orig_segs ps = orig_segs (take i ps) @ (if original (ps ! i) then [seg_of (ps ! i)] else [])
      @ orig_segs (drop (i + 1) ps)"
proof -
  have w: "wf_packet (ps ! i)" using assms by (simp add: list_all_length)
  then show "orig_segs (take i ps @ cut_first (ps ! i) k # cut_second (ps ! i) k # drop (i + 1) ps) =
    orig_segs (take i ps) @ (if original (ps ! i) then cut_segment k (seg_of (ps ! i)) else [])
      @ orig_segs (drop (i + 1) ps)"
    by (simp add: orig_segs_def original_def cut_segs [OF w, symmetric])
  show "orig_segs ps = orig_segs (take i ps) @ (if original (ps ! i) then [seg_of (ps ! i)] else [])
      @ orig_segs (drop (i + 1) ps)"
    by (subst id_take_nth_drop [OF assms(2)]) (simp add: orig_segs_def)
qed

interpretation split_stream: stream_keeper "split_pass marks proto pos" for marks proto pos
proof
  fix ps qs base S
  assume run: "split_pass marks proto pos ps = Inr qs" and wf: "list_all wf_packet ps"
  show "list_all wf_packet qs" using run wf by (rule splitting.run_wf)
  obtain r where "split ps pos marks proto = Inr (r, qs)" using run by (auto simp: split_pass_def res)
  note C = split_cases [OF wf this]
  show "carries base S qs \<and> covered base (orig_segs qs) = covered base (orig_segs ps)" if c: "carries base S ps"
    using C
  proof (elim disjE exE conjE)
    fix i k
    assume i: "i < length ps" and k: "k < payload_len ps i"
      and qs: "qs = take i ps @ cut_first (ps ! i) k # cut_second (ps ! i) k # drop (i + 1) ps"
    note S = cut_orig_segs [OF wf i]
    have le: "k \<le> length (snd (seg_of (ps ! i)))" using k by (simp add: seg_of_def payload_len_def)
    show ?thesis
    proof (cases "original (ps ! i)")
      case True
      have w: "windowed base (orig_segs (take i ps) @ seg_of (ps ! i) # orig_segs (drop (i + 1) ps))"
        and a: "agrees base S (orig_segs (take i ps) @ seg_of (ps ! i) # orig_segs (drop (i + 1) ps))"
        using c S(2) True by (simp_all add: carries_def)
      show ?thesis
        using cut_windowed [OF w a le] S True by (simp add: carries_def qs)
    qed (use c S in \<open>simp add: carries_def qs\<close>)
  qed (use c in simp)
qed

interpretation splits_stream: stream_keeper "split_passes args ctx"
  for args :: "'a modifier_args_scheme" and ctx
  unfolding split_passes_def by (intro keeper_fold split_stream.stream_keeper_axioms)

lemma carries_perm:
  "set (orig_segs qs) = set (orig_segs ps) \<Longrightarrow> carries base S ps \<Longrightarrow>
   carries base S qs \<and> covered base (orig_segs qs) = covered base (orig_segs ps)"
  by (simp add: carries_def windowed_def agrees_def covered_def)

interpretation reversal_stream: stream_keeper "\<lambda>ps. Inr (reverse_view original ps)"
proof
  fix ps qs base S
  assume run: "(Inr (reverse_view original ps) :: packet list result) = Inr qs" and wf: "list_all wf_packet ps"
  show "list_all wf_packet qs" by (rule reversal.run_wf [OF run wf])
  have "orig_segs qs = rev (orig_segs ps)"
    using run filter_reverse_view(1) [of original ps] by (auto simp: orig_segs_def rev_map)
  then show "carries base S ps \<Longrightarrow> carries base S qs \<and> covered base (orig_segs qs) = covered base (orig_segs ps)"
    by (intro carries_perm) simp_all
qed

lemma keeper_prepend_fake:
  assumes "packet_rewriter (\<lambda>ps. and_then (make_fake blob ps) (\<lambda>p. and_then (cksum p) (\<lambda>p.
      and_then (process [p]) (\<lambda>blobs. Inr (mark_fake blobs @ ps)))))"
  shows "stream_keeper (\<lambda>ps. and_then (make_fake blob ps) (\<lambda>p. and_then (cksum p) (\<lambda>p.
      and_then (process [p]) (\<lambda>blobs. Inr (mark_fake blobs @ ps)))))"
proof
  fix ps qs base S
  assume run: "and_then (make_fake blob ps) (\<lambda>p. and_then (cksum p) (\<lambda>p.
      and_then (process [p]) (\<lambda>blobs. Inr (mark_fake blobs @ ps)))) = Inr qs" and wf: "list_all wf_packet ps"
  show "list_all wf_packet qs" using assms run wf by (rule packet_rewriter.run_wf)
  obtain blobs where "qs = mark_fake blobs @ ps" using run by (auto simp: res)
  then have "orig_segs qs = orig_segs ps" by (simp add: orig_segs_def mark_fake_def original_def filter_map comp_def)
  then show "carries base S ps \<Longrightarrow> carries base S qs \<and> covered base (orig_segs qs) = covered base (orig_segs ps)"
    by (simp add: carries_def)
qed

section \<open>The modifiers\<close>

text \<open>
  Arguments that leave the data of the real packets alone: a fake packet is sent, or none of the
  offsets and no overlap is asked for.
\<close>

definition no_offsets :: "'a modifier_args_scheme \<Rightarrow> bool" where
  "no_offsets args \<longleftrightarrow> seq_offset args = None \<and> ts_offset args = None"

fun harmless :: "i_modifier \<Rightarrow> bool" where
  "harmless (Splitter_modifier args) = (fake_blob args \<noteq> None \<or> no_offsets args \<and> split_seqovl args = None)"
| "harmless (Disorder_modifier args) = (fake_blob args \<noteq> None \<or> no_offsets args \<and> dis_seqovl args = None)"

lemma splitter_plain_run:
  assumes "fake_blob args = None" "no_offsets args" "split_seqovl args = None"
  shows "splitter_modify env args ctx = (\<lambda>ps. and_then (split_passes args ctx ps) (\<lambda>ps.
    and_then (ttl_pass args original ps) (cksum_pass args (ctx_conn ctx) False original (rand_at env 0))))"
  using assms
  by (simp add: splitter_modify_def splitter_process_orig_def fun_eq_iff ts_pass_def seq_pass_def
      splitter_seqovl_pass_def no_offsets_def Let_def)

lemma disorder_plain_run:
  assumes "fake_blob args = None" "no_offsets args" "dis_seqovl args = None"
  shows "disorder_modify env args ctx = (\<lambda>ps. and_then (and_then (split_passes args ctx ps) (\<lambda>ps.
    and_then (ttl_pass args original ps) (\<lambda>ps.
    and_then (cksum_pass args (ctx_conn ctx) False original (rand_at env 0) ps)
      (cksum_pass args (ctx_conn ctx) False original (rand_at env 1)))))
    (\<lambda>ps. Inr (reverse_view original ps)))"
  using assms
  by (simp add: disorder_modify_def disorder_process_orig_def fun_eq_iff ts_pass_def seq_pass_def
      disorder_seqovl_pass_def no_offsets_def Let_def)

lemma splitter_stream:
  assumes "harmless (Splitter_modifier args)"
  shows "stream_keeper (splitter_modify env args ctx)"
proof (cases "fake_blob args")
  case (Some blob)
  show ?thesis
    unfolding splitter_modify_def Some option.case
    by (intro keeper_prepend_fake rewriter_prepend_fake splitter_fake.packet_rewriter_axioms
        wf_calc_packet_checksum)
next
  case None
  with assms have plain: "no_offsets args" "split_seqovl args = None" by simp_all
  show ?thesis
    unfolding splitter_plain_run [OF None plain]
    by (intro keeper_then splits_stream.stream_keeper_axioms ttl_stream.stream_keeper_axioms
        cksum_stream.stream_keeper_axioms)
qed

lemma disorder_stream:
  assumes "harmless (Disorder_modifier args)"
  shows "stream_keeper (disorder_modify env args ctx)"
proof (cases "fake_blob args")
  case (Some blob)
  show ?thesis
    unfolding disorder_modify_def Some option.case
    by (intro keeper_then keeper_prepend_fake rewriter_prepend_fake disorder_fake.packet_rewriter_axioms
        fake_cksum_run reversal_stream.stream_keeper_axioms)
next
  case None
  with assms have plain: "no_offsets args" "dis_seqovl args = None" by simp_all
  show ?thesis
    unfolding disorder_plain_run [OF None plain]
    by (intro keeper_then splits_stream.stream_keeper_axioms ttl_stream.stream_keeper_axioms
        cksum_stream.stream_keeper_axioms reversal_stream.stream_keeper_axioms)
qed

lemma step_stream: "harmless m \<Longrightarrow> stream_keeper (modifier_step env ctx m)"
  unfolding modifier_step_def
  by (cases m) (auto intro!: stream_keeping splitter_stream disorder_stream)

section \<open>The chain\<close>

text \<open>
  A chain of such modifiers, in any order, leaves the stream of the packets that are not marked
  fake as the sender wrote it.
\<close>

lemma original_stream_kept:
  assumes "modifier_modify env m conn ps = Inr qs" "list_all wf_packet ps"
    and "list_all harmless (modifiers m)" "carries base S ps"
  shows "concat_view original qs = concat_view original ps"
proof -
  have K: "stream_keeper (fold_r (modifier_step env ctx) (modifiers m))" for ctx
    using assms(3) by (intro keeper_fold step_stream) (simp add: list_all_iff)
  show ?thesis
    using modifier_modify_cases [OF assms(1)] stream_keeper.run_concat [OF K _ assms(2,4)] by blast
qed

end
