(* ===== verification/Iptables.thy ===== *)
theory Iptables
  imports Args
begin

text \<open>
  The iptables rules, \<^verbatim>\<open>sys/iptables.{hpp,cpp}\<close>, and the rule texts the program formats. The
  shell is a parameter: what \<^verbatim>\<open>iptables -S\<close> prints after the commands run so far (\<open>None\<close> if the
  pipe cannot be opened) and what \<open>system\<close> returns. The state is the list of commands run.
\<close>

record shell =
  listing :: "string list \<Rightarrow> string option"
  system_ret :: "string list \<Rightarrow> string \<Rightarrow> int"
  errno_text :: string

text \<open>Only the first 1024 bytes of the listing are read.\<close>

definition rule_exists :: "shell \<Rightarrow> string list \<Rightarrow> string \<Rightarrow> bool result" where
  "rule_exists sh commands rule =
     (case listing sh commands of
        None \<Rightarrow> Inl (Runtime_error (''Command '' @ [CHR 0x27] @ ''check_rule'' @ [CHR 0x27] @ '' could not be executed''))
      | Some output \<Rightarrow> let response = take 1024 output in Inr (find_sub rule response \<noteq> None))"

definition rule_add :: "shell \<Rightarrow> string \<Rightarrow> string list \<Rightarrow> string list result" where
  "rule_add sh rule commands =
     (if system_ret sh commands rule < 0 then Inl (Runtime_error (errno_text sh)) else Inr (commands @ [rule]))"

definition rule_remove :: "shell \<Rightarrow> string \<Rightarrow> string list \<Rightarrow> string list result" where
  "rule_remove sh rule commands =
     (if system_ret sh commands rule < 0 then Inl (Runtime_error (errno_text sh)) else Inr (commands @ [rule]))"

section \<open>Rule texts\<close>

definition format_int :: "int \<Rightarrow> string" where
  "format_int i = (if i < 0 then CHR ''-'' # show_nat (nat (- i)) else show_nat (nat i))"

definition MAX_REASM_SEGMENTS :: nat where "MAX_REASM_SEGMENTS = 20"

definition queue_target :: "nat \<Rightarrow> string" where
  "queue_target queue_number =
     ''-m connbytes --connbytes 0:'' @ show_nat MAX_REASM_SEGMENTS
     @ '' --connbytes-dir original --connbytes-mode packets -j NFQUEUE --queue-num '' @ show_nat queue_number"

text \<open>The texts of \<open>build_profiles\<close> (what is looked for and what is run) and of \<open>main\<close>.\<close>

definition profile_listed :: "string \<Rightarrow> int \<Rightarrow> nat \<Rightarrow> string" where
  "profile_listed proto port queue_number =
     ''-A OUTPUT -p '' @ proto @ '' -m '' @ proto @ '' --dport '' @ format_int port @ '' '' @ queue_target queue_number"

definition profile_add :: "string \<Rightarrow> int \<Rightarrow> nat \<Rightarrow> string" where
  "profile_add proto port queue_number =
     ''iptables -A OUTPUT -p '' @ proto @ '' --dport '' @ format_int port @ '' '' @ queue_target queue_number"

definition profile_remove :: "string \<Rightarrow> int \<Rightarrow> nat \<Rightarrow> string" where
  "profile_remove proto port queue_number =
     ''iptables -D OUTPUT -p '' @ proto @ '' -m '' @ proto @ '' --dport '' @ format_int port @ '' ''
     @ queue_target queue_number"

definition mark_rule :: "int \<Rightarrow> string" where
  "mark_rule mark = ''OUTPUT -m mark --mark '' @ format_int mark @ '' -j ACCEPT''"

text \<open>A rule is added unless the listing shows it.\<close>

definition ensure_rule :: "shell \<Rightarrow> string \<Rightarrow> string \<Rightarrow> string list \<Rightarrow> string list result" where
  "ensure_rule sh listed command commands =
     and_then (rule_exists sh commands listed) (\<lambda>exists.
     if exists then Inr commands else rule_add sh command commands)"

lemma ensure_rule_commands:
  "ensure_rule sh listed command commands = Inr commands' \<Longrightarrow>
     commands' = commands \<or> commands' = commands @ [command]"
  by (auto simp: ensure_rule_def rule_add_def res split: if_splits)

end
