(* ===== verification/Toml.thy ===== *)
theory Toml
  imports Args Packet
begin

text \<open>
  The tree \<open>toml::parse_file\<close> hands to the configuration code, and the node accessors the code
  uses. The parser and the two converting accessors belong to the toml++ library and are parameters
  (\<open>toml_lib\<close>); the others only ask which alternative a node is. A pointer the library
  returns is null exactly when the alternative or the key is missing.
\<close>

type_synonym i64 = "64 word"

datatype toml =
    Toml_string string
  | Toml_integer i64
  | Toml_floating_point
  | Toml_boolean bool
  | Toml_date_time
  | Toml_array "toml list"
  | Toml_table "(string \<times> toml) list"

type_synonym toml_table = "(string \<times> toml) list"

text \<open>
  \<open>lib_parse_file\<close> is \<open>toml::parse_file\<close>, with the text of the exception on the left;
  \<open>lib_value_int\<close> and \<open>lib_value_string\<close> are \<open>node::value<int>\<close> and \<open>node::value<std::string>\<close>;
  \<open>lib_inet_pton\<close> is \<open>inet_pton(AF_INET, _, _)\<close> and \<open>lib_fs\<close> the file system.
\<close>

record toml_lib =
  lib_parse_file :: "string \<Rightarrow> string + toml_table"
  lib_value_int :: "toml \<Rightarrow> i32 option"
  lib_value_string :: "toml \<Rightarrow> string option"
  lib_inet_pton :: "string \<Rightarrow> u32 option"
  lib_fs :: file_system

definition get :: "toml_table \<Rightarrow> string \<Rightarrow> toml option" where
  "get tbl key = map_of tbl key"

definition deref :: "'a option \<Rightarrow> 'a result" where
  "deref p = (case p of None \<Rightarrow> Inl Null_dereference | Some x \<Rightarrow> Inr x)"

lemma deref_simps [simp]: "deref None = Inl Null_dereference" "deref (Some x) = Inr x"
  by (simp_all add: deref_def)

fun as_string :: "toml \<Rightarrow> string option" where
  "as_string (Toml_string s) = Some s" | "as_string _ = None"

fun as_integer :: "toml \<Rightarrow> i64 option" where
  "as_integer (Toml_integer i) = Some i" | "as_integer _ = None"

fun as_boolean :: "toml \<Rightarrow> bool option" where
  "as_boolean (Toml_boolean b) = Some b" | "as_boolean _ = None"

fun as_array :: "toml \<Rightarrow> toml list option" where
  "as_array (Toml_array xs) = Some xs" | "as_array _ = None"

fun as_table :: "toml \<Rightarrow> toml_table option" where
  "as_table (Toml_table t) = Some t" | "as_table _ = None"

text \<open>A number is an integer or a floating-point number.\<close>

fun is_number :: "toml \<Rightarrow> bool" where
  "is_number (Toml_integer _) = True"
| "is_number Toml_floating_point = True"
| "is_number _ = False"

text \<open>The shape of every optional entry: absent, or read from its node.\<close>

definition entry :: "toml_table \<Rightarrow> string \<Rightarrow> (toml \<Rightarrow> 'a result) \<Rightarrow> 'a option result" where
  "entry tbl key read =
     (case get tbl key of None \<Rightarrow> Inr None | Some node \<Rightarrow> and_then (read node) (\<lambda>x. Inr (Some x)))"

lemma entry_simps [simp]:
  "get tbl key = None \<Longrightarrow> entry tbl key read = Inr None"
  "get tbl key = Some node \<Longrightarrow> entry tbl key read = and_then (read node) (\<lambda>x. Inr (Some x))"
  by (simp_all add: entry_def)

end
