(* ===== verification/Config.thy ===== *)
theory Config
  imports Toml Modifier
begin

text \<open>
  The arguments of the two modifiers, read from a configuration table: \<open>parse_config\<close> of
  \<^verbatim>\<open>modify/splitter.cpp\<close> and \<^verbatim>\<open>modify/disorder.cpp\<close>, with printers they are inverse to.
\<close>

section \<open>The entries both modifiers have\<close>

text \<open>
  A split position: any number counts as an offset but only integers can be read, and everything
  else must be a string.
\<close>

definition position_node :: "toml \<Rightarrow> position result" where
  "position_node node =
     (if is_number node then
        and_then (deref (as_integer node)) (\<lambda>i. Inr (empty_position\<lparr>offset := i\<rparr>))
      else and_then (deref (as_string node)) parse_position)"

definition split_at_node :: "string \<Rightarrow> toml \<Rightarrow> position list result" where
  "split_at_node name node =
     (case as_array node of
        None \<Rightarrow> Inl (Runtime_error (''split_at must be an array for '' @ [CHR 0x27] @ name @ [CHR 0x27]))
      | Some nodes \<Rightarrow> map_r position_node nodes)"

definition blob_node :: "file_system \<Rightarrow> string \<Rightarrow> toml \<Rightarrow> byte list result" where
  "blob_node fs what node =
     (case as_string node of
        None \<Rightarrow> Inl (Runtime_error (what @ '' must be a string''))
      | Some s \<Rightarrow> parse_blob fs s)"

definition cksum_node :: "toml \<Rightarrow> bool result" where
  "cksum_node node =
     (case as_boolean node of None \<Rightarrow> Inl (Runtime_error ''badcksum must be a bool'') | Some b \<Rightarrow> Inr b)"

text \<open>A number; \<open>emplace\<close> narrows it to the field's type.\<close>

definition number_node :: "string \<Rightarrow> toml \<Rightarrow> 'a::len word result" where
  "number_node what node =
     (if \<not> is_number node then Inl (Runtime_error (what @ '' must be a number''))
      else and_then (deref (as_integer node)) (\<lambda>i. Inr (ucast i)))"

definition l7_node :: "toml \<Rightarrow> l7_proto result" where
  "l7_node node =
     (case as_string node of
        None \<Rightarrow> Inl (Runtime_error ''l7_payload must be a string'')
      | Some s \<Rightarrow> string_to_proto s)"

text \<open>Everything before \<open>seqovl\<close>, in the order of the source.\<close>

definition parse_shared :: "file_system \<Rightarrow> string \<Rightarrow> toml_table \<Rightarrow> modifier_args result" where
  "parse_shared fs name tbl =
     and_then (entry tbl ''split_at'' (split_at_node name)) (\<lambda>split_pos.
     and_then (entry tbl ''fake_blob'' (blob_node fs ''fake_blob'')) (\<lambda>blob.
     and_then (entry tbl ''badcksum'' cksum_node) (\<lambda>cksum.
     and_then (entry tbl ''seq_off'' (number_node ''seq_off'')) (\<lambda>seq_off.
     and_then (entry tbl ''ts_off'' (number_node ''ts_off'')) (\<lambda>ts_off.
     and_then (entry tbl ''ipv4_ttl'' (number_node ''ipv4_ttl'')) (\<lambda>ttl.
     and_then (entry tbl ''l7_payload'' l7_node) (\<lambda>l7.
     Inr \<lparr>splits = (case split_pos of None \<Rightarrow> [] | Some ps \<Rightarrow> ps), fake_blob = blob,
          badcksum = (case cksum of None \<Rightarrow> False | Some b \<Rightarrow> b), seq_offset = seq_off, ts_offset = ts_off,
          arg_ttl = ttl, l7_payload = l7, seqovl_pat = None\<rparr>)))))))"

section \<open>The two modifiers\<close>

definition splitter_name :: string where "splitter_name = ''splitter''"
definition disorder_name :: string where "disorder_name = ''disorder''"

definition splitter_seqovl_node :: "toml \<Rightarrow> i32 result" where
  "splitter_seqovl_node node =
     (case as_integer node of
        None \<Rightarrow> Inl (Runtime_error ''seqovl must be an integer'')
      | Some i \<Rightarrow> Inr (ucast i))"

definition splitter_parse_config :: "file_system \<Rightarrow> toml_table \<Rightarrow> splitter_args result" where
  "splitter_parse_config fs tbl =
     and_then (parse_shared fs splitter_name tbl) (\<lambda>args.
     and_then (entry tbl ''seqovl'' splitter_seqovl_node) (\<lambda>ovl.
     and_then (entry tbl ''seqovl_pattern'' (blob_node fs ''seqovl_pattern'')) (\<lambda>pat.
     Inr (modifier_args.extend (args\<lparr>seqovl_pat := pat\<rparr>) (splitter_args.fields ovl)))))"

definition disorder_parse_config :: "file_system \<Rightarrow> toml_table \<Rightarrow> disorder_args result" where
  "disorder_parse_config fs tbl =
     and_then (parse_shared fs disorder_name tbl) (\<lambda>args.
     and_then (entry tbl ''seqovl'' position_node) (\<lambda>ovl.
     and_then (entry tbl ''seqovl_pattern'' (blob_node fs ''seqovl_pattern'')) (\<lambda>pat.
     Inr (modifier_args.extend (args\<lparr>seqovl_pat := pat\<rparr>) (disorder_args.fields ovl)))))"

section \<open>Printers\<close>

definition show_proto :: "l7_proto \<Rightarrow> string" where
  "show_proto proto =
     (case proto of TLS \<Rightarrow> ''tls'' | HTTP \<Rightarrow> ''http'' | QUIC \<Rightarrow> ''quic_initial'' | EMPTY \<Rightarrow> ''empty''
      | UNKNOWN \<Rightarrow> ''unknown'')"

definition optional_entry :: "string \<Rightarrow> ('a \<Rightarrow> toml) \<Rightarrow> 'a option \<Rightarrow> toml_table" where
  "optional_entry key printer x = (case x of None \<Rightarrow> [] | Some v \<Rightarrow> [(key, printer v)])"

definition show_blob :: "byte list \<Rightarrow> toml" where "show_blob bs = Toml_string (''0x'' @ show_hex bs)"
definition show_int :: "i32 \<Rightarrow> toml" where "show_int i = Toml_integer (scast i)"
definition show_pos :: "position \<Rightarrow> toml" where "show_pos p = Toml_string (show_position p)"

definition show_shared :: "'a modifier_args_scheme \<Rightarrow> toml_table" where
  "show_shared args =
     (''split_at'', Toml_array (map show_pos (splits args)))
     # (''badcksum'', Toml_boolean (badcksum args))
     # optional_entry ''fake_blob'' show_blob (fake_blob args)
     @ optional_entry ''seq_off'' show_int (seq_offset args)
     @ optional_entry ''ts_off'' show_int (ts_offset args)
     @ optional_entry ''ipv4_ttl'' (\<lambda>ttl. Toml_integer (ucast ttl)) (arg_ttl args)
     @ optional_entry ''l7_payload'' (\<lambda>p. Toml_string (show_proto p)) (l7_payload args)
     @ optional_entry ''seqovl_pattern'' show_blob (seqovl_pat args)"

definition show_splitter :: "splitter_args \<Rightarrow> toml_table" where
  "show_splitter args = show_shared args @ optional_entry ''seqovl'' show_int (split_seqovl args)"

definition show_disorder :: "disorder_args \<Rightarrow> toml_table" where
  "show_disorder args = show_shared args @ optional_entry ''seqovl'' show_pos (dis_seqovl args)"

section \<open>Round trips\<close>

lemma get_append: "get (xs @ ys) key = (case get xs key of None \<Rightarrow> get ys key | Some v \<Rightarrow> Some v)"
  by (simp add: get_def map_add_def split: option.splits)

lemma get_Cons: "get ((k, v) # xs) key = (if k = key then Some v else get xs key)"
  by (simp add: get_def)

lemma get_optional_entry:
  "get (optional_entry k printer x) key = (if k = key then map_option printer x else None)"
  by (cases x) (auto simp: optional_entry_def get_def)

lemmas get_entry = get_append get_Cons get_optional_entry

lemma string_to_proto_show: "string_to_proto (show_proto p) = Inr p"
  by (cases p) (simp_all add: show_proto_def string_to_proto_def)

lemma ucast_scast_int: "ucast (scast (i :: i32) :: i64) = i"
  by transfer (simp add: take_bit_signed_take_bit)

lemma ucast_ucast_byte: "ucast (ucast (b :: byte) :: i64) = b"
  by transfer simp

lemma position_show_pos: "wf_position p \<Longrightarrow> position_node (show_pos p) = Inr p"
  by (simp add: position_node_def show_pos_def parse_show_position)

lemma positions_show_pos: "list_all wf_position ps \<Longrightarrow> map_r position_node (map show_pos ps) = Inr ps"
  by (induction ps) (simp_all add: position_show_pos)

lemma number_show_int: "number_node what (show_int i) = Inr (i :: i32)"
  by (simp add: number_node_def show_int_def ucast_scast_int)

lemma blob_show_blob: "blob_node fs what (show_blob bs) = Inr bs"
  using parse_show_blob [of fs bs] by (simp add: blob_node_def show_blob_def)

text \<open>Reading an optional entry back, whatever else the table holds.\<close>

lemma entry_optional:
  assumes "get tbl key = map_option printer x" "\<And>v. x = Some v \<Longrightarrow> read (printer v) = Inr v"
  shows "entry tbl key read = Inr x"
  using assms by (cases x) simp_all

lemma parse_shared_show:
  assumes "list_all wf_position (splits args)" "get tbl ''split_at'' = Some (Toml_array (map show_pos (splits args)))"
    and "get tbl ''badcksum'' = Some (Toml_boolean (badcksum args))"
    and "get tbl ''fake_blob'' = map_option show_blob (fake_blob args)"
    and "get tbl ''seq_off'' = map_option show_int (seq_offset args)"
    and "get tbl ''ts_off'' = map_option show_int (ts_offset args)"
    and "get tbl ''ipv4_ttl'' = map_option (\<lambda>ttl. Toml_integer (ucast ttl)) (arg_ttl args)"
    and "get tbl ''l7_payload'' = map_option (\<lambda>p. Toml_string (show_proto p)) (l7_payload args)"
  shows "parse_shared fs name tbl = Inr (modifier_args.truncate args\<lparr>seqovl_pat := None\<rparr>)"
proof -
  have "entry tbl ''split_at'' (split_at_node name) = Inr (Some (splits args))"
    by (simp add: assms(1,2) split_at_node_def positions_show_pos)
  moreover have "entry tbl ''badcksum'' cksum_node = Inr (Some (badcksum args))"
    by (simp add: assms(3) cksum_node_def)
  moreover have "entry tbl ''fake_blob'' (blob_node fs ''fake_blob'') = Inr (fake_blob args)"
    by (rule entry_optional [OF assms(4)]) (rule blob_show_blob)
  moreover have "entry tbl ''seq_off'' (number_node ''seq_off'') = Inr (seq_offset args)"
    by (rule entry_optional [OF assms(5)]) (rule number_show_int)
  moreover have "entry tbl ''ts_off'' (number_node ''ts_off'') = Inr (ts_offset args)"
    by (rule entry_optional [OF assms(6)]) (rule number_show_int)
  moreover have "entry tbl ''ipv4_ttl'' (number_node ''ipv4_ttl'') = Inr (arg_ttl args)"
    by (rule entry_optional [OF assms(7)]) (simp add: number_node_def ucast_ucast_byte)
  moreover have "entry tbl ''l7_payload'' l7_node = Inr (l7_payload args)"
    by (rule entry_optional [OF assms(8)]) (simp add: l7_node_def string_to_proto_show)
  ultimately show ?thesis
    by (simp add: parse_shared_def modifier_args.truncate_def)
qed

lemma splitter_config_roundtrip:
  assumes "list_all wf_position (splits args)"
  shows "splitter_parse_config fs (show_splitter args) = Inr args"
proof -
  let ?tbl = "show_splitter args"
  note G = show_splitter_def show_shared_def get_entry
  have shared: "parse_shared fs splitter_name ?tbl = Inr (modifier_args.truncate args\<lparr>seqovl_pat := None\<rparr>)"
    by (rule parse_shared_show [OF assms]) (simp_all add: G split: option.splits)
  have "entry ?tbl ''seqovl'' splitter_seqovl_node = Inr (split_seqovl args)"
    by (rule entry_optional [where printer = show_int])
      (simp_all add: G splitter_seqovl_node_def show_int_def ucast_scast_int split: option.splits)
  moreover have "entry ?tbl ''seqovl_pattern'' (blob_node fs ''seqovl_pattern'') = Inr (seqovl_pat args)"
    by (rule entry_optional [where printer = show_blob]) (simp_all add: G blob_show_blob split: option.splits)
  ultimately show ?thesis
    by (simp add: splitter_parse_config_def shared modifier_args.defs splitter_args.defs)
qed

lemma disorder_config_roundtrip:
  assumes "list_all wf_position (splits args)" "pred_option wf_position (dis_seqovl args)"
  shows "disorder_parse_config fs (show_disorder args) = Inr args"
proof -
  let ?tbl = "show_disorder args"
  note G = show_disorder_def show_shared_def get_entry
  have shared: "parse_shared fs disorder_name ?tbl = Inr (modifier_args.truncate args\<lparr>seqovl_pat := None\<rparr>)"
    by (rule parse_shared_show [OF assms(1)]) (simp_all add: G split: option.splits)
  have "entry ?tbl ''seqovl'' position_node = Inr (dis_seqovl args)"
    using assms(2)
    by (intro entry_optional [where printer = show_pos])
      (simp_all add: G position_show_pos split: option.splits)
  moreover have "entry ?tbl ''seqovl_pattern'' (blob_node fs ''seqovl_pattern'') = Inr (seqovl_pat args)"
    by (rule entry_optional [where printer = show_blob]) (simp_all add: G blob_show_blob split: option.splits)
  ultimately show ?thesis
    by (simp add: disorder_parse_config_def shared modifier_args.defs disorder_args.defs)
qed

end
