(* ===== verification/Profile.thy ===== *)
theory Profile
  imports Config Iptables
begin

text \<open>
  Profiles and their configuration, \<^verbatim>\<open>config/profile.{hpp,cpp}\<close>: the classifiers and modifiers a
  table asks for, and \<open>build_profiles\<close>, which reads the whole file and sets up the rules that send
  the profiles' packets to the queue.
\<close>

record profile =
  prof_classifier :: "payload_classifier_class list"
  prof_modifier :: modifier

text \<open>The hash table, as an association list; the key is a destination port and a protocol.\<close>

type_synonym profiles = "((u16 \<times> int) \<times> profile) list"

definition quoted :: "string \<Rightarrow> string" where "quoted s = [CHR 0x27] @ s @ [CHR 0x27]"

definition tls_classifier_name :: string where "tls_classifier_name = ''tls_handshake_classifier''"
definition http_classifier_name :: string where "http_classifier_name = ''http_classifier''"

definition create_classifier :: "string \<Rightarrow> toml_table \<Rightarrow> payload_classifier_class result" where
  "create_classifier name tbl =
     (if name = tls_classifier_name then Inr TlsHandshakeClassifier
      else if name = http_classifier_name then Inr HttpClassifier
      else Inl (Runtime_error (''Unknown classifier name: '' @ quoted name)))"

definition create_modifier :: "file_system \<Rightarrow> string \<Rightarrow> toml_table \<Rightarrow> i_modifier result" where
  "create_modifier fs name tbl =
     (if name = splitter_name then and_then (splitter_parse_config fs tbl) (\<lambda>args. Inr (Splitter_modifier args))
      else if name = disorder_name then and_then (disorder_parse_config fs tbl) (\<lambda>args. Inr (Disorder_modifier args))
      else Inl (Runtime_error (''Unknown modifier name: '' @ quoted name)))"

section \<open>build\_profiles\<close>

definition required :: "toml_table \<Rightarrow> string \<Rightarrow> string \<Rightarrow> toml result" where
  "required tbl key message =
     (case get tbl key of None \<Rightarrow> Inl (Runtime_error message) | Some node \<Rightarrow> Inr node)"

definition protocol_number :: "string \<Rightarrow> string \<Rightarrow> int result" where
  "protocol_number name protocol_str =
     (if protocol_str = ''tcp'' then Inr (uint IPPROTO_TCP)
      else if protocol_str = ''udp'' then Inr (uint IPPROTO_UDP)
      else Inl (Runtime_error (''Unknown protocol specified for profile '' @ quoted name)))"

definition ip_node :: "toml_lib \<Rightarrow> toml \<Rightarrow> u32 result" where
  "ip_node lib node =
     (case as_string node of
        None \<Rightarrow> Inl (Runtime_error ''All ips must be strings'')
      | Some addr_str \<Rightarrow>
          (case lib_inet_pton lib addr_str of
             None \<Rightarrow> Inl (Runtime_error (''Could not convert address '' @ quoted addr_str))
           | Some addr \<Rightarrow> Inr addr))"

definition host_node :: "toml \<Rightarrow> byte list result" where
  "host_node node =
     (case as_string node of
        None \<Rightarrow> Inl (Runtime_error ''All hosts must be strings'')
      | Some s \<Rightarrow> Inr (ascii s))"

definition array_node :: "string \<Rightarrow> (toml \<Rightarrow> 'a result) \<Rightarrow> toml \<Rightarrow> 'a list result" where
  "array_node what read node =
     (case as_array node of
        None \<Rightarrow> Inl (Runtime_error (what @ '' must be an array''))
      | Some nodes \<Rightarrow> map_r read nodes)"

text \<open>
  One element of \<^verbatim>\<open>classifiers\<close> or \<^verbatim>\<open>modifiers\<close>: the name must be there, as a string; the
  check the source makes afterwards never fails.
\<close>

definition named_node :: "(string \<Rightarrow> toml_table \<Rightarrow> 'a result) \<Rightarrow> toml \<Rightarrow> 'a result" where
  "named_node create node =
     and_then (deref (as_table node)) (\<lambda>tbl.
     and_then (deref (get tbl ''name'')) (\<lambda>name_node.
     and_then (deref (as_string name_node)) (\<lambda>name.
     create name tbl)))"

definition profile_body :: "toml_lib \<Rightarrow> string \<Rightarrow> toml_table \<Rightarrow> profile result" where
  "profile_body lib name tbl =
     and_then (entry tbl ''allowed_ips'' (array_node ''allowed_ips'' (ip_node lib))) (\<lambda>allowed_ips.
     and_then (entry tbl ''allowed_hosts'' (array_node ''allowed_hosts'' host_node)) (\<lambda>allowed_hosts.
     and_then (required tbl ''classifiers'' (''At least 1 classifier must be defined for a profile '' @ quoted name)) (\<lambda>cnode.
     and_then (deref (as_array cnode)) (\<lambda>cnodes.
     and_then (map_r (named_node create_classifier) cnodes) (\<lambda>cs.
     and_then (required tbl ''modifiers'' (''Modifier nae not not defined in profile '' @ quoted name)) (\<lambda>mnode.
     and_then (deref (as_array mnode)) (\<lambda>mnodes.
     and_then (map_r (named_node (create_modifier (lib_fs lib))) mnodes) (\<lambda>ms.
     Inr \<lparr>prof_classifier = cs, prof_modifier = \<lparr>modifiers = ms, hosts = allowed_hosts, ips = allowed_ips\<rparr>\<rparr>))))))))"

text \<open>
  The body of the loop over the profiles. The port is narrowed to 16 bits in the key but not in
  the rule; a key that is already there is refused before the rest of the table is read.
\<close>

definition build_profile ::
  "toml_lib \<Rightarrow> shell \<Rightarrow> nat \<Rightarrow> string \<times> toml \<Rightarrow> profiles \<times> string list \<Rightarrow> (profiles \<times> string list) result" where
  "build_profile lib sh queue_number = (\<lambda>(name, node) (ret, commands).
     and_then (deref (as_table node)) (\<lambda>tbl.
     and_then (required tbl ''port'' (''Port is not defined for profile '' @ quoted name)) (\<lambda>port_node.
     and_then (required tbl ''protocol'' (''Protocol is not defined for profile '' @ quoted name)) (\<lambda>protocol_node.
     and_then (optional_value (lib_value_int lib port_node)) (\<lambda>port.
     and_then (optional_value (lib_value_string lib protocol_node)) (\<lambda>protocol_str.
     and_then (protocol_number name protocol_str) (\<lambda>protocol.
     let key = (ucast port :: u16, protocol) in
     if map_of ret key \<noteq> None then Inl (Runtime_error ''Duplicate port,protocol pair'')
     else
       and_then (profile_body lib name tbl) (\<lambda>prof.
       and_then (ensure_rule sh (profile_listed protocol_str (sint port) queue_number)
                   (profile_add protocol_str (sint port) queue_number) commands) (\<lambda>commands.
       Inr ((key, prof) # ret, commands))))))))))"

definition build_profiles ::
  "toml_lib \<Rightarrow> shell \<Rightarrow> string \<Rightarrow> nat \<Rightarrow> string list \<Rightarrow> (profiles \<times> string list) result" where
  "build_profiles lib sh cfg_path queue_number commands =
     (case lib_parse_file lib cfg_path of
        Inl err \<Rightarrow> Inl (Runtime_error err)
      | Inr tbl \<Rightarrow>
          (case get tbl ''profile'' of
             Some (Toml_table table) \<Rightarrow> fold_r (build_profile lib sh queue_number) table ([], commands)
           | _ \<Rightarrow> Inl (Runtime_error ''At least 1 profile must be defined'')))"

lemma build_profile_cases:
  assumes "build_profile lib sh q (name, node) (ret, commands) = Inr (ret', commands')"
  obtains tbl port_node proto_node port str proto prof where "as_table node = Some tbl"
    "get tbl ''port'' = Some port_node" "get tbl ''protocol'' = Some proto_node"
    "lib_value_int lib port_node = Some port" "lib_value_string lib proto_node = Some str"
    "protocol_number name str = Inr proto" "map_of ret (ucast port, proto) = None"
    "profile_body lib name tbl = Inr prof" "ret' = ((ucast port, proto), prof) # ret"
    "ensure_rule sh (profile_listed str (sint port) q) (profile_add str (sint port) q) commands = Inr commands'"
  using assms
  by (auto simp: build_profile_def required_def deref_def optional_value_def Let_def res
      split: option.splits if_splits)

section \<open>Properties\<close>

fun modifier_name :: "i_modifier \<Rightarrow> string" where
  "modifier_name (Splitter_modifier _) = splitter_name"
| "modifier_name (Disorder_modifier _) = disorder_name"

fun show_modifier :: "i_modifier \<Rightarrow> toml_table" where
  "show_modifier (Splitter_modifier args) = show_splitter args"
| "show_modifier (Disorder_modifier args) = show_disorder args"

fun wf_modifier :: "i_modifier \<Rightarrow> bool" where
  "wf_modifier (Splitter_modifier args) = list_all wf_position (splits args)"
| "wf_modifier (Disorder_modifier args) =
     (list_all wf_position (splits args) \<and> pred_option wf_position (dis_seqovl args))"

text \<open>C20. A modifier survives its configuration: printing its arguments as a table and creating the
  modifier of that name from the table gives the same modifier back, split positions, payloads,
  negative offsets and all.\<close>

theorem create_modifier_roundtrip:
  assumes "wf_modifier m"
  shows "create_modifier fs (modifier_name m) (show_modifier m) = Inr m"
  using assms
  by (cases m)
    (simp_all add: create_modifier_def splitter_name_def disorder_name_def
      splitter_config_roundtrip disorder_config_roundtrip)

text \<open>A configuration with one profile, and libraries that behave as documented on it.\<close>

definition sample_lib :: toml_lib where
  "sample_lib = \<lparr>lib_parse_file = \<lambda>_. Inr [(''profile'', Toml_table [(''web'', Toml_table
       [(''port'', Toml_integer 443), (''protocol'', Toml_string ''tcp''),
        (''classifiers'', Toml_array [Toml_table [(''name'', Toml_string ''http_classifier'')]]),
        (''modifiers'', Toml_array [Toml_table [(''name'', Toml_string ''disorder'')]])])])],
     lib_value_int = (\<lambda>node. map_option ucast (as_integer node)), lib_value_string = as_string,
     lib_inet_pton = \<lambda>_. None, lib_fs = \<lparr>fs_exists = \<lambda>_. False, fs_read = \<lambda>_. Inl ''''\<rparr>\<rparr>"

definition sample_shell :: shell where
  "sample_shell = \<lparr>listing = \<lambda>_. Some '''', system_ret = \<lambda>_ _. 0, errno_text = ''''\<rparr>"

definition sample_profile :: profile where
  "sample_profile = \<lparr>prof_classifier = [HttpClassifier], prof_modifier = sample_modifier\<rparr>"

lemma create_modifier_roundtrip_witness:
  "create_modifier (lib_fs sample_lib) ''disorder'' (show_disorder (plain_disorder\<lparr>seq_offset := Some (- 5), fake_blob := Some [7]\<rparr>))
     = Inr (Disorder_modifier (plain_disorder\<lparr>seq_offset := Some (- 5), fake_blob := Some [7]\<rparr>))"
  using create_modifier_roundtrip
    [of "Disorder_modifier (plain_disorder\<lparr>seq_offset := Some (- 5), fake_blob := Some [7]\<rparr>)" "lib_fs sample_lib"]
  by (simp add: plain_disorder_def disorder_name_def)

lemma sample_build:
  "build_profiles sample_lib sample_shell ''c'' 1489 commands =
     Inr ([((443, 6), sample_profile)], commands @ [profile_add ''tcp'' 443 1489])"
proof -
  have e: "rule_exists sample_shell commands (profile_listed ''tcp'' 443 1489) = Inr False"
    by (simp add: rule_exists_def sample_shell_def find_sub_def profile_listed_def)
  then have r: "ensure_rule sample_shell (profile_listed ''tcp'' 443 1489) (profile_add ''tcp'' 443 1489) commands
      = Inr (commands @ [profile_add ''tcp'' 443 1489])"
    by (simp add: ensure_rule_def rule_add_def sample_shell_def)
  have d: "disorder_parse_config fs [(''name'', Toml_string ''disorder'')] = Inr plain_disorder" for fs
    by (simp add: disorder_parse_config_def parse_shared_def entry_def get_def plain_disorder_def
        modifier_args.defs disorder_args.defs)
  show ?thesis
    by (simp add: build_profiles_def sample_lib_def build_profile_def get_def required_def optional_value_def
        protocol_number_def IPPROTO_TCP_def profile_body_def entry_def named_node_def create_classifier_def
        http_classifier_name_def tls_classifier_name_def create_modifier_def disorder_name_def splitter_name_def
        d r sample_profile_def sample_modifier_def Let_def)
qed

end
