(* ===== verification/Asked.thy ===== *)
theory Asked
  imports Profile
begin

text \<open>
  What a configuration file asks for, read off the file alone: the keys, the names, the fields of
  the modifiers, the filters and the rules, spelled out without the code that reads them. Only the
  two little languages inside strings, split positions and payloads, are taken from \<open>Args\<close>, where
  they have their own theorems. The result is that \<open>build_profiles\<close> builds what is asked for.
\<close>

section \<open>Entries of a table\<close>

definition optional_asked :: "toml_table \<Rightarrow> string \<Rightarrow> (toml \<Rightarrow> 'a \<Rightarrow> bool) \<Rightarrow> 'a option \<Rightarrow> bool" where
  "optional_asked tbl key asks x \<longleftrightarrow>
     (case map_of tbl key of None \<Rightarrow> x = None | Some node \<Rightarrow> (\<exists>v. x = Some v \<and> asks node v))"

definition list_asked :: "(toml \<Rightarrow> 'a \<Rightarrow> bool) \<Rightarrow> toml \<Rightarrow> 'a list \<Rightarrow> bool" where
  "list_asked asks node xs \<longleftrightarrow> (\<exists>nodes. node = Toml_array nodes \<and> list_all2 asks nodes xs)"

text \<open>An integer is narrowed to the width of the field.\<close>

definition number_asked :: "toml \<Rightarrow> 'a::len word \<Rightarrow> bool" where
  "number_asked node w \<longleftrightarrow> (\<exists>i. node = Toml_integer i \<and> uint w = uint i mod 2 ^ LENGTH('a))"

definition position_asked :: "toml \<Rightarrow> position \<Rightarrow> bool" where
  "position_asked node pos \<longleftrightarrow>
     node = Toml_integer (offset pos) \<and> arg pos = '''' \<and> operation pos = NoOp
     \<or> (\<exists>s. node = Toml_string s \<and> parse_position s = Inr pos)"

definition blob_asked :: "file_system \<Rightarrow> toml \<Rightarrow> byte list \<Rightarrow> bool" where
  "blob_asked fs node bs \<longleftrightarrow> (\<exists>s. node = Toml_string s \<and> parse_blob fs s = Inr bs)"

definition proto_asked :: "toml \<Rightarrow> l7_proto \<Rightarrow> bool" where
  "proto_asked node proto \<longleftrightarrow>
     (node, proto) \<in> {(Toml_string ''tls'', TLS), (Toml_string ''http'', HTTP),
       (Toml_string ''quic_initial'', QUIC), (Toml_string ''empty'', EMPTY), (Toml_string ''unknown'', UNKNOWN)}"

section \<open>Modifiers and classifiers\<close>

definition shared_asked :: "file_system \<Rightarrow> toml_table \<Rightarrow> 'a modifier_args_scheme \<Rightarrow> bool" where
  "shared_asked fs tbl args \<longleftrightarrow>
     (case map_of tbl ''split_at'' of
        None \<Rightarrow> splits args = [] | Some node \<Rightarrow> list_asked position_asked node (splits args))
     \<and> optional_asked tbl ''fake_blob'' (blob_asked fs) (fake_blob args)
     \<and> (case map_of tbl ''badcksum'' of
          None \<Rightarrow> \<not> badcksum args | Some node \<Rightarrow> node = Toml_boolean (badcksum args))
     \<and> optional_asked tbl ''seq_off'' number_asked (seq_offset args)
     \<and> optional_asked tbl ''ts_off'' number_asked (ts_offset args)
     \<and> optional_asked tbl ''ipv4_ttl'' number_asked (arg_ttl args)
     \<and> optional_asked tbl ''l7_payload'' proto_asked (l7_payload args)
     \<and> optional_asked tbl ''seqovl_pattern'' (blob_asked fs) (seqovl_pat args)"

definition named :: "string \<Rightarrow> toml \<Rightarrow> toml_table \<Rightarrow> bool" where
  "named name node tbl \<longleftrightarrow> node = Toml_table tbl \<and> map_of tbl ''name'' = Some (Toml_string name)"

fun modifier_asked :: "file_system \<Rightarrow> toml \<Rightarrow> i_modifier \<Rightarrow> bool" where
  "modifier_asked fs node (Splitter_modifier args) \<longleftrightarrow>
     (\<exists>tbl. named ''splitter'' node tbl \<and> shared_asked fs tbl args
        \<and> optional_asked tbl ''seqovl'' number_asked (split_seqovl args))"
| "modifier_asked fs node (Disorder_modifier args) \<longleftrightarrow>
     (\<exists>tbl. named ''disorder'' node tbl \<and> shared_asked fs tbl args
        \<and> optional_asked tbl ''seqovl'' position_asked (dis_seqovl args))"

fun classifier_asked :: "toml \<Rightarrow> payload_classifier_class \<Rightarrow> bool" where
  "classifier_asked node TlsHandshakeClassifier \<longleftrightarrow> (\<exists>tbl. named ''tls_handshake_classifier'' node tbl)"
| "classifier_asked node HttpClassifier \<longleftrightarrow> (\<exists>tbl. named ''http_classifier'' node tbl)"

section \<open>Profiles\<close>

text \<open>
  A table, the protocol name and port it gives, and the key and the profile it asks for. The key is
  the port modulo 2 to the 16 and the number of the protocol.
\<close>

definition profile_asked ::
  "toml_lib \<Rightarrow> toml \<Rightarrow> string \<times> i32 \<Rightarrow> (u16 \<times> int) \<times> profile \<Rightarrow> bool" where
  "profile_asked lib node = (\<lambda>(proto, port) ((key_port, key_proto), prof). (\<exists>tbl port_node proto_node cnode mnode.
     node = Toml_table tbl
     \<and> map_of tbl ''port'' = Some port_node \<and> lib_value_int lib port_node = Some port
     \<and> map_of tbl ''protocol'' = Some proto_node \<and> lib_value_string lib proto_node = Some proto
     \<and> uint key_port = sint port mod 65536
     \<and> (proto = ''tcp'' \<and> key_proto = 6 \<or> proto = ''udp'' \<and> key_proto = 17)
     \<and> map_of tbl ''classifiers'' = Some cnode \<and> list_asked classifier_asked cnode (prof_classifier prof)
     \<and> map_of tbl ''modifiers'' = Some mnode
     \<and> list_asked (modifier_asked (lib_fs lib)) mnode (modifiers (prof_modifier prof))
     \<and> optional_asked tbl ''allowed_ips''
         (list_asked (\<lambda>n addr. \<exists>s. n = Toml_string s \<and> lib_inet_pton lib s = Some addr)) (ips (prof_modifier prof))
     \<and> optional_asked tbl ''allowed_hosts''
         (list_asked (\<lambda>n host. \<exists>s. n = Toml_string s \<and> host = map of_char s)) (hosts (prof_modifier prof))))"

section \<open>Rules\<close>

text \<open>The decimal numeral of a number, without leading zeros.\<close>

definition decimal :: "int \<Rightarrow> string \<Rightarrow> bool" where
  "decimal n s \<longleftrightarrow> (\<exists>ds. s = (if n < 0 then ''-'' else '''') @ ds \<and> ds \<noteq> []
     \<and> set ds \<subseteq> set ''0123456789'' \<and> (hd ds = CHR ''0'' \<longrightarrow> ds = ''0'')
     \<and> int (foldl (\<lambda>acc c. 10 * acc + (of_char c - 48)) 0 ds) = \<bar>n\<bar>)"

definition rule_tail :: "string \<Rightarrow> string" where
  "rule_tail queue = '' -m connbytes --connbytes 0:20 --connbytes-dir original''
     @ '' --connbytes-mode packets -j NFQUEUE --queue-num '' @ queue"

text \<open>
  For one profile: if the first kilobyte of the listing shows its rule, nothing is run; otherwise
  the command that appends it is run, and \<open>system\<close> does not fail. The exit status of the command is
  not looked at.
\<close>

definition rule_set :: "shell \<Rightarrow> nat \<Rightarrow> string \<times> i32 \<Rightarrow> string list \<Rightarrow> string list \<Rightarrow> bool" where
  "rule_set sh queue_number = (\<lambda>(proto, port) commands commands'. (\<exists>p q out.
     decimal (sint port) p \<and> decimal (int queue_number) q \<and> listing sh commands = Some out
     \<and> (let listed = ''-A OUTPUT -p '' @ proto @ '' -m '' @ proto @ '' --dport '' @ p @ rule_tail q;
            command = ''iptables -A OUTPUT -p '' @ proto @ '' --dport '' @ p @ rule_tail q
        in if \<exists>before after. take 1024 out = before @ listed @ after then commands' = commands
           else commands' = commands @ [command] \<and> 0 \<le> system_ret sh commands command)))"

inductive rules_set :: "shell \<Rightarrow> nat \<Rightarrow> (string \<times> i32) list \<Rightarrow> string list \<Rightarrow> string list \<Rightarrow> bool" for sh queue_number where
  none: "rules_set sh queue_number [] commands commands"
| one: "rule_set sh queue_number service commands commands1 \<Longrightarrow>
    rules_set sh queue_number services commands1 commands2 \<Longrightarrow>
    rules_set sh queue_number (service # services) commands commands2"

section \<open>The readers read what is asked for\<close>

lemma entry_asked:
  assumes "entry tbl key read = Inr x" "\<And>node v. read node = Inr v \<Longrightarrow> asks node v"
  shows "optional_asked tbl key asks x"
  using assms by (auto simp: entry_def optional_asked_def get_def res split: option.splits)

lemma map_r_asked:
  assumes "map_r read nodes = Inr xs" "\<And>node v. read node = Inr v \<Longrightarrow> asks node v"
  shows "list_all2 asks nodes xs"
  using assms by (auto simp: map_r_Inr_iff elim: list_all2_mono)

lemma as_Some [simp]:
  "as_string node = Some s \<longleftrightarrow> node = Toml_string s" "as_integer node = Some i \<longleftrightarrow> node = Toml_integer i"
  "as_boolean node = Some b \<longleftrightarrow> node = Toml_boolean b" "as_array node = Some ns \<longleftrightarrow> node = Toml_array ns"
  "as_table node = Some tbl \<longleftrightarrow> node = Toml_table tbl"
  by (cases node; simp)+

lemma deref_Inr [simp]: "deref m = Inr x \<longleftrightarrow> m = Some x"
  by (cases m) simp_all

lemma uint_narrow: "uint (ucast (i :: i64) :: 'a::len word) = uint i mod 2 ^ LENGTH('a)"
  by (simp add: unsigned_ucast_eq take_bit_eq_mod)

lemma number_read: "number_node what node = Inr v \<Longrightarrow> number_asked node v"
  by (auto simp: number_node_def number_asked_def uint_narrow res split: if_splits)

lemma seqovl_read: "splitter_seqovl_node node = Inr v \<Longrightarrow> number_asked node v"
  by (auto simp: splitter_seqovl_node_def number_asked_def uint_narrow split: option.splits)

lemma position_read: "position_node node = Inr pos \<Longrightarrow> position_asked node pos"
  by (auto simp: position_node_def position_asked_def empty_position_def res split: if_splits)

lemma blob_read: "blob_node fs what node = Inr bs \<Longrightarrow> blob_asked fs node bs"
  by (auto simp: blob_node_def blob_asked_def split: option.splits)

lemma proto_read: "l7_node node = Inr proto \<Longrightarrow> proto_asked node proto"
  by (auto simp: l7_node_def proto_asked_def string_to_proto_def split: option.splits if_splits)

lemma shared_read:
  assumes "parse_shared fs name tbl = Inr args" "entry tbl ''seqovl_pattern'' (blob_node fs what) = Inr pat"
  shows "shared_asked fs tbl (args\<lparr>seqovl_pat := pat\<rparr>)"
proof -
  have pat: "optional_asked tbl ''seqovl_pattern'' (blob_asked fs) pat"
    by (rule entry_asked [OF assms(2)]) (rule blob_read)
  obtain ps blob ck so ts ttl l7 where E: "entry tbl ''split_at'' (split_at_node name) = Inr ps"
    "entry tbl ''fake_blob'' (blob_node fs ''fake_blob'') = Inr blob" "entry tbl ''badcksum'' cksum_node = Inr ck"
    "entry tbl ''seq_off'' (number_node ''seq_off'') = Inr so" "entry tbl ''ts_off'' (number_node ''ts_off'') = Inr ts"
    "entry tbl ''ipv4_ttl'' (number_node ''ipv4_ttl'') = Inr ttl" "entry tbl ''l7_payload'' l7_node = Inr l7"
    and args: "args = \<lparr>splits = (case ps of None \<Rightarrow> [] | Some ps \<Rightarrow> ps), fake_blob = blob,
          badcksum = (case ck of None \<Rightarrow> False | Some b \<Rightarrow> b), seq_offset = so, ts_offset = ts,
          arg_ttl = ttl, l7_payload = l7, seqovl_pat = None\<rparr>"
    using assms(1) by (auto simp: parse_shared_def and_then_Inr_iff)
  have "case map_of tbl ''split_at'' of
        None \<Rightarrow> splits args = [] | Some node \<Rightarrow> list_asked position_asked node (splits args)"
    using E(1) by (auto simp: entry_def get_def split_at_node_def list_asked_def args res
        intro: map_r_asked [OF _ position_read] split: option.splits)
  moreover have "case map_of tbl ''badcksum'' of
      None \<Rightarrow> \<not> badcksum args | Some node \<Rightarrow> node = Toml_boolean (badcksum args)"
    using E(3) by (auto simp: entry_def get_def cksum_node_def args res split: option.splits)
  moreover have "optional_asked tbl ''fake_blob'' (blob_asked fs) blob" by (rule entry_asked [OF E(2)]) (rule blob_read)
  moreover have "optional_asked tbl ''seq_off'' number_asked so" by (rule entry_asked [OF E(4)]) (rule number_read)
  moreover have "optional_asked tbl ''ts_off'' number_asked ts" by (rule entry_asked [OF E(5)]) (rule number_read)
  moreover have "optional_asked tbl ''ipv4_ttl'' number_asked ttl" by (rule entry_asked [OF E(6)]) (rule number_read)
  moreover have "optional_asked tbl ''l7_payload'' proto_asked l7" by (rule entry_asked [OF E(7)]) (rule proto_read)
  ultimately show ?thesis using pat by (simp add: shared_asked_def args split: option.splits)
qed

lemma shared_extend: "shared_asked fs tbl args \<Longrightarrow> shared_asked fs tbl (modifier_args.extend args ext)"
  by (cases args) (simp add: shared_asked_def modifier_args.defs split: option.splits)

lemma modifier_read:
  assumes "named_node (create_modifier fs) node = Inr m"
  shows "modifier_asked fs node m"
proof -
  obtain tbl name where t: "node = Toml_table tbl" "map_of tbl ''name'' = Some (Toml_string name)"
    and m: "create_modifier fs name tbl = Inr m"
    using assms by (auto simp: named_node_def get_def res)
  consider (splitter) args where "name = ''splitter''" "splitter_parse_config fs tbl = Inr args" "m = Splitter_modifier args"
    | (disorder) args where "name = ''disorder''" "disorder_parse_config fs tbl = Inr args" "m = Disorder_modifier args"
    using m by (auto simp: create_modifier_def splitter_name_def disorder_name_def res split: if_splits)
  then show ?thesis
  proof cases
    case splitter
    then obtain base ovl pat where E: "parse_shared fs splitter_name tbl = Inr base"
        "entry tbl ''seqovl'' splitter_seqovl_node = Inr ovl" "entry tbl ''seqovl_pattern'' (blob_node fs ''seqovl_pattern'') = Inr pat"
      and args: "args = modifier_args.extend (base\<lparr>seqovl_pat := pat\<rparr>) (splitter_args.fields ovl)"
      by (auto simp: splitter_parse_config_def res)
    have "shared_asked fs tbl args" unfolding args by (rule shared_extend [OF shared_read [OF E(1,3)]])
    moreover have "optional_asked tbl ''seqovl'' number_asked ovl" by (rule entry_asked [OF E(2)]) (rule seqovl_read)
    moreover have "split_seqovl args = ovl" by (simp add: args modifier_args.defs splitter_args.defs)
    ultimately show ?thesis using splitter t by (auto simp: named_def)
  next
    case disorder
    then obtain base ovl pat where E: "parse_shared fs disorder_name tbl = Inr base"
        "entry tbl ''seqovl'' position_node = Inr ovl" "entry tbl ''seqovl_pattern'' (blob_node fs ''seqovl_pattern'') = Inr pat"
      and args: "args = modifier_args.extend (base\<lparr>seqovl_pat := pat\<rparr>) (disorder_args.fields ovl)"
      by (auto simp: disorder_parse_config_def res)
    have "shared_asked fs tbl args" unfolding args by (rule shared_extend [OF shared_read [OF E(1,3)]])
    moreover have "optional_asked tbl ''seqovl'' position_asked ovl" by (rule entry_asked [OF E(2)]) (rule position_read)
    moreover have "dis_seqovl args = ovl" by (simp add: args modifier_args.defs disorder_args.defs)
    ultimately show ?thesis using disorder t by (auto simp: named_def)
  qed
qed

lemma classifier_read: "named_node create_classifier node = Inr c \<Longrightarrow> classifier_asked node c"
  by (auto simp: named_node_def get_def create_classifier_def tls_classifier_name_def http_classifier_name_def
      named_def res split: if_splits)

lemma array_read:
  assumes "array_node what read node = Inr xs" "\<And>node v. read node = Inr v \<Longrightarrow> asks node v"
  shows "list_asked asks node xs"
  using assms(1) map_r_asked [OF _ assms(2)]
  by (auto simp: array_node_def list_asked_def split: option.splits)

lemma ip_read: "ip_node lib node = Inr addr \<Longrightarrow> \<exists>s. node = Toml_string s \<and> lib_inet_pton lib s = Some addr"
  by (auto simp: ip_node_def split: option.splits)

lemma host_read: "host_node node = Inr host \<Longrightarrow> \<exists>s. node = Toml_string s \<and> host = map of_char s"
  by (auto simp: host_node_def ascii_def split: option.splits)

lemma body_read:
  assumes "profile_body lib name tbl = Inr prof"
  shows "\<exists>cnode mnode. map_of tbl ''classifiers'' = Some cnode \<and> list_asked classifier_asked cnode (prof_classifier prof)
    \<and> map_of tbl ''modifiers'' = Some mnode
    \<and> list_asked (modifier_asked (lib_fs lib)) mnode (modifiers (prof_modifier prof))
    \<and> optional_asked tbl ''allowed_ips''
        (list_asked (\<lambda>n addr. \<exists>s. n = Toml_string s \<and> lib_inet_pton lib s = Some addr)) (ips (prof_modifier prof))
    \<and> optional_asked tbl ''allowed_hosts''
        (list_asked (\<lambda>n host. \<exists>s. n = Toml_string s \<and> host = map of_char s)) (hosts (prof_modifier prof))"
proof -
  obtain addrs names cnodes cs mnodes ms where
      E: "entry tbl ''allowed_ips'' (array_node ''allowed_ips'' (ip_node lib)) = Inr addrs"
        "entry tbl ''allowed_hosts'' (array_node ''allowed_hosts'' host_node) = Inr names"
      and C: "map_of tbl ''classifiers'' = Some (Toml_array cnodes)" "map_r (named_node create_classifier) cnodes = Inr cs"
      and M: "map_of tbl ''modifiers'' = Some (Toml_array mnodes)" "map_r (named_node (create_modifier (lib_fs lib))) mnodes = Inr ms"
      and prof: "prof = \<lparr>prof_classifier = cs, prof_modifier = \<lparr>modifiers = ms, hosts = names, ips = addrs\<rparr>\<rparr>"
    using assms by (auto simp: profile_body_def required_def get_def res split: option.splits)
  have "list_asked classifier_asked (Toml_array cnodes) cs"
    using map_r_asked [OF C(2) classifier_read] by (simp add: list_asked_def)
  moreover have "list_asked (modifier_asked (lib_fs lib)) (Toml_array mnodes) ms"
    using map_r_asked [OF M(2) modifier_read] by (simp add: list_asked_def)
  moreover have "optional_asked tbl ''allowed_ips''
      (list_asked (\<lambda>n addr. \<exists>s. n = Toml_string s \<and> lib_inet_pton lib s = Some addr)) addrs"
    by (rule entry_asked [OF E(1)]) (rule array_read, assumption, rule ip_read)
  moreover have "optional_asked tbl ''allowed_hosts''
      (list_asked (\<lambda>n host. \<exists>s. n = Toml_string s \<and> host = map of_char s)) names"
    by (rule entry_asked [OF E(2)]) (rule array_read, assumption, rule host_read)
  ultimately show ?thesis using C(1) M(1) by (simp add: prof)
qed

section \<open>Rules that are set\<close>

lemma show_nat_zero: "hd (show_nat n) = CHR ''0'' \<Longrightarrow> n = 0"
proof (induction n rule: show_nat.induct)
  case (1 n)
  show ?case
  proof (cases "n < 10")
    case True
    then have "(of_char (char_of (48 + n) :: char) :: nat) = of_char CHR ''0''"
      using 1(2) by (subst (asm) show_nat.simps) simp
    then show ?thesis using True by simp
  next
    case False
    then have "hd (show_nat (n div 10)) = CHR ''0''" using 1(2) by (subst (asm) show_nat.simps) simp
    then show ?thesis using 1(1) False by simp
  qed
qed

lemma digit_of_isdigit: "isdigit c \<Longrightarrow> c \<in> set ''0123456789''"
proof -
  assume "isdigit c"
  moreover have "map char_of [48 ..< 58 :: nat] = ''0123456789''" by code_simp
  moreover have "char_of n \<in> set (map char_of [48 ..< 58 :: nat])" if "48 \<le> n \<and> n \<le> 57" for n :: nat
    using that by (simp only: list.set_map set_upt) (intro imageI, simp)
  ultimately show ?thesis unfolding isdigit_def Let_def by (metis char_of_char)
qed

lemma decimal_show_nat: "decimal (int n) (show_nat n)"
proof -
  have "show_nat 0 = ''0''" by code_simp
  then have "show_nat n = ''0''" if "hd (show_nat n) = CHR ''0''" using show_nat_zero [OF that] by simp
  moreover have "set (show_nat n) \<subseteq> set ''0123456789''"
    using isdigit_show_nat [of n] digit_of_isdigit by (auto simp: list_all_iff)
  ultimately show ?thesis
    using digits_value_show_nat [of n] by (auto simp: decimal_def digits_value_def)
qed

lemma decimal_format_int: "decimal i (format_int i)"
proof (cases "i < 0")
  case True
  then obtain n where "i = - int n" "0 < n" by (metis neg_int_cases)
  then show ?thesis using decimal_show_nat [of n] by (auto simp: decimal_def format_int_def)
next
  case False
  then show ?thesis using decimal_show_nat [of "nat i"] by (simp add: format_int_def)
qed

lemma find_sub_occurs: "find_sub pat xs \<noteq> None \<longleftrightarrow> (\<exists>before after. xs = before @ pat @ after)"
proof
  assume "find_sub pat xs \<noteq> None"
  then obtain i where "find_sub pat xs = Some i" by blast
  note B = find_sub_Some_bound [OF this]
  have "xs = take i xs @ pat @ drop (length pat) (drop i xs)"
    using B(2) by (metis append_take_drop_id)
  then show "\<exists>before after. xs = before @ pat @ after" by blast
next
  assume "\<exists>before after. xs = before @ pat @ after"
  then obtain before after where xs: "xs = before @ pat @ after" by blast
  then have "take (length pat) (drop (length before) xs) = pat" "length before \<le> length xs" by simp_all
  then show "find_sub pat xs \<noteq> None" unfolding find_sub_def find_at_None by blast
qed

lemma rule_ensured:
  assumes "ensure_rule sh (profile_listed proto (sint port) q) (profile_add proto (sint port) q) commands = Inr commands'"
  shows "rule_set sh q (proto, port) commands commands'"
proof -
  let ?p = "format_int (sint port)" and ?q = "show_nat q"
  have twenty: "show_nat 20 = ''20''" by code_simp
  then have texts: "profile_listed proto (sint port) q = ''-A OUTPUT -p '' @ proto @ '' -m '' @ proto @ '' --dport '' @ ?p @ rule_tail ?q"
    "profile_add proto (sint port) q = ''iptables -A OUTPUT -p '' @ proto @ '' --dport '' @ ?p @ rule_tail ?q"
    by (simp_all add: profile_listed_def profile_add_def queue_target_def rule_tail_def MAX_REASM_SEGMENTS_def)
  obtain out where out: "listing sh commands = Some out"
    and run: "(if find_sub (profile_listed proto (sint port) q) (take 1024 out) \<noteq> None then Inr commands
      else rule_add sh (profile_add proto (sint port) q) commands) = Inr commands'"
    using assms by (auto simp: ensure_rule_def rule_exists_def Let_def res split: option.splits)
  have "(let listed = profile_listed proto (sint port) q; command = profile_add proto (sint port) q
      in if \<exists>before after. take 1024 out = before @ listed @ after then commands' = commands
         else commands' = commands @ [command] \<and> 0 \<le> system_ret sh commands command)"
  proof (cases "\<exists>before after. take 1024 out = before @ profile_listed proto (sint port) q @ after")
    case True
    then show ?thesis using run unfolding find_sub_occurs Let_def if_P [OF True] by simp
  next
    case False
    then show ?thesis
      using run unfolding find_sub_occurs Let_def if_not_P [OF False] by (auto simp: rule_add_def split: if_splits)
  qed
  then show ?thesis
    unfolding rule_set_def prod.case texts using out decimal_format_int decimal_show_nat by blast
qed

section \<open>The loop over the profiles\<close>

lemma port_narrow: "uint (ucast (port :: i32) :: u16) = sint port mod 65536"
proof -
  have "uint (ucast port :: u16) = uint port mod 65536"
    by (simp add: unsigned_ucast_eq take_bit_eq_mod)
  also have "\<dots> = sint port mod 65536"
    by (simp add: uint_sint take_bit_eq_mod mod_mod_cancel)
  finally show ?thesis .
qed

lemma profile_built:
  assumes "build_profile lib sh q (name, node) (ret, commands) = Inr (ret', commands')"
  obtains service key prof where "profile_asked lib node service (key, prof)" "rule_set sh q service commands commands'"
    "key \<notin> fst ` set ret" "ret' = (key, prof) # ret"
proof -
  obtain tbl port_node proto_node port str proto prof where node: "as_table node = Some tbl"
    and t: "get tbl ''port'' = Some port_node" "get tbl ''protocol'' = Some proto_node"
      "lib_value_int lib port_node = Some port" "lib_value_string lib proto_node = Some str"
    and p: "protocol_number name str = Inr proto" "map_of ret (ucast port, proto) = None"
      "profile_body lib name tbl = Inr prof" "ret' = ((ucast port, proto), prof) # ret"
      "ensure_rule sh (profile_listed str (sint port) q) (profile_add str (sint port) q) commands = Inr commands'"
    using assms by (rule build_profile_cases)
  have "str = ''tcp'' \<and> proto = 6 \<or> str = ''udp'' \<and> proto = 17"
    using p(1) by (auto simp: protocol_number_def IPPROTO_TCP_def IPPROTO_UDP_def split: if_splits)
  then have "profile_asked lib node (str, port) ((ucast port, proto), prof)"
    using body_read [OF p(3)] t node port_narrow [of port] unfolding profile_asked_def prod.case get_def as_Some by blast
  then show ?thesis
    using that rule_ensured [OF p(5)] p(2,4) by (auto simp: map_of_eq_None_iff)
qed

lemma profiles_built:
  assumes "fold_r (build_profile lib sh q) table (ret, commands) = Inr (ret', commands')"
    and "distinct (map fst ret)"
  shows "\<exists>rows. list_all2 (\<lambda>(name, node) (service, built). profile_asked lib node service built) table rows
    \<and> distinct (map fst ret') \<and> mset ret' = mset ret + mset (map snd rows)
    \<and> rules_set sh q (map fst rows) commands commands'"
  using assms
proof (induction table arbitrary: ret commands)
  case Nil
  then show ?case by (auto intro: rules_set.none exI [of _ "[]"])
next
  case (Cons row table)
  obtain name node where row: "row = (name, node)" by fastforce
  obtain ret1 commands1 where step: "build_profile lib sh q (name, node) (ret, commands) = Inr (ret1, commands1)"
    and rest: "fold_r (build_profile lib sh q) table (ret1, commands1) = Inr (ret', commands')"
    using Cons.prems(1) by (auto simp: row res)
  obtain service key prof where built: "profile_asked lib node service (key, prof)"
    and rule: "rule_set sh q service commands commands1" and new: "key \<notin> fst ` set ret" "ret1 = (key, prof) # ret"
    using profile_built [OF step] by metis
  have "distinct (map fst ret1)" using Cons.prems(2) new by simp
  then obtain rows where rows: "list_all2 (\<lambda>(name, node) (service, built). profile_asked lib node service built) table rows"
    "distinct (map fst ret')" "mset ret' = mset ret1 + mset (map snd rows)" "rules_set sh q (map fst rows) commands1 commands'"
    using Cons.IH [OF rest] by blast
  have "rules_set sh q (service # map fst rows) commands commands'" using rule rows(4) by (rule rules_set.one)
  then show ?case
    using rows built new(2) by (intro exI [of _ "(service, (key, prof)) # rows"]) (simp add: row)
qed

section \<open>Properties\<close>

text \<open>C13. When the configuration is accepted, every table of the file has become exactly one profile
  with exactly the classifiers, modifiers, their arguments and the filters the table asks for, under
  the port and protocol it gives, which no other profile has. The commands run are, in the order of
  the file, the rule of each profile whose rule the first kilobyte of the listing did not show; no
  other command is run. Whether iptables accepted a command the program does not look at.\<close>

theorem build_profiles_correct:
  assumes "build_profiles lib sh path queue_number commands = Inr (profiles, commands')"
  shows "\<exists>tbl table rows. lib_parse_file lib path = Inr tbl \<and> map_of tbl ''profile'' = Some (Toml_table table)
    \<and> list_all2 (\<lambda>(name, node) (service, built). profile_asked lib node service built) table rows
    \<and> mset profiles = mset (map snd rows) \<and> distinct (map fst profiles)
    \<and> rules_set sh queue_number (map fst rows) commands commands'"
proof -
  obtain tbl table where t: "lib_parse_file lib path = Inr tbl" "map_of tbl ''profile'' = Some (Toml_table table)"
    and run: "fold_r (build_profile lib sh queue_number) table ([], commands) = Inr (profiles, commands')"
    using assms by (auto simp: build_profiles_def get_def split: sum.splits option.splits toml.splits)
  then show ?thesis using profiles_built [OF run] by auto
qed

lemma build_profiles_correct_witness:
  "\<exists>profiles rows. build_profiles sample_lib sample_shell ''c'' 1489 [] = Inr (profiles, [profile_add ''tcp'' 443 1489])
     \<and> map_of profiles (443, 6) = Some sample_profile \<and> mset profiles = mset (map snd rows)
     \<and> rules_set sample_shell 1489 (map fst rows) [] [profile_add ''tcp'' 443 1489]"
  using build_profiles_correct [OF sample_build [of "[]"]] sample_build [of "[]"] by auto

end
