(* ===== verification/Packet_Loop.thy ===== *)
theory Packet_Loop
  imports Profile
begin

text \<open>
  The callback of the packet loop, \<open>cb_loop\<close> of \<^verbatim>\<open>main.cpp\<close>: one message of the netfilter
  queue, from the parsed attributes to the verdicts and raw packets it causes. What goes to the
  kernel is a list of events. The second part accounts for the queue ids: which are answered,
  which are held, and that none is answered twice.
\<close>

section \<open>Events\<close>

datatype netfilter_verdict = NF_DROP | NF_ACCEPT

text \<open>A verdict on a queue id, or a packet for the raw socket and its destination address.\<close>

datatype event = Verdict u32 netfilter_verdict | Raw_send u32 "byte list"

text \<open>The tail of the switch: \<open>packet.data()\<close> read as an IP header, and \<open>sendto\<close>.\<close>

definition raw_events :: "packet \<Rightarrow> event list result" where
  "raw_events p = and_then (ip_daddr (packet_bytes p) 0) (\<lambda>daddr. Inr [Raw_send daddr (packet_bytes p)])"

definition packet_events :: "packet \<Rightarrow> event list result" where
  "packet_events p =
     (case action_action p of
        ACCEPT \<Rightarrow>
          if action_packet_id p = 0 then Inl Assert_failed else Inr [Verdict (action_packet_id p) NF_ACCEPT]
      | DROP \<Rightarrow> Inr [Verdict (action_packet_id p) NF_DROP]
      | DROP_AND_SEND \<Rightarrow>
          and_then (raw_events p) (\<lambda>evs. Inr (Verdict (action_packet_id p) NF_DROP # evs))
      | SEND \<Rightarrow> raw_events p)"

definition send_packets :: "packet list \<Rightarrow> event list result" where
  "send_packets packets = and_then (map_r packet_events packets) (\<lambda>evs. Inr (concat evs))"

section \<open>The callback\<close>

text \<open>
  A message as the netlink library hands it over: the result of \<open>nfq_nlmsg_parse\<close>, the two
  attributes (\<open>None\<close> if missing; the payload pointer of the first may itself be null) and the
  time of \<open>system_clock::now()\<close>. The packet id is in network byte order.
\<close>

record nfq_message =
  parse_ret :: int
  packet_hdr :: "u32 option option"
  packet_data :: "byte list option"
  arrival :: int

datatype cb_result = MNL_CB_ERROR | MNL_CB_OK

record loop_state =
  tracker :: conn_table
  events :: "event list"

text \<open>The part for a packet with payload on a connection that is not done.\<close>

definition process_payload ::
  "environment \<Rightarrow> profile \<Rightarrow> packet_view \<Rightarrow> connection \<Rightarrow> (connection \<times> event list) result" where
  "process_payload env profile packet conn =
     and_then (reasm_insert packet conn) (\<lambda>conn.
     let packets = segs conn in
     if packets = [] then Inl Assert_failed
     else
       and_then (classify (prof_classifier profile) packets) (\<lambda>(res, proto).
       case res of
         DONE \<Rightarrow>
           and_then (optional_value proto) (\<lambda>proto.
           let conn = reasm_reset (conn\<lparr>payload_proto := proto\<rparr>) in
           and_then (modifier_modify env (prof_modifier profile) conn packets) (\<lambda>packets.
           and_then (send_packets packets) (\<lambda>evs.
           Inr (conn\<lparr>is_done := True\<rparr>, evs))))
       | REASSEMBLING \<Rightarrow> Inr (conn, [])
       | ERROR \<Rightarrow>
           let conn = (reasm_reset conn)\<lparr>is_done := True\<rparr> in
           Inr (conn, map (\<lambda>pkt. Verdict (action_packet_id pkt) NF_ACCEPT) (segs conn)
             @ [Verdict (view_packet_id packet) NF_ACCEPT])))"

definition connection_key :: "packet_view \<Rightarrow> conn_key result" where
  "connection_key packet =
     and_then (ip_saddr (view_packet packet) (view_network_hdr packet)) (\<lambda>saddr.
     and_then (get_source_port packet) (\<lambda>source.
     and_then (ip_daddr (view_packet packet) (view_network_hdr packet)) (\<lambda>daddr.
     and_then (get_dest_port packet) (\<lambda>dest.
     and_then (ip_protocol (view_packet packet) (view_network_hdr packet)) (\<lambda>proto.
     Inr (saddr, source, daddr, dest, uint proto))))))"

text \<open>
  \<open>verdict_ret n\<close> is what \<open>send_verdict\<close> returns after \<open>n\<close> events; only one place of the
  callback looks at it other than to log.
\<close>

fun handle_packet ::
  "environment \<Rightarrow> (nat \<Rightarrow> int) \<Rightarrow> profiles \<Rightarrow> int \<Rightarrow> packet_view \<Rightarrow> conn_key \<Rightarrow> loop_state \<Rightarrow> loop_state result" where
  "handle_packet env verdict_ret profiles now packet (saddr, source, daddr, dest, proto) st =
     (let key = (saddr, source, daddr, dest, proto) in
      and_then (get_conn key (tracker st)) (\<lambda>(conn, conns).
      and_then (track now packet conn) (\<lambda>conn.
      if view_payload packet \<noteq> [] \<and> \<not> is_done conn then
        (case map_of profiles (dest, proto) of
           None \<Rightarrow> Inl Assert_failed
         | Some profile \<Rightarrow>
             and_then (process_payload env profile packet conn) (\<lambda>(conn, evs).
             Inr (st\<lparr>tracker := update_conn key conn conns, events := events st @ evs\<rparr>)))
      else if verdict_ret (length (events st)) = 0 then Inl Assert_failed
      else
        Inr (st\<lparr>tracker := update_conn key conn conns,
               events := events st @ [Verdict (view_packet_id packet) NF_ACCEPT]\<rparr>))))"

declare handle_packet.simps [simp del]

definition cb_loop ::
  "environment \<Rightarrow> (nat \<Rightarrow> int) \<Rightarrow> profiles \<Rightarrow> nfq_message \<Rightarrow> loop_state \<Rightarrow> (cb_result \<times> loop_state) result" where
  "cb_loop env verdict_ret profiles msg st =
     (if parse_ret msg < 0 then Inr (MNL_CB_ERROR, st)
      else
        (case packet_hdr msg of
           None \<Rightarrow> Inl Assert_failed
         | Some None \<Rightarrow> Inr (MNL_CB_ERROR, st)
         | Some (Some packet_id) \<Rightarrow>
             (case packet_data msg of
                None \<Rightarrow> Inl Assert_failed
              | Some packet_buf \<Rightarrow>
                  and_then (parse_packet_view packet_buf) (\<lambda>parsed.
                  let packet = parsed\<lparr>view_packet_id := ntohl packet_id\<rparr> in
                  and_then (connection_key packet) (\<lambda>key.
                  and_then (handle_packet env verdict_ret profiles (arrival msg) packet key st) (\<lambda>st.
                  Inr (MNL_CB_OK, st)))))))"

section \<open>Accounting for queue ids\<close>

fun verdict_id :: "event \<Rightarrow> u32 list" where
  "verdict_id (Verdict i v) = [i]"
| "verdict_id (Raw_send a bs) = []"

definition answered :: "event list \<Rightarrow> u32 list" where
  "answered evs = concat (map verdict_id evs)"

lemma answered_simps [simp]:
  "answered [] = []" "answered (e # evs) = verdict_id e @ answered evs"
  "answered (evs @ evs') = answered evs @ answered evs'"
  by (simp_all add: answered_def)

definition conn_ids :: "connection \<Rightarrow> u32 list" where
  "conn_ids conn = map action_packet_id (segs conn)"

definition held_ids :: "conn_table \<Rightarrow> u32 list" where
  "held_ids conns = concat (map (\<lambda>(k, conn). conn_ids conn) conns)"

lemma held_ids_simps [simp]:
  "held_ids [] = []" "held_ids ((k, conn) # conns) = conn_ids conn @ held_ids conns"
  by (simp_all add: held_ids_def)

lemma packet_events_answered:
  "packet_events p = Inr evs \<Longrightarrow> answered evs = (if owes_verdict p then [action_packet_id p] else [])"
  by (auto simp: packet_events_def raw_events_def owes_verdict_def res split: packet_action.splits if_splits)

lemma send_packets_answered: "send_packets ps = Inr evs \<Longrightarrow> answered evs = verdicts ps"
proof (induction ps arbitrary: evs)
  case Nil
  then show ?case by (simp add: send_packets_def)
next
  case (Cons p ps)
  then obtain e es where "packet_events p = Inr e" "map_r packet_events ps = Inr es" "evs = e @ concat es"
    by (auto simp: send_packets_def res)
  then show ?case using Cons.IH [of "concat es"] packet_events_answered [of p e]
    by (simp add: send_packets_def)
qed

text \<open>What a connection holds: packets as they came from the queue, of the connection's protocol.\<close>

definition held_ok :: "byte \<Rightarrow> packet \<Rightarrow> bool" where
  "held_ok proto p \<longleftrightarrow> action_action p = ACCEPT \<and> action_packet_id p \<noteq> 0 \<and> \<not> is_fake_blob p
     \<and> packet_protocol p = Inr proto \<and> (proto = IPPROTO_TCP \<longrightarrow> wf_packet p)"

lemma held_verdicts: "list_all (held_ok proto) ps \<Longrightarrow> verdicts ps = map action_packet_id ps"
  by (induction ps) (auto simp: held_ok_def owes_verdict_def)

text \<open>A packet the kernel queues: valid headers, and an id that is not zero.\<close>

definition valid_buffer :: "byte list \<Rightarrow> bool" where
  "valid_buffer bs \<longleftrightarrow> (ip_protocol bs 0 = Inr IPPROTO_TCP \<longrightarrow> tcp_layout bs)"

definition queued_view :: "byte list \<Rightarrow> packet_view \<Rightarrow> bool" where
  "queued_view bs v \<longleftrightarrow> valid_buffer bs \<and> view_packet_id v \<noteq> 0
     \<and> (\<exists>parsed. parse_packet_view bs = Inr parsed \<and> v = parsed\<lparr>view_packet_id := view_packet_id v\<rparr>)"

lemma create_queued:
  assumes "queued_view bs v" "create_packet v = Inr p" "ip_protocol bs 0 = Inr proto"
  shows "held_ok proto p" "action_packet_id p = view_packet_id v"
proof -
  obtain parsed where parsed: "parse_packet_view bs = Inr parsed" and v: "v = parsed\<lparr>view_packet_id := view_packet_id v\<rparr>"
    and id: "view_packet_id v \<noteq> 0" and valid: "valid_buffer bs"
    using assms(1) by (auto simp: queued_view_def)
  have "view_packet parsed = bs" using parsed by (auto simp: parse_packet_view_def res Let_def)
  then have bs: "view_packet v = bs" by (subst v) simp
  have p: "packet_bytes p = bs \<and> network_offset p = 0 \<and> action_packet_id p = view_packet_id v
      \<and> action_action p = ACCEPT \<and> \<not> is_fake_blob p"
    using assms(2) bs id by (auto simp: create_packet_def res Let_def)
  have "wf_packet p" if "proto = IPPROTO_TCP"
  proof -
    have L: "tcp_layout bs" using valid assms(3) that by (simp add: valid_buffer_def)
    then have "parsed = view_of (packet_of bs 0)" using parsed by (simp add: parse_packet_view_tcp)
    then have "create_packet v = Inr (packet_of bs (view_packet_id v))"
      by (subst v) (simp add: create_packet_tcp [OF L])
    then show ?thesis using assms(2) L by simp
  qed
  then show "held_ok proto p" "action_packet_id p = view_packet_id v"
    using p id assms(3) by (simp_all add: held_ok_def packet_protocol_def)
qed

lemma insert_by_mset: "mset (insert_by lt x ys) = add_mset x (mset ys)"
  by (induction ys) auto

lemma sort_by_mset: "sort_by lt xs = Inr ys \<Longrightarrow> mset ys = mset xs"
proof -
  have "mset (foldr (insert_by lt) xs []) = mset xs" by (induction xs) (simp_all add: insert_by_mset)
  then show "sort_by lt xs = Inr ys \<Longrightarrow> mset ys = mset xs" by (auto simp: sort_by_def split: if_splits)
qed

lemma keyed_snd: "map_r (\<lambda>x. and_then (f x) (\<lambda>s. Inr (s, x))) xs = Inr keyed \<Longrightarrow> map snd keyed = xs"
  by (induction xs arbitrary: keyed) (auto simp: res)

lemma reasm_sort_perm:
  assumes "reasm_sort conn = Inr conn'"
  shows "conn' = conn\<lparr>segs := segs conn'\<rparr>" "mset (segs conn') = mset (segs conn)"
proof -
  obtain keyed sorted where k: "map_r (\<lambda>p. and_then (viewed_seq p) (\<lambda>s. Inr (s, p))) (segs conn) = Inr keyed"
    and s: "sort_by (\<lambda>lhs rhs. seq_lt (fst lhs) (fst rhs)) keyed = Inr sorted"
    and c: "conn' = conn\<lparr>segs := map snd sorted\<rparr>"
    using assms by (auto simp: reasm_sort_def res split: if_splits)
  show "conn' = conn\<lparr>segs := segs conn'\<rparr>" by (simp add: c)
  have "mset (map snd sorted) = mset (map snd keyed)" using sort_by_mset [OF s] by simp
  then show "mset (segs conn') = mset (segs conn)" by (simp add: c keyed_snd [OF k])
qed

lemma reasm_insert_cases:
  assumes "reasm_insert v conn = Inr conn'"
  obtains (retransmitted) "conn' = conn" "segs conn \<noteq> []" "reasm_is_duplicate v conn = Inr True"
  | (held) p where "create_packet v = Inr p" "conn' = conn\<lparr>segs := segs conn'\<rparr>"
      "mset (segs conn') = add_mset p (mset (segs conn))"
proof (cases "segs conn = []")
  case True
  then show ?thesis using assms that(2) by (auto simp: reasm_insert_def res)
next
  case False
  then obtain dup where d: "reasm_is_duplicate v conn = Inr dup" using assms by (auto simp: reasm_insert_def res)
  show ?thesis
  proof (cases dup)
    case True
    then show ?thesis using assms that(1) False d by (simp add: reasm_insert_def)
  next
    case nodup: False
    then obtain in_order p where p: "create_packet v = Inr p"
      and c: "(if in_order then Inr (conn\<lparr>segs := segs conn @ [p]\<rparr>)
        else reasm_sort (conn\<lparr>segs := segs conn @ [p]\<rparr>)) = Inr conn'"
      using assms False d by (auto simp: reasm_insert_def res)
    then show ?thesis
      using that(2) [OF p] reasm_sort_perm [of "conn\<lparr>segs := segs conn @ [p]\<rparr>" conn']
      by (cases in_order) auto
  qed
qed

lemma list_all_mset: "list_all P xs \<longleftrightarrow> (\<forall>x\<in>#mset xs. P x)"
  by (simp add: list_all_iff)

lemma reasm_insert_held:
  assumes "reasm_insert v conn = Inr conn'" "queued_view bs v" "ip_protocol bs 0 = Inr (l4_proto conn)"
    and "list_all (held_ok (l4_proto conn)) (segs conn)"
  shows "conn' = conn\<lparr>segs := segs conn'\<rparr>" "list_all (held_ok (l4_proto conn)) (segs conn')"
    "mset (conn_ids conn') = (if segs conn \<noteq> [] \<and> reasm_is_duplicate v conn = Inr True then mset (conn_ids conn)
      else add_mset (view_packet_id v) (mset (conn_ids conn)))"
proof -
  from assms(1) have "conn' = conn\<lparr>segs := segs conn'\<rparr> \<and> list_all (held_ok (l4_proto conn)) (segs conn')
    \<and> mset (conn_ids conn') = (if segs conn \<noteq> [] \<and> reasm_is_duplicate v conn = Inr True then mset (conn_ids conn)
      else add_mset (view_packet_id v) (mset (conn_ids conn)))"
  proof (cases rule: reasm_insert_cases)
    case retransmitted
    then show ?thesis using assms(4) by simp
  next
    case (held p)
    note Q = create_queued [OF assms(2) held(1) assms(3)]
    have "\<not> (segs conn \<noteq> [] \<and> reasm_is_duplicate v conn = Inr True)"
    proof
      assume "segs conn \<noteq> [] \<and> reasm_is_duplicate v conn = Inr True"
      then have "conn' = conn" using assms(1) by (simp add: reasm_insert_def)
      then show False using held(3) by simp
    qed
    moreover have "mset (conn_ids conn') = add_mset (view_packet_id v) (mset (conn_ids conn))"
      using held(3) Q(2) by (simp add: conn_ids_def)
    moreover have "list_all (held_ok (l4_proto conn)) (segs conn')"
      using assms(4) held(3) Q(1) by (simp add: list_all_mset)
    ultimately show ?thesis using held(2) by presburger
  qed
  then show "conn' = conn\<lparr>segs := segs conn'\<rparr>" "list_all (held_ok (l4_proto conn)) (segs conn')"
    "mset (conn_ids conn') = (if segs conn \<noteq> [] \<and> reasm_is_duplicate v conn = Inr True then mset (conn_ids conn)
      else add_mset (view_packet_id v) (mset (conn_ids conn)))" by blast+
qed

text \<open>
  The ids that will get no verdict any more: a retransmission is not held, so its id is lost, and
  when the classifier gives up, the held packets are discarded before they are accepted.
\<close>

definition gives_up :: "profile \<Rightarrow> packet_view \<Rightarrow> connection \<Rightarrow> bool" where
  "gives_up profile v conn \<longleftrightarrow>
     (case and_then (reasm_insert v conn) (\<lambda>conn. classify (prof_classifier profile) (segs conn)) of
        Inr (ERROR, _) \<Rightarrow> True | _ \<Rightarrow> False)"

definition forgotten_ids :: "profile \<Rightarrow> packet_view \<Rightarrow> connection \<Rightarrow> u32 list" where
  "forgotten_ids profile v conn =
     (if gives_up profile v conn then conn_ids conn
      else if segs conn \<noteq> [] \<and> reasm_is_duplicate v conn = Inr True then [view_packet_id v] else [])"

lemma held_concat_tcp:
  assumes "concat_view original ps = Inr full" "list_all (held_ok proto) ps" "ps \<noteq> []"
  shows "list_all wf_packet ps"
proof -
  obtain p rest where ps: "ps = p # rest" using assms(3) by (cases ps) auto
  then have p: "original p" "packet_protocol p = Inr proto" using assms(2) by (auto simp: original_def held_ok_def)
  then have "proto = IPPROTO_TCP"
    using assms(1) by (auto simp: concat_view_def ps res split: if_splits)
  then show ?thesis using assms(2) by (auto simp: held_ok_def list_all_iff)
qed

lemma modified_held:
  assumes "modifier_modify env m conn ps = Inr qs" "list_all (held_ok proto) ps" "ps \<noteq> []"
  shows "list_all wf_packet ps" "mset (verdicts qs) = mset (map action_packet_id ps)"
proof -
  obtain full where "concat_view original ps = Inr full"
    using assms(1) unfolding modifier_modify_def and_then_Inr_iff by blast
  then show wf: "list_all wf_packet ps" using assms(2,3) by (rule held_concat_tcp)
  show "mset (verdicts qs) = mset (map action_packet_id ps)"
    using chain.run_verdicts [OF assms(1) wf] held_verdicts [OF assms(2)] by simp
qed

lemma process_payload_cases:
  assumes "process_payload env profile v conn = Inr (conn', evs)"
  obtains conn1 where "reasm_insert v conn = Inr conn1" "segs conn1 \<noteq> []"
      "\<exists>q. classify (prof_classifier profile) (segs conn1) = Inr (REASSEMBLING, q)" "conn' = conn1" "evs = []"
  | conn1 where "reasm_insert v conn = Inr conn1" "segs conn1 \<noteq> []"
      "\<exists>q. classify (prof_classifier profile) (segs conn1) = Inr (ERROR, q)"
      "conn' = conn1\<lparr>segs := [], is_done := True\<rparr>" "evs = [Verdict (view_packet_id v) NF_ACCEPT]"
  | conn1 proto qs where "reasm_insert v conn = Inr conn1" "segs conn1 \<noteq> []"
      "classify (prof_classifier profile) (segs conn1) = Inr (DONE, Some proto)"
      "modifier_modify env (prof_modifier profile) (conn1\<lparr>payload_proto := proto, segs := []\<rparr>) (segs conn1) = Inr qs"
      "send_packets qs = Inr evs" "conn' = conn1\<lparr>payload_proto := proto, segs := [], is_done := True\<rparr>"
proof -
  obtain conn1 r q where i: "reasm_insert v conn = Inr conn1" and ne: "segs conn1 \<noteq> []"
    and c: "classify (prof_classifier profile) (segs conn1) = Inr (r, q)"
    using assms by (auto simp: process_payload_def Let_def res split: if_splits)
  have rest: "(case r of
      DONE \<Rightarrow> and_then (optional_value q) (\<lambda>proto.
        and_then (modifier_modify env (prof_modifier profile) (conn1\<lparr>payload_proto := proto, segs := []\<rparr>) (segs conn1))
          (\<lambda>packets. and_then (send_packets packets)
            (\<lambda>evs. Inr (conn1\<lparr>payload_proto := proto, segs := [], is_done := True\<rparr>, evs))))
    | REASSEMBLING \<Rightarrow> Inr (conn1, [])
    | ERROR \<Rightarrow> Inr (conn1\<lparr>segs := [], is_done := True\<rparr>, [Verdict (view_packet_id v) NF_ACCEPT])) = Inr (conn', evs)"
    using assms ne by (cases r) (simp_all add: process_payload_def i c Let_def reasm_reset_def)
  show ?thesis
  proof (cases r)
    case REASSEMBLING
    then have e: "\<exists>q. classify (prof_classifier profile) (segs conn1) = Inr (REASSEMBLING, q)" using c by blast
    have "conn' = conn1" "evs = []" using rest REASSEMBLING by simp_all
    then show ?thesis by (rule that(1) [OF i ne e])
  next
    case ERROR
    then have e: "\<exists>q. classify (prof_classifier profile) (segs conn1) = Inr (ERROR, q)" using c by blast
    have "conn' = conn1\<lparr>segs := [], is_done := True\<rparr>" "evs = [Verdict (view_packet_id v) NF_ACCEPT]"
      using rest ERROR by simp_all
    then show ?thesis by (rule that(2) [OF i ne e])
  next
    case DONE
    then obtain proto where q: "q = Some proto" using rest by (cases q) (simp_all add: optional_value_def)
    have "\<exists>qs. modifier_modify env (prof_modifier profile) (conn1\<lparr>payload_proto := proto, segs := []\<rparr>) (segs conn1)
        = Inr qs \<and> send_packets qs = Inr evs \<and> conn' = conn1\<lparr>payload_proto := proto, segs := [], is_done := True\<rparr>"
      using rest unfolding DONE q optional_value_def option.case classify_result.case and_then_simps and_then_Inr_iff
      by blast
    then show ?thesis using that(3) [OF i ne c [unfolded DONE q]] by blast
  qed
qed

lemma only_segs:
  "conn' = conn\<lparr>segs := ps\<rparr> \<Longrightarrow> l4_proto conn' = l4_proto conn \<and> l4_state conn' = l4_state conn
    \<and> is_done conn' = is_done conn"
  by simp

lemma process_payload_accounts:
  assumes run: "process_payload env profile v conn = Inr (conn', evs)"
    and v: "queued_view bs v" "ip_protocol bs 0 = Inr (l4_proto conn)"
    and held: "list_all (held_ok (l4_proto conn)) (segs conn)"
  shows "list_all (held_ok (l4_proto conn)) (segs conn')"
    "l4_proto conn' = l4_proto conn" "l4_state conn' = l4_state conn"
    "mset (answered evs) + mset (conn_ids conn') + mset (forgotten_ids profile v conn)
      = add_mset (view_packet_id v) (mset (conn_ids conn))"
proof -
  let ?dup = "segs conn \<noteq> [] \<and> reasm_is_duplicate v conn = Inr True"
  from run have "list_all (held_ok (l4_proto conn)) (segs conn') \<and> l4_proto conn' = l4_proto conn
    \<and> l4_state conn' = l4_state conn
    \<and> mset (answered evs) + mset (conn_ids conn') + mset (forgotten_ids profile v conn)
      = add_mset (view_packet_id v) (mset (conn_ids conn))"
  proof (cases rule: process_payload_cases)
    case (1 conn1)
    note I = reasm_insert_held [OF 1(1) v held]
    have "\<not> gives_up profile v conn" using 1(1,3) by (auto simp: gives_up_def)
    then have f: "forgotten_ids profile v conn = (if ?dup then [view_packet_id v] else [])"
      by (simp add: forgotten_ids_def)
    then show ?thesis using 1(4,5) I(2,3) f only_segs [OF I(1)] by simp
  next
    case (2 conn1)
    note I = reasm_insert_held [OF 2(1) v held]
    have "gives_up profile v conn" using 2(1,3) by (auto simp: gives_up_def)
    then have f: "forgotten_ids profile v conn = conn_ids conn" by (simp add: forgotten_ids_def)
    then show ?thesis using 2(4,5) f only_segs [OF I(1)] by (simp add: conn_ids_def)
  next
    case (3 conn1 proto qs)
    note I = reasm_insert_held [OF 3(1) v held]
    have "\<not> gives_up profile v conn" using 3(1,3) by (auto simp: gives_up_def)
    then have f: "forgotten_ids profile v conn = (if ?dup then [view_packet_id v] else [])"
      by (simp add: forgotten_ids_def)
    have a: "mset (answered evs) = mset (conn_ids conn1)"
      using send_packets_answered [OF 3(5)] modified_held(2) [OF 3(4) I(2) 3(2)] by (simp add: conn_ids_def)
    then show ?thesis using 3(6) I(3) f a only_segs [OF I(1)] by (simp add: conn_ids_def)
  qed
  then show "list_all (held_ok (l4_proto conn)) (segs conn')"
    "l4_proto conn' = l4_proto conn" "l4_state conn' = l4_state conn"
    "mset (answered evs) + mset (conn_ids conn') + mset (forgotten_ids profile v conn)
      = add_mset (view_packet_id v) (mset (conn_ids conn))" by blast+
qed

section \<open>The whole table\<close>

fun key_proto :: "conn_key \<Rightarrow> int" where "key_proto (saddr, source, daddr, dest, proto) = proto"

definition conn_ok :: "conn_key \<Rightarrow> connection \<Rightarrow> bool" where
  "conn_ok key conn \<longleftrightarrow> l4_proto conn = word_of_int (key_proto key) \<and> wf_conn conn
     \<and> list_all (held_ok (l4_proto conn)) (segs conn)"

definition table_ok :: "conn_table \<Rightarrow> bool" where
  "table_ok conns \<longleftrightarrow> distinct (map fst conns) \<and> list_all (\<lambda>(k, conn). conn_ok k conn) conns"

lemma table_ok_find: "table_ok conns \<Longrightarrow> find_conn conns k = Some conn \<Longrightarrow> conn_ok k conn"
  by (auto simp: table_ok_def find_conn_def list_all_iff dest: map_of_SomeD)

lemma get_conn_ok:
  assumes "get_conn key conns = Inr (conn, conns')" "table_ok conns"
  shows "table_ok conns'" "conn_ok key conn" "find_conn conns' key = Some conn" "held_ids conns' = held_ids conns"
proof -
  have fresh: "conn_ok key conn \<and> segs conn = []" if "find_conn conns key = None"
    using assms(1) that
    by (cases key) (auto simp: res Let_def set_l4_proto_def conn_ok_def wf_conn_def new_connection_def
        split: if_splits)
  have "table_ok conns' \<and> conn_ok key conn \<and> find_conn conns' key = Some conn \<and> held_ids conns' = held_ids conns"
  proof (rule disjE [OF get_conn_cases [OF assms(1)]])
    assume "find_conn conns key = Some conn \<and> conns' = conns"
    then show ?thesis using assms(2) table_ok_find by blast
  next
    assume new: "find_conn conns key = None \<and> conns' = (key, conn) # conns"
    then have "key \<notin> fst ` set conns" by (auto simp: find_conn_def map_of_eq_None_iff)
    then show ?thesis using new fresh assms(2) by (auto simp: table_ok_def find_conn_def conn_ids_def)
  qed
  then show "table_ok conns'" "conn_ok key conn" "find_conn conns' key = Some conn" "held_ids conns' = held_ids conns"
    by blast+
qed

lemma update_conn_ok:
  assumes "table_ok conns" "conn_ok key conn"
  shows "table_ok (update_conn key conn conns)"
proof -
  have "map fst (update_conn key conn conns) = map fst conns"
    by (auto simp: update_conn_def split: prod.splits)
  moreover have "list_all (\<lambda>(k, conn). conn_ok k conn) (update_conn key conn conns)"
    using assms by (auto simp: table_ok_def update_conn_def list_all_iff split: if_splits)
  ultimately show ?thesis using assms(1) by (simp add: table_ok_def)
qed

lemma update_conn_absent: "key \<notin> fst ` set conns \<Longrightarrow> update_conn key conn conns = conns"
  by (induction conns) (auto simp: update_conn_def)

lemma update_conn_held:
  assumes "distinct (map fst conns)" "find_conn conns key = Some old"
  shows "mset (held_ids (update_conn key conn conns)) + mset (conn_ids old)
    = mset (held_ids conns) + mset (conn_ids conn)"
  using assms
proof (induction conns)
  case Nil
  then show ?case by (simp add: find_conn_def)
next
  case (Cons entry conns)
  obtain k c where e: "entry = (k, c)" by fastforce
  show ?case
  proof (cases "k = key")
    case True
    then have "update_conn key conn conns = conns" using Cons.prems(1) e by (intro update_conn_absent) auto
    then show ?thesis using Cons.prems(2) True e by (simp add: update_conn_def find_conn_def)
  next
    case False
    then have "find_conn conns key = Some old" using Cons.prems(2) e by (auto simp: find_conn_def)
    with Cons e have IH: "mset (held_ids (update_conn key conn conns)) + mset (conn_ids old)
        = mset (held_ids conns) + mset (conn_ids conn)" by simp
    have "update_conn key conn (entry # conns) = (k, c) # update_conn key conn conns"
      using False e by (simp add: update_conn_def)
    then show ?thesis using IH e by (simp add: add.assoc)
  qed
qed

lemma track_keeps:
  assumes "track now v conn = Inr conn'" "wf_conn conn"
  shows "segs conn' = segs conn" "l4_proto conn' = l4_proto conn" "is_done conn' = is_done conn" "wf_conn conn'"
proof -
  obtain c where "track_transport v conn = Inr c" and c: "conn' = c\<lparr>last_packet_time := now,
       pl_bytes_transfered := pl_bytes_transfered c + word_of_nat (length (view_payload v)),
       packet_count := packet_count c + 1\<rparr>"
    using assms(1) by (auto simp: track_def res)
  then have "c = conn \<or> (\<exists>t. c = conn\<lparr>l4_state := Tcp t\<rparr>)"
    by (auto simp: track_transport_def track_tcp_def track_udp_def res Let_def split: if_splits l4_hdr.splits)
  then show "segs conn' = segs conn" "l4_proto conn' = l4_proto conn" "is_done conn' = is_done conn" "wf_conn conn'"
    using assms(2) by (auto simp: c wf_conn_def)
qed

text \<open>What a message makes the loop forget, through the table and the profiles.\<close>

definition lost_ids :: "profiles \<Rightarrow> int \<Rightarrow> packet_view \<Rightarrow> conn_key \<Rightarrow> conn_table \<Rightarrow> u32 list" where
  "lost_ids profiles now v key conns =
     (case get_conn key conns of
        Inl _ \<Rightarrow> []
      | Inr (conn, _) \<Rightarrow>
          (case track now v conn of
             Inl _ \<Rightarrow> []
           | Inr conn \<Rightarrow>
               if view_payload v \<noteq> [] \<and> \<not> is_done conn then
                 (case key of (saddr, source, daddr, dest, proto) \<Rightarrow>
                    (case map_of profiles (dest, proto) of
                       None \<Rightarrow> [] | Some profile \<Rightarrow> forgotten_ids profile v conn))
               else []))"

lemma balance:
  fixes new :: "'a multiset"
  assumes "new + conn' + lost = add_mset x conn" "held' + conn = held + conn'"
  shows "new + held' + lost = add_mset x held"
proof -
  have "(new + held' + lost) + conn = new + lost + (held' + conn)" by (simp add: ac_simps)
  also have "\<dots> = held + (new + conn' + lost)" unfolding assms(2) by (simp add: ac_simps)
  also have "\<dots> = add_mset x held + conn" unfolding assms(1) by simp
  finally show ?thesis by (rule add_right_imp_eq)
qed

lemma handle_packet_accounts:
  assumes run: "handle_packet env verdict_ret profiles now v key st = Inr st'"
    and v: "queued_view bs v" "ip_protocol bs 0 = Inr (word_of_int (key_proto key))"
    and ok: "table_ok (tracker st)"
  shows "table_ok (tracker st')"
    "\<exists>new. events st' = events st @ new
      \<and> mset (answered new) + mset (held_ids (tracker st')) + mset (lost_ids profiles now v key (tracker st))
        = add_mset (view_packet_id v) (mset (held_ids (tracker st)))"
proof -
  obtain saddr source daddr dest proto where k: "key = (saddr, source, daddr, dest, proto)"
    by (cases key) auto
  obtain conn conns conn1 where g: "get_conn key (tracker st) = Inr (conn, conns)"
    and t: "track now v conn = Inr conn1"
    using run by (auto simp: k handle_packet.simps Let_def res)
  note G = get_conn_ok [OF g ok]
  have wf: "wf_conn conn" using G(2) by (simp add: conn_ok_def)
  note T = track_keeps [OF t wf]
  have c1: "conn_ok key conn1" using G(2) T by (metis conn_ok_def)
  have ids: "conn_ids conn1 = conn_ids conn" using T(1) by (simp add: conn_ids_def)
  note E = update_conn_held [OF _ G(3)]
  have d: "distinct (map fst conns)" using G(1) by (simp add: table_ok_def)
  note L = lost_ids_def [of profiles now v key "tracker st", unfolded g t sum.case prod.case]
  have "table_ok (tracker st') \<and> (\<exists>new. events st' = events st @ new
      \<and> mset (answered new) + mset (held_ids (tracker st')) + mset (lost_ids profiles now v key (tracker st))
        = add_mset (view_packet_id v) (mset (held_ids (tracker st))))"
  proof (cases "view_payload v \<noteq> [] \<and> \<not> is_done conn1")
    case True
    obtain profile conn' evs where p: "map_of profiles (dest, proto) = Some profile"
      and r: "process_payload env profile v conn1 = Inr (conn', evs)"
      and st': "st' = st\<lparr>tracker := update_conn key conn' conns, events := events st @ evs\<rparr>"
      using run True g t by (auto simp: k handle_packet.simps Let_def res split: option.splits)
    have h: "list_all (held_ok (l4_proto conn1)) (segs conn1)" and lp: "l4_proto conn1 = word_of_int (key_proto key)"
      using c1 by (auto simp: conn_ok_def)
    note A = process_payload_accounts [OF r v(1) v(2) [folded lp] h]
    have "conn_ok key conn'" using A(1-3) c1 by (simp add: conn_ok_def wf_conn_def)
    then have ok': "table_ok (tracker st')" using update_conn_ok [OF G(1)] by (simp add: st')
    have l: "lost_ids profiles now v key (tracker st) = forgotten_ids profile v conn1"
      using L True p by (simp add: k)
    have "mset (answered evs) + mset (held_ids (update_conn key conn' conns)) + mset (forgotten_ids profile v conn1)
        = add_mset (view_packet_id v) (mset (held_ids conns))"
      using A(4) [unfolded ids] E [OF d] by (rule balance)
    then show ?thesis using ok' l G(4) by (simp add: st')
  next
    case False
    then have st': "st' = st\<lparr>tracker := update_conn key conn1 conns,
        events := events st @ [Verdict (view_packet_id v) NF_ACCEPT]\<rparr>"
      using run g t by (auto simp: k handle_packet.simps Let_def res split: if_splits)
    have "lost_ids profiles now v key (tracker st) = []" using L False by auto
    moreover have "mset (held_ids (update_conn key conn1 conns)) = mset (held_ids conns)"
      using E [OF d, of conn1] ids by simp
    ultimately show ?thesis using update_conn_ok [OF G(1) c1] G(4) by (simp add: st')
  qed
  then show "table_ok (tracker st')"
    "\<exists>new. events st' = events st @ new
      \<and> mset (answered new) + mset (held_ids (tracker st')) + mset (lost_ids profiles now v key (tracker st))
        = add_mset (view_packet_id v) (mset (held_ids (tracker st)))" by blast+
qed

section \<open>Messages\<close>

text \<open>What the kernel guarantees of a queued packet: it carries an id and valid headers.\<close>

definition valid_message :: "nfq_message \<Rightarrow> bool" where
  "valid_message msg \<longleftrightarrow>
     (case (packet_hdr msg, packet_data msg) of
        (Some (Some packet_id), Some bs) \<Rightarrow> ntohl packet_id \<noteq> 0 \<and> valid_buffer bs
      | _ \<Rightarrow> False)"

definition message_id :: "nfq_message \<Rightarrow> u32" where
  "message_id msg = (case packet_hdr msg of Some (Some packet_id) \<Rightarrow> ntohl packet_id | _ \<Rightarrow> 0)"

text \<open>The view the callback works on.\<close>

definition message_view :: "nfq_message \<Rightarrow> packet_view result" where
  "message_view msg =
     (case packet_data msg of
        None \<Rightarrow> Inl Assert_failed
      | Some bs \<Rightarrow> and_then (parse_packet_view bs) (\<lambda>parsed. Inr (parsed\<lparr>view_packet_id := message_id msg\<rparr>)))"

definition message_lost :: "profiles \<Rightarrow> nfq_message \<Rightarrow> loop_state \<Rightarrow> u32 list" where
  "message_lost profiles msg st =
     (case and_then (message_view msg) (\<lambda>v. and_then (connection_key v) (\<lambda>key. Inr (v, key))) of
        Inl _ \<Rightarrow> []
      | Inr (v, key) \<Rightarrow> lost_ids profiles (arrival msg) v key (tracker st))"

lemma parsed_bytes:
  "parse_packet_view bs = Inr v \<Longrightarrow> view_packet v = bs \<and> view_network_hdr v = 0"
  by (auto simp: parse_packet_view_def res Let_def)

lemma cb_loop_cases:
  assumes "cb_loop env verdict_ret profiles msg st = Inr (r, st')" "valid_message msg"
  obtains (failed) "r = MNL_CB_ERROR" "st' = st"
  | (handled) v key bs where "r = MNL_CB_OK" "packet_data msg = Some bs" "message_view msg = Inr v"
      "queued_view bs v" "view_packet_id v = message_id msg" "connection_key v = Inr key"
      "ip_protocol bs 0 = Inr (word_of_int (key_proto key))"
      "handle_packet env verdict_ret profiles (arrival msg) v key st = Inr st'"
proof (cases "parse_ret msg < 0")
  case True
  then show ?thesis using assms(1) that(1) by (simp add: cb_loop_def)
next
  case False
  obtain i bs where m: "packet_hdr msg = Some (Some i)" "packet_data msg = Some bs" "ntohl i \<noteq> 0" "valid_buffer bs"
    using assms(2) by (auto simp: valid_message_def split: option.splits)
  then obtain parsed key where p: "parse_packet_view bs = Inr parsed"
    and k: "connection_key (parsed\<lparr>view_packet_id := ntohl i\<rparr>) = Inr key" and r: "r = MNL_CB_OK"
    and h: "handle_packet env verdict_ret profiles (arrival msg) (parsed\<lparr>view_packet_id := ntohl i\<rparr>) key st = Inr st'"
    using assms(1) False by (auto simp: cb_loop_def Let_def res)
  note P = parsed_bytes [OF p]
  have "ip_protocol bs 0 = Inr (word_of_int (key_proto key))"
    using k P by (auto simp: connection_key_def res)
  moreover have "queued_view bs (parsed\<lparr>view_packet_id := ntohl i\<rparr>)"
    using m p by (auto simp: queued_view_def)
  ultimately show ?thesis
    using that(2) [OF r m(2) _ _ _ k] m(1,2) p h by (simp add: message_view_def message_id_def)
qed

lemma cb_loop_balance:
  assumes "cb_loop env verdict_ret profiles msg st = Inr (MNL_CB_OK, st')" "valid_message msg"
    and "table_ok (tracker st)"
  shows "table_ok (tracker st')"
    "\<exists>new. events st' = events st @ new
      \<and> mset (answered new) + mset (held_ids (tracker st')) + mset (message_lost profiles msg st)
        = add_mset (message_id msg) (mset (held_ids (tracker st)))"
proof -
  from assms(1,2) have "table_ok (tracker st') \<and> (\<exists>new. events st' = events st @ new
      \<and> mset (answered new) + mset (held_ids (tracker st')) + mset (message_lost profiles msg st)
        = add_mset (message_id msg) (mset (held_ids (tracker st))))"
  proof (cases rule: cb_loop_cases)
    case (handled v key bs)
    have "message_lost profiles msg st = lost_ids profiles (arrival msg) v key (tracker st)"
      using handled by (simp add: message_lost_def)
    then show ?thesis
      using handle_packet_accounts [OF handled(8,4,7) assms(3)] handled(5) by simp
  qed simp
  then show "table_ok (tracker st')"
    "\<exists>new. events st' = events st @ new
      \<and> mset (answered new) + mset (held_ids (tracker st')) + mset (message_lost profiles msg st)
        = add_mset (message_id msg) (mset (held_ids (tracker st)))" by blast+
qed

section \<open>Properties\<close>

text \<open>C16. Once a connection is done, every further packet of it is accepted at once, whatever it
  carries: one verdict and nothing else, the connection stays done, and no other connection
  changes.\<close>

theorem done_connection_passes:
  assumes "cb_loop env verdict_ret profiles msg st = Inr (MNL_CB_OK, st')" "valid_message msg"
    and "message_view msg = Inr v" "connection_key v = Inr key"
    and "find_conn (tracker st) key = Some conn" "is_done conn" "wf_conn conn"
  shows "events st' = events st @ [Verdict (message_id msg) NF_ACCEPT]
    \<and> (\<exists>conn'. find_conn (tracker st') key = Some conn' \<and> is_done conn' \<and> segs conn' = segs conn)
    \<and> (\<forall>k. k \<noteq> key \<longrightarrow> find_conn (tracker st') k = find_conn (tracker st) k)"
proof -
  obtain saddr source daddr dest proto where k: "key = (saddr, source, daddr, dest, proto)"
    by (cases key) auto
  from assms(1,2) show ?thesis
  proof (cases rule: cb_loop_cases)
    case (handled w key' bs)
    then have w: "w = v" "key' = key" using assms(3,4) by auto
    have g: "get_conn key (tracker st) = Inr (conn, tracker st)" by (rule table.acquire_found [OF assms(5)])
    obtain conn1 where t: "track (arrival msg) v conn = Inr conn1"
      using handled(8) g by (auto simp: w k handle_packet.simps Let_def res)
    note T = track_keeps [OF t assms(7)]
    have "st' = st\<lparr>tracker := update_conn key conn1 (tracker st),
        events := events st @ [Verdict (view_packet_id v) NF_ACCEPT]\<rparr>"
      using handled(8) g t T(3) assms(6) by (auto simp: w k handle_packet.simps Let_def res split: if_splits)
    then show ?thesis
      using handled(5) w T assms(5,6) by (auto simp: find_update_conn)
  qed simp
qed

text \<open>A modifier that asks for header changes only.\<close>

fun header_only :: "i_modifier \<Rightarrow> bool" where
  "header_only (Splitter_modifier args) = (splits args = [] \<and> fake_blob args = None \<and> split_seqovl args = None)"
| "header_only (Disorder_modifier args) = False"

lemma header_only_step:
  assumes "header_only m"
  shows "header_pass (modifier_step env ctx m)"
proof (cases m)
  case (Splitter_modifier args)
  then have "splitter_modify env args ctx = (\<lambda>ps. and_then (ttl_pass args original ps) (\<lambda>ps.
      and_then (ts_pass args (ctx_conn ctx) original ps) (\<lambda>ps.
      and_then (seq_pass args (ctx_conn ctx) False original ps)
        (cksum_pass args (ctx_conn ctx) False original (rand_at env 0)))))"
    using assms
    by (simp add: splitter_modify_def splitter_process_orig_def fun_eq_iff split_passes_def
        splitter_seqovl_pass_def Let_def)
  then have "header_pass (splitter_modify env args ctx)"
    by (simp only:, intro header_passing shared_ttl.header_pass_axioms shared_ts.header_pass_axioms
        shared_seq.header_pass_axioms shared_cksum.header_pass_axioms)
  then show ?thesis
    unfolding modifier_step_def Splitter_modifier i_modifier.case by (intro header_passing)
qed (use assms in simp)

lemma header_only_chain:
  "list_all header_only ms \<Longrightarrow> header_pass (fold_r (modifier_step env ctx) ms)"
proof (induction ms)
  case Nil
  have "fold_r (modifier_step env ctx) [] = (\<lambda>ps. Inr ps)" by (simp add: fun_eq_iff)
  then show ?case by (simp add: header_skip)
next
  case (Cons m ms)
  have "fold_r (modifier_step env ctx) (m # ms) = (\<lambda>ps. and_then (modifier_step env ctx m ps) (fold_r (modifier_step env ctx) ms))"
    by (simp add: fun_eq_iff)
  with Cons show ?case by (simp add: header_then header_only_step)
qed

lemma accepted_events:
  assumes "list_all (\<lambda>p. action_action p = ACCEPT \<and> action_packet_id p \<noteq> 0) ps"
  shows "send_packets ps = Inr (map (\<lambda>p. Verdict (action_packet_id p) NF_ACCEPT) ps)"
  using assms
  by (induction ps) (auto simp: send_packets_def packet_events_def res)

text \<open>C19. Header changes alone never reach the network: a profile whose splitters change the time to
  live, sequence numbers, timestamps or checksums of real packets, without a split or an overlap,
  leaves every packet marked ACCEPT, so the kernel is told to send the original packets and the
  rewritten ones are thrown away.\<close>

theorem header_changes_not_sent:
  assumes "modifier_modify env m conn held = Inr qs" "send_packets qs = Inr evs"
    and "list_all header_only (modifiers m)" "list_all (held_ok IPPROTO_TCP) held"
  shows "evs = map (\<lambda>p. Verdict (action_packet_id p) NF_ACCEPT) held"
proof -
  have wf: "list_all wf_packet held" using assms(4) by (auto simp: held_ok_def list_all_iff)
  have R: "qs = held \<or> list_all2 same_role held qs"
    using modifier_modify_cases [OF assms(1)] header_pass.run_pointwise [OF header_only_chain [OF assms(3)] _ wf]
    by blast
  have "list_all (\<lambda>p. action_action p = ACCEPT \<and> action_packet_id p \<noteq> 0) qs
    \<and> map action_packet_id qs = map action_packet_id held"
    using R
  proof
    assume "list_all2 same_role held qs"
    then show ?thesis
      using assms(4) by (induction rule: list_all2_induct) (auto simp: same_role_def held_ok_def)
  qed (use assms(4) in \<open>auto simp: held_ok_def list_all_iff\<close>)
  moreover have "map (\<lambda>p. Verdict (action_packet_id p) NF_ACCEPT) ps = map (\<lambda>i. Verdict i NF_ACCEPT) (map action_packet_id ps)"
    for ps by simp
  ultimately show ?thesis using accepted_events [of qs] assms(2) by (metis Inr_inject)
qed

text \<open>Concrete runs: a connection that is done, and a splitter that only sets the time to live.\<close>

definition done_state :: loop_state where
  "done_state = \<lparr>tracker = [((0x0100000A, 50000, 0x0200000A, 443, 6),
     tcp_connection\<lparr>l4_proto := 6, is_done := True\<rparr>)], events = []\<rparr>"

definition plain_message :: nfq_message where
  "plain_message = \<lparr>parse_ret = 0, packet_hdr = Some (Some (htonl 7)), packet_data = Some sample_bytes, arrival = 0\<rparr>"

lemma done_connection_passes_witness:
  "\<exists>st'. cb_loop sample_env (\<lambda>_. 1) [] plain_message done_state = Inr (MNL_CB_OK, st')
     \<and> events st' = [Verdict 7 NF_ACCEPT]"
proof -
  define st' where "st' = (case cb_loop sample_env (\<lambda>_. 1) [] plain_message done_state of Inr (_, s) \<Rightarrow> s | Inl _ \<Rightarrow> done_state)"
  have run: "cb_loop sample_env (\<lambda>_. 1) [] plain_message done_state = Inr (MNL_CB_OK, st')"
    unfolding st'_def by code_simp
  have m: "valid_message plain_message" "message_id plain_message = 7"
    and v: "message_view plain_message = Inr (view_of (packet_of sample_bytes 7))"
    and k: "connection_key (view_of (packet_of sample_bytes 7)) = Inr (0x0100000A, 50000, 0x0200000A, 443, 6)"
    by code_simp+
  have f: "find_conn (tracker done_state) (0x0100000A, 50000, 0x0200000A, 443, 6)
      = Some (tcp_connection\<lparr>l4_proto := 6, is_done := True\<rparr>)"
    by (simp add: done_state_def find_conn_def)
  have "events st' = events done_state @ [Verdict (message_id plain_message) NF_ACCEPT]"
    using done_connection_passes [OF run m(1) v k f] by (simp add: wf_conn_def tcp_connection_def)
  then show ?thesis using run m(2) by (auto simp: done_state_def)
qed

lemma header_changes_not_sent_witness:
  "\<exists>qs. modifier_modify sample_env \<lparr>modifiers = [Splitter_modifier (plain_args\<lparr>arg_ttl := Some 3\<rparr>)], hosts = None, ips = None\<rparr>
      tcp_connection [sample_packet] = Inr qs
    \<and> qs \<noteq> [sample_packet] \<and> send_packets qs = Inr [Verdict 7 NF_ACCEPT]"
proof -
  let ?m = "\<lparr>modifiers = [Splitter_modifier (plain_args\<lparr>arg_ttl := Some 3\<rparr>)], hosts = None, ips = None\<rparr>"
  let ?p = "sample_packet"
  have wf: "wf_packet ?p" by simp
  have o: "original ?p" and acc: "action_action ?p = ACCEPT" "action_packet_id ?p = 7" "\<not> is_fake_blob ?p"
    by (simp_all add: original_def sample_packet_def)
  obtain full where full: "concat_view original [?p] = Inr full" using wf wf_concat_view [of "[?p]" original] by auto
  have run: "modifier_modify sample_env ?m tcp_connection [?p] = Inr [put_ttl ?p 3]"
    using full wf o
    by (simp add: modifier_modify_def find_markers_def tcp_connection_def new_connection_def modifier_filter_def
        modifier_step_def matches_def plain_args_def splitter_modify_def splitter_process_orig_def split_passes_def
        ttl_pass_def ts_pass_def seq_pass_def cksum_pass_def splitter_seqovl_pass_def ipv4_ttl_def map_view_def
        wf_run Let_def)
  have ev: "send_packets [put_ttl ?p 3] = Inr [Verdict 7 NF_ACCEPT]"
    by (simp add: send_packets_def packet_events_def acc)
  have ne: "put_ttl ?p 3 \<noteq> ?p" by code_simp
  have h: "list_all (held_ok IPPROTO_TCP) [?p]" using wf by (simp add: held_ok_def wf_run acc)
  have "[Verdict 7 NF_ACCEPT] = map (\<lambda>p. Verdict (action_packet_id p) NF_ACCEPT) [?p]"
    using header_changes_not_sent [OF run ev _ h] by (simp add: plain_args_def acc)
  then show ?thesis using run ev ne by auto
qed

end
