(* ===== verification/Progress.thy ===== *)
theory Progress
  imports Packet_Loop
begin

text \<open>
  That the callback gets through: on a packet in the middle of a TCP connection every step of
  \<open>cb_loop\<close> up to the modifiers delivers its value, and sending what the modifiers return does
  too, so that only a fault of the modifiers can stop it. The last section goes through the cases of
  a datagram, where the callback itself throws.
\<close>

section \<open>The steps\<close>

lemma wf_connection_key:
  assumes "wf_packet p"
  shows "\<exists>saddr source daddr dest. connection_key (view_of p) = Inr (saddr, source, daddr, dest, uint IPPROTO_TCP)"
  using wf_packetD [OF assms] wf_ip_protocol [OF assms]
  by (simp add: connection_key_def get_source_port_def get_dest_port_def ip_saddr_def ip_daddr_def
      tcp_source_def tcp_dest_def load32_def load16_def)

lemma message_view_tcp:
  assumes "packet_data msg = Some bs" "tcp_layout bs"
  shows "message_view msg = Inr (view_of (packet_of bs (message_id msg)))"
  using assms by (simp add: message_view_def parse_packet_view_tcp view_of_def packet_of_def payload_of_def)

lemma get_conn_tcp:
  "\<exists>conn conns'. get_conn (saddr, source, daddr, dest, uint IPPROTO_TCP) conns = Inr (conn, conns')
     \<and> (case find_conn conns (saddr, source, daddr, dest, uint IPPROTO_TCP) of
          None \<Rightarrow> [] | Some c \<Rightarrow> segs c) = segs conn"
  by (cases "find_conn conns (saddr, source, daddr, dest, uint IPPROTO_TCP)")
    (auto simp: set_l4_proto_def new_connection_def Let_def IPPROTO_TCP_def)

lemma track_without_syn:
  assumes "wf_packet p" "l4_state conn = Tcp t" "\<not> syn (view_flags (view_of p))"
  shows "\<exists>conn'. track now (view_of p) conn = Inr conn'"
  using assms
  by (simp add: track_def track_transport_def track_tcp_run wf_run)

lemma classify_tcp: "list_all wf_packet ps \<Longrightarrow> \<exists>r. classify cs ps = Inr r"
proof -
  assume "list_all wf_packet ps"
  then have "map_r payload ps = Inr (map payload_of ps)"
    by (intro map_r_total) (simp add: list_all_iff wf_payload)
  then show ?thesis by (simp add: classify_def concat_sorted_def)
qed

lemma classify_done_proto: "classify cs ps = Inr (DONE, q) \<Longrightarrow> \<exists>proto. q = Some proto"
  by (auto simp: classify_def and_then_Inr_iff dest: dispatch.loop_proto)

lemma packet_events_tcp:
  assumes "wf_packet p" "action_action p = ACCEPT \<longrightarrow> action_packet_id p \<noteq> 0"
  shows "\<exists>evs. packet_events p = Inr evs"
proof -
  have "raw_events p = Inr [Raw_send (get32 (packet_bytes p) 16) (packet_bytes p)]"
    using wf_packetD [OF assms(1)] by (simp add: raw_events_def ip_daddr_def load32_def)
  then show ?thesis using assms(2) by (cases "action_action p") (simp_all add: packet_events_def)
qed

lemma send_packets_tcp:
  assumes "list_all wf_packet ps" "0 \<notin> set (verdicts ps)"
  shows "\<exists>evs. send_packets ps = Inr evs"
proof -
  have "\<exists>evs. packet_events p = Inr evs" if "p \<in> set ps" for p
  proof (rule packet_events_tcp)
    show "wf_packet p" using assms(1) that by (simp add: list_all_iff)
    show "action_action p = ACCEPT \<longrightarrow> action_packet_id p \<noteq> 0"
      using assms(2) that by (force simp: verdicts_def owes_verdict_def)
  qed
  then obtain f where "\<And>p. p \<in> set ps \<Longrightarrow> packet_events p = Inr (f p)" by metis
  then have "map_r packet_events ps = Inr (map f ps)" by (rule map_r_total)
  then show ?thesis by (simp add: send_packets_def)
qed

section \<open>The callback\<close>

text \<open>The modifiers of a profile fault on packets taken from \<open>ps\<close>.\<close>

definition modifiers_fault :: "environment \<Rightarrow> profile \<Rightarrow> packet list \<Rightarrow> fault \<Rightarrow> bool" where
  "modifiers_fault env profile ps e \<longleftrightarrow> (\<exists>conn packets. packets \<noteq> [] \<and> set packets \<subseteq> set ps
     \<and> modifier_modify env (prof_modifier profile) conn packets = Inl e)"

lemma process_payload_tcp:
  assumes p: "fresh_packet p" "action_packet_id p \<noteq> 0"
    and conn: "l4_proto conn = IPPROTO_TCP" "list_all (held_ok IPPROTO_TCP) (segs conn)"
    and window: "list_all (ends_in_window base) (p # segs conn)" "in_seq_order base (segs conn)"
  shows "(\<exists>r. process_payload env profile (view_of p) conn = Inr r)
    \<or> (\<exists>e. process_payload env profile (view_of p) conn = Inl e \<and> modifiers_fault env profile (p # segs conn) e)"
proof -
  let ?n = "if seq_of p \<in> seq_of ` set (segs conn) then segs conn
            else insort_key (\<lambda>p. seg_rel base (seg_of p)) p (segs conn)"
  have wf: "list_all wf_packet (segs conn)" using conn(2) by (simp add: list_all_iff held_ok_def)
  have insert: "reasm_insert (view_of p) conn = Inr (conn\<lparr>segs := ?n\<rparr>)"
    by (rule reasm_insert_run [OF conn(1) wf p(1) window])
  have "held_ok IPPROTO_TCP p" using p by (simp add: held_ok_def fresh_packet_def wf_run)
  then have held: "list_all (held_ok IPPROTO_TCP) ?n" using conn(2) by (auto simp: list_all_iff set_insort_key)
  have n: "?n \<noteq> []" by (metis empty_iff image_empty insert_iff list.set(1) set_insort_key)
  have w: "list_all wf_packet ?n" using held by (simp add: list_all_iff held_ok_def)
  obtain r q where c: "classify (prof_classifier profile) ?n = Inr (r, q)"
    using classify_tcp [OF w] by (metis surj_pair)
  show ?thesis
  proof (cases r)
    case DONE
    then obtain proto where q: "q = Some proto" using classify_done_proto c by blast
    show ?thesis
    proof (cases "modifier_modify env (prof_modifier profile)
        (reasm_reset (conn\<lparr>segs := ?n, payload_proto := proto\<rparr>)) ?n")
      case (Inl e)
      moreover have "set ?n \<subseteq> set (p # segs conn)" by (auto simp: set_insort_key)
      ultimately have "modifiers_fault env profile (p # segs conn) e"
        using n unfolding modifiers_fault_def by blast
      then show ?thesis
        using Inl c n by (simp add: process_payload_def insert Let_def DONE q optional_value_def)
    next
      case (Inr qs)
      have "mset (verdicts qs) = mset (map action_packet_id ?n)"
        using modified_held(2) [OF Inr held n] .
      then have "set (verdicts qs) = action_packet_id ` set ?n" by (metis mset_eq_setD set_map)
      then have "0 \<notin> set (verdicts qs)" using held by (auto simp: list_all_iff held_ok_def)
      then obtain evs where "send_packets qs = Inr evs"
        using send_packets_tcp chain.run_wf [OF Inr w] by blast
      then show ?thesis
        using Inr c n by (simp add: process_payload_def insert Let_def DONE q optional_value_def)
    qed
  qed (use c n in \<open>simp_all add: process_payload_def insert Let_def\<close>)
qed

definition held_packets :: "conn_key \<Rightarrow> conn_table \<Rightarrow> packet list" where
  "held_packets key conns = (case find_conn conns key of None \<Rightarrow> [] | Some conn \<Rightarrow> segs conn)"

definition connection_done :: "conn_key \<Rightarrow> conn_table \<Rightarrow> bool" where
  "connection_done key conns = (case find_conn conns key of None \<Rightarrow> False | Some conn \<Rightarrow> is_done conn)"

text \<open>The packets a connection holds, and the one that arrives, lie in half the sequence space.\<close>

definition in_window :: "u32 \<Rightarrow> packet \<Rightarrow> packet list \<Rightarrow> bool" where
  "in_window base p ps \<longleftrightarrow> list_all (ends_in_window base) (p # ps) \<and> in_seq_order base ps"

lemma handle_packet_tcp:
  assumes p: "fresh_packet p" "action_packet_id p \<noteq> 0" "\<not> syn (view_flags (view_of p))"
    and ok: "table_ok (tracker st)" "verdict_ret (length (events st)) \<noteq> 0"
    and key: "key = (saddr, source, daddr, dest, uint IPPROTO_TCP)"
    and profile: "map_of profiles (dest, uint IPPROTO_TCP) = Some profile"
    and window: "in_window base p (held_packets key (tracker st))"
  shows "(\<exists>st'. handle_packet env verdict_ret profiles now (view_of p) key st = Inr st')
    \<or> (\<exists>e. handle_packet env verdict_ret profiles now (view_of p) key st = Inl e
      \<and> modifiers_fault env profile (p # held_packets key (tracker st)) e)"
proof -
  have wp: "wf_packet p" using p(1) by (simp add: fresh_packet_def)
  obtain conn conns where g: "get_conn key (tracker st) = Inr (conn, conns)"
    and f: "held_packets key (tracker st) = segs conn"
    using get_conn_tcp key by (metis held_packets_def)
  have c: "conn_ok key conn" by (rule get_conn_ok(2) [OF g ok(1)])
  then have tcp: "l4_proto conn = IPPROTO_TCP" and wf: "wf_conn conn"
    by (simp_all add: conn_ok_def key)
  have held: "list_all (held_ok IPPROTO_TCP) (segs conn)" using c tcp by (simp add: conn_ok_def)
  from tcp wf obtain t where t: "l4_state conn = Tcp t" by (auto simp: wf_conn_def)
  obtain conn1 where tr: "track now (view_of p) conn = Inr conn1"
    using track_without_syn [OF wp t p(3)] by blast
  note T = track_keeps [OF tr wf]
  have w: "list_all (ends_in_window base) (p # segs conn1)" "in_seq_order base (segs conn1)"
    using window f T(1) by (simp_all add: in_window_def)
  have "l4_proto conn1 = IPPROTO_TCP" "list_all (held_ok IPPROTO_TCP) (segs conn1)"
    using tcp held T(1,2) by simp_all
  note P = process_payload_tcp [OF p(1,2) this w, of env profile]
  show ?thesis
  proof (cases "view_payload (view_of p) \<noteq> [] \<and> \<not> is_done conn1")
    case True
    from P show ?thesis
    proof (elim disjE exE conjE)
      fix r
      assume "process_payload env profile (view_of p) conn1 = Inr r"
      then show ?thesis using True g tr profile by (cases r) (simp add: key handle_packet.simps Let_def)
    next
      fix e
      assume "process_payload env profile (view_of p) conn1 = Inl e" "modifiers_fault env profile (p # segs conn1) e"
      then show ?thesis using True g tr profile f T(1) by (simp add: key handle_packet.simps Let_def)
    qed
  next
    case False
    then show ?thesis using g tr ok(2) by (auto simp: key handle_packet.simps Let_def)
  qed
qed

text \<open>C10. The callback gets through: on a valid packet of a TCP connection that is not a SYN, for whose
  destination there is a profile, and while the connection's packets lie in half the sequence
  space, \<open>cb_loop\<close> returns OK, whatever the headers and the payload are; the only thing that can
  stop it is a fault of the profile's modifiers on the packets it was given.\<close>

theorem callback_gets_through:
  assumes "valid_message msg" "0 \<le> parse_ret msg" "packet_data msg = Some bs" "tcp_layout bs"
    and "p = packet_of bs (message_id msg)" "\<not> syn (view_flags (view_of p))"
    and "table_ok (tracker st)" "verdict_ret (length (events st)) \<noteq> 0"
    and "connection_key (view_of p) = Inr (saddr, source, daddr, dest, proto)"
    and "map_of profiles (dest, proto) = Some profile"
    and "in_window base p (held_packets (saddr, source, daddr, dest, proto) (tracker st))"
  shows "(\<exists>st'. cb_loop env verdict_ret profiles msg st = Inr (MNL_CB_OK, st'))
    \<or> (\<exists>e. cb_loop env verdict_ret profiles msg st = Inl e
      \<and> modifiers_fault env profile (p # held_packets (saddr, source, daddr, dest, proto) (tracker st)) e)"
proof -
  obtain i where hdr: "packet_hdr msg = Some (Some i)" and i: "ntohl i \<noteq> 0"
    using assms(1) by (auto simp: valid_message_def split: option.splits)
  have id: "message_id msg = ntohl i" by (simp add: message_id_def hdr)
  have wp: "wf_packet p" using assms(4,5) by simp
  have fresh: "fresh_packet p" "action_packet_id p \<noteq> 0" using wp i by (simp_all add: fresh_packet_def assms(5) id)
  have proto: "proto = uint IPPROTO_TCP" using wf_connection_key [OF wp] assms(9) by auto
  have view: "view_of (packet_of bs 0)\<lparr>view_packet_id := ntohl i\<rparr> = view_of p"
    by (simp add: assms(5) id view_of_def packet_of_def payload_of_def)
  have run: "cb_loop env verdict_ret profiles msg st =
      and_then (handle_packet env verdict_ret profiles (arrival msg) (view_of p) (saddr, source, daddr, dest, proto) st)
        (\<lambda>st. Inr (MNL_CB_OK, st))"
    using assms(2,9) by (simp add: cb_loop_def hdr assms(3) parse_packet_view_tcp [OF assms(4)] Let_def view)
  show ?thesis
    using handle_packet_tcp [where key = "(saddr, source, daddr, dest, uint IPPROTO_TCP)" and st = st
        and verdict_ret = verdict_ret and env = env and now = "arrival msg", OF fresh assms(6-8) refl
        assms(10) [unfolded proto] assms(11) [unfolded proto]]
    by (auto simp: run proto)
qed

lemma callback_gets_through_witness:
  "\<exists>st'. cb_loop sample_env (\<lambda>_. 1) [((443, 6), sample_profile)] plain_message
     \<lparr>tracker = [], events = []\<rparr> = Inr (MNL_CB_OK, st')"
proof -
  let ?st = "\<lparr>tracker = [], events = []\<rparr>" and ?p = "packet_of sample_bytes (message_id plain_message)"
  have v: "valid_message plain_message" "0 \<le> parse_ret plain_message" "packet_data plain_message = Some sample_bytes"
    "\<not> syn (view_flags (view_of ?p))"
    and k: "connection_key (view_of ?p) = Inr (0x0100000A, 50000, 0x0200000A, 443, 6)"
    by code_simp+
  have "ends_in_window (seq_of ?p) ?p"
    using length_sample by (simp add: ends_in_window_def seg_rel_def seg_of_def payload_of_def)
  then have w: "in_window (seq_of ?p) ?p (held_packets (0x0100000A, 50000, 0x0200000A, 443, 6) (tracker ?st))"
    by (simp add: in_window_def held_packets_def find_conn_def in_seq_order_def)
  have "\<not> isl (cb_loop sample_env (\<lambda>_. 1) [((443, 6), sample_profile)] plain_message ?st)"
    by code_simp
  then show ?thesis
    using callback_gets_through [OF v(1-3) sample_layout refl v(4) _ _ k _ w, of "\<lambda>_. 1"
        "[((443, 6), sample_profile)]" sample_profile sample_env]
    by (auto simp: table_ok_def)
qed

section \<open>Datagrams\<close>

lemma udp_not_tcp [simp]: "IPPROTO_UDP \<noteq> IPPROTO_TCP"
  by (simp add: IPPROTO_UDP_def IPPROTO_TCP_def)

lemma queued_udp:
  assumes "queued_view bs v" "ip_protocol bs 0 = Inr IPPROTO_UDP"
  obtains p where "create_packet v = Inr p" "payload p = Inr (view_payload v)"
    "packet_protocol p = Inr IPPROTO_UDP" "original p" "get_seq v = Inr None"
proof -
  obtain parsed where parsed: "parse_packet_view bs = Inr parsed" and v: "v = parsed\<lparr>view_packet_id := view_packet_id v\<rparr>"
    and id: "view_packet_id v \<noteq> 0"
    using assms(1) by (auto simp: queued_view_def)
  obtain ihl where ihl: "ip_ihl bs 0 = Inr ihl"
    using parsed by (auto simp: parse_packet_view_def res)
  have off: "subspan_r bs (ihl * 4 + sizeof_udphdr) = Inr (view_payload parsed)"
    using parsed ihl assms(2) by (auto simp: parse_packet_view_def transport_hdr_len_def res Let_def)
  have b: "view_packet v = bs" "view_network_hdr v = 0" "view_payload v = view_payload parsed"
    using parsed_bytes [OF parsed] by (subst v, simp)+
  let ?p = "\<lparr>packet_bytes = bs, network_offset = 0, transport_offset = ihl * 4,
      payload_offset = ihl * 4 + sizeof_udphdr, action_packet_id = view_packet_id v,
      action_action = ACCEPT, is_fake_blob = False\<rparr>"
  have "create_packet v = Inr ?p" using assms(2) ihl b id by (simp add: create_packet_def)
  then show ?thesis
    using that [of ?p] assms(2) off b by (simp add: payload_def packet_protocol_def original_def get_seq_def)
qed

lemma find_duplicate_udp:
  "list_all (held_ok IPPROTO_UDP) ps \<Longrightarrow> find_duplicate v ps = Inr False"
  by (induction ps) (simp_all add: held_ok_def)

lemma process_payload_udp:
  assumes "queued_view bs v" "ip_protocol bs 0 = Inr IPPROTO_UDP" "l4_proto conn = IPPROTO_UDP"
    and "list_all (held_ok IPPROTO_UDP) (segs conn)"
  shows "if segs conn \<noteq> []
    then process_payload env profile v conn
           = Inl (Logic_error ''sort Not supported for anything other than tcp'')
    else case fst (classify_loop classify_payload protocol (prof_classifier profile) (view_payload v) 0) of
        DONE \<Rightarrow> process_payload env profile v conn = Inl (Logic_error ''Cant concat non tcp segments yet'')
      | REASSEMBLING \<Rightarrow> \<exists>p. create_packet v = Inr p
          \<and> process_payload env profile v conn = Inr (conn\<lparr>segs := [p]\<rparr>, [])
      | ERROR \<Rightarrow> process_payload env profile v conn
          = Inr (conn\<lparr>is_done := True\<rparr>, [Verdict (view_packet_id v) NF_ACCEPT])"
proof -
  obtain p where p: "create_packet v = Inr p" "payload p = Inr (view_payload v)"
    "packet_protocol p = Inr IPPROTO_UDP" "original p" "get_seq v = Inr None"
    using queued_udp [OF assms(1,2)] .
  show ?thesis
  proof (cases "segs conn = []")
    case False
    then have "reasm_insert v conn = Inl (Logic_error ''sort Not supported for anything other than tcp'')"
      using find_duplicate_udp [OF assms(4), of v] p(1,5) assms(3)
      by (simp add: reasm_insert_def reasm_is_duplicate_def follows_last_def reasm_sort_def)
    then show ?thesis using False by (simp add: process_payload_def)
  next
    case True
    obtain r q where c: "classify_loop classify_payload protocol (prof_classifier profile) (view_payload v) 0 = (r, q)"
      by (metis surj_pair)
    then have c': "classify (prof_classifier profile) [p] = Inr (r, q)"
      by (simp add: classify_def concat_sorted_def p(2))
    have i: "reasm_insert v conn = Inr (conn\<lparr>segs := [p]\<rparr>)" using True p(1) by (simp add: reasm_insert_def)
    have none: "conn\<lparr>segs := []\<rparr> = conn" using True by simp
    show ?thesis
    proof (cases r)
      case DONE
      then obtain proto where "q = Some proto" using classify_done_proto c' by blast
      then show ?thesis using True c c' DONE p(3,4)
        by (simp add: process_payload_def i Let_def optional_value_def modifier_modify_def concat_view_def)
    qed (use True c c' p(1) none in \<open>simp_all add: process_payload_def i Let_def reasm_reset_def\<close>)
  qed
qed

lemma get_conn_udp:
  "\<exists>conn conns'. get_conn (saddr, source, daddr, dest, uint IPPROTO_UDP) conns = Inr (conn, conns')
     \<and> held_packets (saddr, source, daddr, dest, uint IPPROTO_UDP) conns = segs conn
     \<and> (connection_done (saddr, source, daddr, dest, uint IPPROTO_UDP) conns \<longleftrightarrow> is_done conn)"
  by (cases "find_conn conns (saddr, source, daddr, dest, uint IPPROTO_UDP)")
    (auto simp: set_l4_proto_def new_connection_def held_packets_def connection_done_def Let_def
      IPPROTO_UDP_def IPPROTO_TCP_def)

lemma track_udp_total:
  "ip_protocol (view_packet v) (view_network_hdr v) = Inr IPPROTO_UDP \<Longrightarrow> \<exists>conn'. track now v conn = Inr conn'"
  by (simp add: track_def track_transport_def track_udp_def)

text \<open>A request sent as a datagram, on a fresh connection.\<close>

definition sample_datagram :: "byte list" where
  "sample_datagram = [0x45, 0, 0, 46, 0x12, 0x34, 0, 0, 64, 17, 0, 0, 10, 0, 0, 1, 10, 0, 0, 2,
     0xC3, 0x50, 0x01, 0xBB, 0, 26, 0, 0] @ ascii ''GET / HTTP/1.1'' @ crlf @ crlf"

definition sample_datagram_view :: packet_view where
  "sample_datagram_view = \<lparr>view_packet = sample_datagram, view_payload = drop 28 sample_datagram,
     view_network_hdr = 0, view_transport_hdr = Udp_hdr 20, view_packet_id = 7\<rparr>"

text \<open>C15. What the callback does with any datagram for which there is a profile, as long as the
  assertion on the result of \<open>send_verdict\<close> holds. An empty one, and one
  of a connection that is done, is accepted. While a datagram of the connection is held, the next
  one raises an exception. With none held the classifier decides: a datagram it does not recognise
  is accepted and the connection is done from then on, one that may need more data is held and
  nothing is sent, and one it recognises raises an exception.\<close>

theorem datagram_outcome:
  assumes "valid_message msg" "0 \<le> parse_ret msg" "packet_data msg = Some bs" "ip_protocol bs 0 = Inr IPPROTO_UDP"
    and "message_view msg = Inr v" "connection_key v = Inr key" "key = (saddr, source, daddr, dest, proto)"
    and "map_of profiles (dest, proto) = Some profile"
    and "table_ok (tracker st)" "verdict_ret (length (events st)) \<noteq> 0"
  shows "if view_payload v = [] \<or> connection_done key (tracker st)
    then \<exists>st'. cb_loop env verdict_ret profiles msg st = Inr (MNL_CB_OK, st')
      \<and> events st' = events st @ [Verdict (message_id msg) NF_ACCEPT]
      \<and> held_packets key (tracker st') = held_packets key (tracker st)
      \<and> connection_done key (tracker st') = connection_done key (tracker st)
    else if held_packets key (tracker st) \<noteq> []
    then cb_loop env verdict_ret profiles msg st
           = Inl (Logic_error ''sort Not supported for anything other than tcp'')
    else case fst (classify_loop classify_payload protocol (prof_classifier profile) (view_payload v) 0) of
        DONE \<Rightarrow> cb_loop env verdict_ret profiles msg st
          = Inl (Logic_error ''Cant concat non tcp segments yet'')
      | REASSEMBLING \<Rightarrow> \<exists>st' p. cb_loop env verdict_ret profiles msg st = Inr (MNL_CB_OK, st')
          \<and> events st' = events st \<and> \<not> connection_done key (tracker st')
          \<and> held_packets key (tracker st') = [p] \<and> action_packet_id p = message_id msg
      | ERROR \<Rightarrow> \<exists>st'. cb_loop env verdict_ret profiles msg st = Inr (MNL_CB_OK, st')
          \<and> events st' = events st @ [Verdict (message_id msg) NF_ACCEPT]
          \<and> held_packets key (tracker st') = [] \<and> connection_done key (tracker st')"
proof -
  obtain i where hdr: "packet_hdr msg = Some (Some i)" and i: "ntohl i \<noteq> 0" and valid: "valid_buffer bs"
    using assms(1,3) by (auto simp: valid_message_def split: option.splits)
  have id: "message_id msg = ntohl i" by (simp add: message_id_def hdr)
  obtain parsed where parsed: "parse_packet_view bs = Inr parsed" and v: "v = parsed\<lparr>view_packet_id := ntohl i\<rparr>"
    using assms(3,5) by (auto simp: message_view_def id res)
  note B = parsed_bytes [OF parsed]
  have queued: "queued_view bs v" "view_packet_id v = message_id msg"
    using valid parsed i by (auto simp: queued_view_def v id)
  have udp: "ip_protocol (view_packet v) (view_network_hdr v) = Inr IPPROTO_UDP" using B assms(4) by (simp add: v)
  then have proto: "proto = uint IPPROTO_UDP" using assms(6,7) by (auto simp: connection_key_def res)
  have run: "cb_loop env verdict_ret profiles msg st =
      and_then (handle_packet env verdict_ret profiles (arrival msg) v key st) (\<lambda>st. Inr (MNL_CB_OK, st))"
    using assms(2,3,6) hdr by (simp add: cb_loop_def parsed Let_def v)
  obtain conn conns where g: "get_conn key (tracker st) = Inr (conn, conns)"
    and f: "held_packets key (tracker st) = segs conn" "connection_done key (tracker st) \<longleftrightarrow> is_done conn"
    using get_conn_udp assms(7) proto by metis
  note G = get_conn_ok [OF g assms(9)]
  have c: "l4_proto conn = IPPROTO_UDP" "wf_conn conn" "list_all (held_ok IPPROTO_UDP) (segs conn)"
    using G(2) by (auto simp: conn_ok_def assms(7) proto)
  obtain conn1 where t: "track (arrival msg) v conn = Inr conn1" using track_udp_total [OF udp] by blast
  note T = track_keeps [OF t c(2)]
  have stored: "held_packets key (update_conn key c' conns) = segs c'"
    "connection_done key (update_conn key c' conns) = is_done c'" for c'
    using G(3) by (simp_all add: held_packets_def connection_done_def find_update_conn)
  have P: "if segs conn1 \<noteq> []
    then process_payload env profile v conn1
           = Inl (Logic_error ''sort Not supported for anything other than tcp'')
    else case fst (classify_loop classify_payload protocol (prof_classifier profile) (view_payload v) 0) of
        DONE \<Rightarrow> process_payload env profile v conn1 = Inl (Logic_error ''Cant concat non tcp segments yet'')
      | REASSEMBLING \<Rightarrow> \<exists>p. create_packet v = Inr p
          \<and> process_payload env profile v conn1 = Inr (conn1\<lparr>segs := [p]\<rparr>, [])
      | ERROR \<Rightarrow> process_payload env profile v conn1
          = Inr (conn1\<lparr>is_done := True\<rparr>, [Verdict (view_packet_id v) NF_ACCEPT])"
    using c(1,3) T(1,2) by (intro process_payload_udp [OF queued(1) assms(4)]) simp_all
  have handle: "handle_packet env verdict_ret profiles (arrival msg) v key st =
    (if view_payload v \<noteq> [] \<and> \<not> is_done conn
     then and_then (process_payload env profile v conn1) (\<lambda>(conn', evs).
       Inr (st\<lparr>tracker := update_conn key conn' conns, events := events st @ evs\<rparr>))
     else Inr (st\<lparr>tracker := update_conn key conn1 conns, events := events st @ [Verdict (message_id msg) NF_ACCEPT]\<rparr>))"
    using g t T(3) assms(8,10) queued(2) by (simp add: assms(7) handle_packet.simps Let_def)
  show ?thesis
  proof (cases "view_payload v = [] \<or> is_done conn")
    case True
    then show ?thesis using f stored T(1,3) by (auto simp: run handle)
  next
    case False
    then have done1: "\<not> is_done conn1" using T(3) by simp
    show ?thesis
    proof (cases "segs conn1 = []")
      case held: False
      then show ?thesis using P False f T(1) by (simp add: run handle)
    next
      case empty: True
      show ?thesis
      proof (cases "fst (classify_loop classify_payload protocol (prof_classifier profile) (view_payload v) 0)")
        case DONE
        then show ?thesis using P False f T(1) empty by (simp add: run handle)
      next
        case ERROR
        then show ?thesis using P False f T(1) empty stored queued(2) by (simp add: run handle)
      next
        case REASSEMBLING
        then obtain p where p: "create_packet v = Inr p"
          and r: "process_payload env profile v conn1 = Inr (conn1\<lparr>segs := [p]\<rparr>, [])"
          using P empty by auto
        have "action_packet_id p = message_id msg" using create_queued(2) [OF queued(1) p assms(4)] queued(2) by simp
        then show ?thesis using r False f T(1) empty stored REASSEMBLING done1 by (simp add: run handle)
      qed
    qed
  qed
qed

definition datagram_message :: nfq_message where
  "datagram_message = plain_message\<lparr>packet_data := Some sample_datagram\<rparr>"

lemma datagram_outcome_witness:
  "cb_loop sample_env (\<lambda>_. 1) [((443, 17), sample_profile)] datagram_message \<lparr>tracker = [], events = []\<rparr>
     = Inl (Logic_error ''Cant concat non tcp segments yet'')"
proof -
  let ?st = "\<lparr>tracker = [], events = []\<rparr>"
  have m: "valid_message datagram_message" "0 \<le> parse_ret datagram_message"
    "packet_data datagram_message = Some sample_datagram" "ip_protocol sample_datagram 0 = Inr IPPROTO_UDP"
    "message_view datagram_message = Inr sample_datagram_view"
    "connection_key sample_datagram_view = Inr (0x0100000A, 50000, 0x0200000A, 443, 17)"
    and recognised: "view_payload sample_datagram_view \<noteq> []"
      "fst (classify_loop classify_payload protocol (prof_classifier sample_profile)
        (view_payload sample_datagram_view) 0) = DONE"
    by code_simp+
  show ?thesis
    using datagram_outcome [OF m refl, of "[((443, 17), sample_profile)]" sample_profile ?st "\<lambda>_. 1" sample_env] recognised
    by (simp add: table_ok_def connection_done_def held_packets_def find_conn_def)
qed

end
