(* ===== verification/Program.thy ===== *)
theory Program
  imports Packet_Loop
begin

text \<open>
  The program, \<^verbatim>\<open>main.cpp\<close>: from the command line over the rules, the sockets and the queue to
  the receive loop and the clean-up, with every exit. The operating system's answers are
  parameters; what the program did is the list of shell commands and the events of the packet loop.
\<close>

section \<open>The receive loop\<close>

text \<open>
  What \<open>mnl_cb_run\<close> finds in a datagram: messages it passes to \<open>cb_loop\<close>, and messages it refuses
  itself. It stops at the first error.
\<close>

datatype netlink = Queue_message nfq_message | Invalid_message

fun mnl_cb_run ::
  "environment \<Rightarrow> (nat \<Rightarrow> int) \<Rightarrow> profiles \<Rightarrow> netlink list \<Rightarrow> loop_state \<Rightarrow> (cb_result \<times> loop_state) result" where
  "mnl_cb_run env verdict_ret profiles [] st = Inr (MNL_CB_OK, st)"
| "mnl_cb_run env verdict_ret profiles (Invalid_message # msgs) st = Inr (MNL_CB_ERROR, st)"
| "mnl_cb_run env verdict_ret profiles (Queue_message msg # msgs) st =
     and_then (cb_loop env verdict_ret profiles msg st) (\<lambda>(r, st).
     case r of
       MNL_CB_ERROR \<Rightarrow> Inr (MNL_CB_ERROR, st)
     | MNL_CB_OK \<Rightarrow> mnl_cb_run env verdict_ret profiles msgs st)"

text \<open>The clock is read after the datagram, and again when dead connections are cleared.\<close>

definition CHECK_DEAD_CONNECTIONS_INTERVAL_SECS :: int where "CHECK_DEAD_CONNECTIONS_INTERVAL_SECS = 10"

definition sweep :: "int \<Rightarrow> loop_state \<Rightarrow> loop_state result" where
  "sweep now st =
     and_then (clear_dead_connections now (tracker st)) (\<lambda>(ids, conns).
     Inr (st\<lparr>tracker := conns, events := events st @ map (\<lambda>i. Verdict i NF_ACCEPT) ids\<rparr>))"

datatype exit_code = EXIT_SUCCESS | EXIT_FAILURE

text \<open>
  One turn of the loop: a receive that was interrupted, one that failed, or a datagram with the two
  times. The list ends when the signal handler has cleared \<open>running\<close>.
\<close>

datatype receive = Interrupted | Receive_failed | Datagram "netlink list" int int

fun receive_loop ::
  "environment \<Rightarrow> (nat \<Rightarrow> int) \<Rightarrow> profiles \<Rightarrow> receive list \<Rightarrow> int \<Rightarrow> loop_state \<Rightarrow> (exit_code \<times> loop_state) result" where
  "receive_loop env verdict_ret profiles [] last_check st = Inr (EXIT_SUCCESS, st)"
| "receive_loop env verdict_ret profiles (Interrupted # turns) last_check st = Inr (EXIT_SUCCESS, st)"
| "receive_loop env verdict_ret profiles (Receive_failed # turns) last_check st = Inr (EXIT_FAILURE, st)"
| "receive_loop env verdict_ret profiles (Datagram msgs now sweep_time # turns) last_check st =
     and_then (mnl_cb_run env verdict_ret profiles msgs st) (\<lambda>(r, st).
     case r of
       MNL_CB_ERROR \<Rightarrow> Inr (EXIT_FAILURE, st)
     | MNL_CB_OK \<Rightarrow>
         if CHECK_DEAD_CONNECTIONS_INTERVAL_SECS \<le> elapsed_seconds now last_check then
           and_then (sweep sweep_time st) (receive_loop env verdict_ret profiles turns now)
         else receive_loop env verdict_ret profiles turns last_check st)"

section \<open>main\<close>

text \<open>
  The answers of the operating system in the order they are asked for. \<open>queue_arg\<close> is what
  extracting the option leaves in the variable, given its default.
\<close>

record os =
  os_sigaction :: int
  os_config_arg :: "string option"
  os_queue_arg :: "u32 \<Rightarrow> u32"
  os_exists :: "string \<Rightarrow> bool"
  os_raw_socket :: int
  os_hdrincl :: int
  os_so_mark :: int
  os_mnl_open :: bool
  os_mnl_bind :: int
  os_bind_sent :: int
  os_params_sent :: int
  os_start :: int
  os_turns :: "receive list"
  os_verdict_ret :: "nat \<Rightarrow> int"

definition MARK :: int where "MARK = 0x14"

text \<open>The calls between the configuration and the loop; each stops the program when it fails.\<close>

definition setup_ok :: "os \<Rightarrow> bool" where
  "setup_ok os \<longleftrightarrow>
     0 \<le> os_raw_socket os \<and> 0 \<le> os_hdrincl os \<and> 0 \<le> os_so_mark os \<and> os_mnl_open os
     \<and> 0 \<le> os_mnl_bind os \<and> 0 \<le> os_bind_sent os \<and> 0 \<le> os_params_sent os"

definition protocol_text :: "int \<Rightarrow> string result" where
  "protocol_text proto =
     (if proto = uint IPPROTO_TCP then Inr ''tcp''
      else if proto = uint IPPROTO_UDP then Inr ''udp''
      else Inl (Runtime_error ''Unknown protocol''))"

definition remove_profile_rule ::
  "shell \<Rightarrow> nat \<Rightarrow> (u16 \<times> int) \<times> profile \<Rightarrow> string list \<Rightarrow> string list result" where
  "remove_profile_rule sh queue_number = (\<lambda>((port, proto), prof) commands.
     and_then (protocol_text proto) (\<lambda>protocol_str.
     rule_remove sh (profile_remove protocol_str (uint port) queue_number) commands))"

definition clean_up :: "shell \<Rightarrow> nat \<Rightarrow> profiles \<Rightarrow> string list \<Rightarrow> string list result" where
  "clean_up sh queue_number profiles commands =
     and_then (fold_r (remove_profile_rule sh queue_number) profiles commands) (\<lambda>commands.
     rule_remove sh (''iptables -D '' @ mark_rule MARK) commands)"

definition empty_loop :: loop_state where "empty_loop = \<lparr>tracker = [], events = []\<rparr>"

definition main ::
  "environment \<Rightarrow> toml_lib \<Rightarrow> shell \<Rightarrow> os \<Rightarrow> (exit_code \<times> string list \<times> loop_state) result" where
  "main env lib sh os =
     (if os_sigaction os < 0 then Inl (Runtime_error ''Could not setup signal handler'')
      else
        (case os_config_arg os of
           None \<Rightarrow> Inl (Runtime_error ''No config path'')
         | Some cfg_path \<Rightarrow>
             let queue_number = unat (os_queue_arg os 1489) in
             if \<not> os_exists os cfg_path
             then Inl (Runtime_error (''Such file '' @ quoted cfg_path @ '' does not exist''))
             else if 65535 < queue_number then Inl (Runtime_error ''Such queue number cannot be used!'')
             else
               and_then (ensure_rule sh (''-A '' @ mark_rule MARK) (''iptables -A '' @ mark_rule MARK) []) (\<lambda>commands.
               and_then (build_profiles lib sh cfg_path queue_number commands) (\<lambda>(profiles, commands).
               if \<not> setup_ok os then Inr (EXIT_FAILURE, commands, empty_loop)
               else
                 and_then (receive_loop env (os_verdict_ret os) profiles (os_turns os) (os_start os) empty_loop)
                   (\<lambda>(code, st).
                 case code of
                   EXIT_FAILURE \<Rightarrow> Inr (EXIT_FAILURE, commands, st)
                 | EXIT_SUCCESS \<Rightarrow>
                     and_then (clean_up sh queue_number profiles commands) (\<lambda>commands.
                     Inr (EXIT_SUCCESS, commands, st)))))))"

section \<open>Runs\<close>

text \<open>
  What the loop can do between two states: take valid messages, whose ids and losses are recorded,
  and clear dead connections.
\<close>

inductive serves ::
  "environment \<Rightarrow> (nat \<Rightarrow> int) \<Rightarrow> profiles \<Rightarrow> loop_state \<Rightarrow> u32 list \<Rightarrow> u32 list \<Rightarrow> loop_state \<Rightarrow> bool"
  for env verdict_ret profiles st where
  idle: "serves env verdict_ret profiles st [] [] st"
| message: "serves env verdict_ret profiles st (ids @ [message_id msg]) (lost @ message_lost profiles msg st1) st2"
    if "serves env verdict_ret profiles st ids lost st1" "valid_message msg"
      "cb_loop env verdict_ret profiles msg st1 = Inr (MNL_CB_OK, st2)"
| cleared: "serves env verdict_ret profiles st ids lost st2"
    if "serves env verdict_ret profiles st ids lost st1" "sweep now st1 = Inr st2"

lemma serves_then:
  assumes "serves env ret profiles st1 ids2 lost2 st2" "serves env ret profiles st ids1 lost1 st1"
  shows "serves env ret profiles st (ids1 @ ids2) (lost1 @ lost2) st2"
  using assms
proof (induction rule: serves.induct)
  case (message ids lost sta msg stb)
  then have "serves env ret profiles st (ids1 @ ids) (lost1 @ lost) sta" by simp
  from serves.message [OF this message(2,3)] show ?case by simp
next
  case (cleared ids lost sta now stb)
  then show ?case by (blast intro: serves.cleared)
qed simp

lemma table_ok_clear:
  assumes "table_ok conns"
  shows "list_all (\<lambda>(k, conn). wf_conn conn) conns"
  using assms by (auto simp: table_ok_def conn_ok_def list_all_iff)

lemma answered_accepts [simp]: "answered (map (\<lambda>i. Verdict i v) ids) = ids"
  by (induction ids) simp_all

lemma held_ids_partition:
  "mset (held_ids (filter P conns)) + mset (held_ids (filter (\<lambda>x. \<not> P x) conns)) = mset (held_ids conns)"
proof (induction conns)
  case (Cons entry conns)
  then show ?case by (cases entry) (auto simp: ac_simps)
qed simp

lemma sweep_run:
  assumes "table_ok (tracker st)"
  shows "sweep now st = Inr (st\<lparr>tracker := filter (\<lambda>(k, conn). \<not> expired now conn) (tracker st),
    events := events st @ map (\<lambda>i. Verdict i NF_ACCEPT)
      (held_ids (filter (\<lambda>(k, conn). expired now conn) (tracker st)))\<rparr>)"
proof -
  have "concat (map (\<lambda>(k, conn). map action_packet_id (segs conn)) conns) = held_ids conns" for conns
    by (simp add: held_ids_def conn_ids_def)
  then show ?thesis by (simp add: sweep_def clear_dead_run [OF table_ok_clear [OF assms]])
qed

lemma sweep_balance:
  assumes "sweep now st = Inr st'" "table_ok (tracker st)"
  shows "table_ok (tracker st')"
    "\<exists>new. events st' = events st @ new
      \<and> mset (answered new) + mset (held_ids (tracker st')) = mset (held_ids (tracker st))"
proof -
  let ?P = "\<lambda>(k :: conn_key, conn). expired now conn"
  have st': "tracker st' = filter (\<lambda>x. \<not> ?P x) (tracker st)"
    "events st' = events st @ map (\<lambda>i. Verdict i NF_ACCEPT) (held_ids (filter ?P (tracker st)))"
    using assms(1) unfolding sweep_run [OF assms(2)] by (auto simp: case_prod_unfold)
  have "distinct (map fst (filter P conns))" if "distinct (map fst conns)" for P and conns :: conn_table
    using that by (induction conns) auto
  then show "table_ok (tracker st')"
    using assms(2) by (auto simp: table_ok_def st' list_all_iff)
  show "\<exists>new. events st' = events st @ new
      \<and> mset (answered new) + mset (held_ids (tracker st')) = mset (held_ids (tracker st))"
    using held_ids_partition [of ?P "tracker st"] by (simp add: st')
qed

lemma serves_balance:
  assumes "serves env ret profiles st ids lost st'" "table_ok (tracker st)"
  shows "table_ok (tracker st') \<and> (\<exists>new. events st' = events st @ new
    \<and> mset (answered new) + mset (held_ids (tracker st')) + mset lost = mset ids + mset (held_ids (tracker st)))"
  using assms
proof (induction rule: serves.induct)
  case (message ids lost st1 msg st2)
  then obtain new where N: "table_ok (tracker st1)" "events st1 = events st @ new"
    "mset (answered new) + mset (held_ids (tracker st1)) + mset lost = mset ids + mset (held_ids (tracker st))"
    by blast
  note B = cb_loop_balance [OF message(3,2) N(1)]
  then obtain new2 where M: "events st2 = events st1 @ new2"
    "mset (answered new2) + mset (held_ids (tracker st2)) + mset (message_lost profiles msg st1)
      = add_mset (message_id msg) (mset (held_ids (tracker st1)))" by blast
  have "mset (answered (new @ new2)) + mset (held_ids (tracker st2)) + mset (lost @ message_lost profiles msg st1)
      = mset (answered new) + mset lost
        + (mset (answered new2) + mset (held_ids (tracker st2)) + mset (message_lost profiles msg st1))"
    by (simp add: ac_simps)
  also have "\<dots> = add_mset (message_id msg) (mset (answered new) + mset (held_ids (tracker st1)) + mset lost)"
    unfolding M(2) by (simp add: ac_simps)
  also have "\<dots> = mset (ids @ [message_id msg]) + mset (held_ids (tracker st))"
    unfolding N(3) by simp
  finally show ?case using B(1) N(2) M(1) by (intro conjI exI [of _ "new @ new2"]) simp_all
next
  case (cleared ids lost st1 now st2)
  then obtain new where N: "table_ok (tracker st1)" "events st1 = events st @ new"
    "mset (answered new) + mset (held_ids (tracker st1)) + mset lost = mset ids + mset (held_ids (tracker st))"
    by blast
  note B = sweep_balance [OF cleared(2) N(1)]
  then obtain new2 where M: "events st2 = events st1 @ new2"
    "mset (answered new2) + mset (held_ids (tracker st2)) = mset (held_ids (tracker st1))" by blast
  have "mset (answered (new @ new2)) + mset (held_ids (tracker st2)) + mset lost
      = mset (answered new) + mset lost + (mset (answered new2) + mset (held_ids (tracker st2)))"
    by (simp add: ac_simps)
  also have "\<dots> = mset ids + mset (held_ids (tracker st))"
    unfolding M(2) using N(3) by (simp add: ac_simps)
  finally show ?case using B(1) N(2) M(1) by (intro conjI exI [of _ "new @ new2"]) simp_all
qed simp

lemma empty_loop_ok [simp]:
  "table_ok (tracker empty_loop)" "held_ids (tracker empty_loop) = []" "events empty_loop = []"
  by (simp_all add: empty_loop_def table_ok_def)

text \<open>From an empty table, everything received is answered, held or lost.\<close>

lemma served_balance:
  assumes "serves env ret profiles empty_loop ids lost st"
  shows "table_ok (tracker st)"
    "mset (answered (events st)) + mset (held_ids (tracker st)) + mset lost = mset ids"
  using serves_balance [OF assms] by auto

section \<open>The program as a run\<close>

fun datagram_messages :: "netlink list \<Rightarrow> nfq_message list" where
  "datagram_messages [] = []"
| "datagram_messages (Invalid_message # msgs) = []"
| "datagram_messages (Queue_message msg # msgs) = msg # datagram_messages msgs"

text \<open>The messages of all datagrams, in order.\<close>

definition received_messages :: "receive list \<Rightarrow> nfq_message list" where
  "received_messages turns =
     concat (map (\<lambda>turn. case turn of Datagram msgs now sweep_time \<Rightarrow> datagram_messages msgs | _ \<Rightarrow> []) turns)"

lemma received_simps [simp]:
  "received_messages [] = []"
  "received_messages (Interrupted # turns) = received_messages turns"
  "received_messages (Receive_failed # turns) = received_messages turns"
  "received_messages (Datagram msgs now sweep_time # turns) = datagram_messages msgs @ received_messages turns"
  by (simp_all add: received_messages_def)

text \<open>A run over a prefix of the given messages.\<close>

definition serves_some ::
  "environment \<Rightarrow> (nat \<Rightarrow> int) \<Rightarrow> profiles \<Rightarrow> loop_state \<Rightarrow> u32 list \<Rightarrow> loop_state \<Rightarrow> bool" where
  "serves_some env ret profiles st all_ids st' \<longleftrightarrow>
     (\<exists>ids rest lost. all_ids = ids @ rest \<and> serves env ret profiles st ids lost st')"

lemma serves_some_idle [simp, intro]: "serves_some env ret profiles st ids st"
  unfolding serves_some_def by (blast intro: serves.idle)

lemma serves_all:
  "serves env ret profiles st ids lost st1 \<Longrightarrow> serves_some env ret profiles st1 more_ids st2 \<Longrightarrow>
   serves_some env ret profiles st (ids @ more_ids) st2"
  unfolding serves_some_def using serves_then by (metis append_assoc)

lemma serves_one:
  "cb_loop env ret profiles msg st = Inr (MNL_CB_OK, st') \<Longrightarrow> valid_message msg \<Longrightarrow>
   \<exists>lost. serves env ret profiles st [message_id msg] lost st'"
  using serves.message [OF serves.idle, of msg env ret profiles st st'] by auto

lemma serves_sweep: "sweep now st = Inr st' \<Longrightarrow> serves env ret profiles st [] [] st'"
  by (rule serves.cleared [OF serves.idle])

lemma cb_error_idle:
  "cb_loop env ret profiles msg st = Inr (MNL_CB_ERROR, st') \<Longrightarrow> st' = st"
  by (auto simp: cb_loop_def Let_def res split: if_splits option.splits)

lemma mnl_cb_run_serves:
  assumes "mnl_cb_run env ret profiles msgs st = Inr (r, st')" "list_all valid_message (datagram_messages msgs)"
  shows "(r = MNL_CB_OK \<longrightarrow> (\<exists>lost. serves env ret profiles st (map message_id (datagram_messages msgs)) lost st'))
    \<and> (\<forall>more_ids. serves_some env ret profiles st (map message_id (datagram_messages msgs) @ more_ids) st')"
  using assms
proof (induction msgs arbitrary: st)
  case (Cons m msgs)
  show ?case
  proof (cases m)
    case Invalid_message
    then show ?thesis using Cons.prems by auto
  next
    case (Queue_message msg)
    then obtain r1 st1 where s: "cb_loop env ret profiles msg st = Inr (r1, st1)"
      using Cons.prems(1) by (auto simp: res)
    show ?thesis
    proof (cases r1)
      case MNL_CB_ERROR
      then show ?thesis using Cons.prems s Queue_message cb_error_idle [of env ret profiles msg st st1] by auto
    next
      case MNL_CB_OK
      then obtain lost1 where L: "serves env ret profiles st [message_id msg] lost1 st1"
        using serves_one [of env ret profiles msg st st1] s Cons.prems Queue_message by auto
      have run: "mnl_cb_run env ret profiles msgs st1 = Inr (r, st')"
        using Cons.prems Queue_message s MNL_CB_OK by simp
      have v: "list_all valid_message (datagram_messages msgs)" using Cons.prems(2) Queue_message by simp
      show ?thesis
        using Cons.IH [OF run v] Queue_message serves_then [OF _ L] serves_all [OF L] by fastforce
    qed
  qed
qed (auto intro: serves.idle)

lemma receive_loop_serves:
  assumes "receive_loop env ret profiles turns last_check st = Inr (code, st')"
    and "list_all valid_message (received_messages turns)"
  shows "serves_some env ret profiles st (map message_id (received_messages turns)) st'"
  using assms
proof (induction turns arbitrary: last_check st)
  case (Cons turn turns)
  show ?case
  proof (cases turn)
    case (Datagram msgs now sweep_time)
    let ?ids = "map message_id (datagram_messages msgs)"
    obtain r st1 where r: "mnl_cb_run env ret profiles msgs st = Inr (r, st1)"
      using Cons.prems(1) Datagram by (auto simp: res)
    have v: "list_all valid_message (datagram_messages msgs)" "list_all valid_message (received_messages turns)"
      using Cons.prems(2) Datagram by simp_all
    note R = mnl_cb_run_serves [OF r v(1)]
    show ?thesis
    proof (cases r)
      case MNL_CB_ERROR
      then show ?thesis using R Cons.prems(1) r Datagram by simp
    next
      case MNL_CB_OK
      then obtain lost where L: "serves env ret profiles st ?ids lost st1" using R by blast
      show ?thesis
      proof (cases "CHECK_DEAD_CONNECTIONS_INTERVAL_SECS \<le> elapsed_seconds now last_check")
        case True
        then obtain st2 where s: "sweep sweep_time st1 = Inr st2"
          and rest: "receive_loop env ret profiles turns now st2 = Inr (code, st')"
          using Cons.prems(1) r MNL_CB_OK Datagram by (auto simp: res)
        show ?thesis
          using serves_all [OF serves_then [OF serves_sweep [OF s] L] Cons.IH [OF rest v(2)]] Datagram by simp
      next
        case False
        then have rest: "receive_loop env ret profiles turns last_check st1 = Inr (code, st')"
          using Cons.prems(1) r MNL_CB_OK Datagram by simp
        show ?thesis using serves_all [OF L Cons.IH [OF rest v(2)]] Datagram by simp
      qed
    qed
  qed (use Cons.prems in auto)
qed auto

lemma main_cases:
  assumes "main env lib sh os = Inr (code, commands, st)"
  obtains path marked profiles prepared where "os_config_arg os = Some path"
    "ensure_rule sh (''-A '' @ mark_rule MARK) (''iptables -A '' @ mark_rule MARK) [] = Inr marked"
    "build_profiles lib sh path (unat (os_queue_arg os 1489)) marked = Inr (profiles, prepared)"
    "st = empty_loop \<or> (\<exists>code. receive_loop env (os_verdict_ret os) profiles (os_turns os) (os_start os)
      empty_loop = Inr (code, st))"
    "code = EXIT_FAILURE \<and> commands = prepared
     \<or> code = EXIT_SUCCESS \<and> clean_up sh (unat (os_queue_arg os 1489)) profiles prepared = Inr commands"
proof -
  obtain path marked profiles prepared where p: "os_config_arg os = Some path"
    and m: "ensure_rule sh (''-A '' @ mark_rule MARK) (''iptables -A '' @ mark_rule MARK) [] = Inr marked"
    and b: "build_profiles lib sh path (unat (os_queue_arg os 1489)) marked = Inr (profiles, prepared)"
    and rest: "(if \<not> setup_ok os then Inr (EXIT_FAILURE, prepared, empty_loop)
       else
         and_then (receive_loop env (os_verdict_ret os) profiles (os_turns os) (os_start os) empty_loop)
           (\<lambda>(code, st).
         case code of
           EXIT_FAILURE \<Rightarrow> Inr (EXIT_FAILURE, prepared, st)
         | EXIT_SUCCESS \<Rightarrow>
             and_then (clean_up sh (unat (os_queue_arg os 1489)) profiles prepared) (\<lambda>commands.
             Inr (EXIT_SUCCESS, commands, st)))) = Inr (code, commands, st)"
    using assms by (auto simp: main_def Let_def and_then_Inr_iff split: option.splits if_split_asm)
  show ?thesis
  proof (cases "setup_ok os")
    case False
    then show ?thesis using that [OF p m b] rest by simp
  next
    case True
    then obtain code1 st1 where r: "receive_loop env (os_verdict_ret os) profiles (os_turns os) (os_start os)
        empty_loop = Inr (code1, st1)"
      using rest by (auto simp: and_then_Inr_iff)
    then show ?thesis using that [OF p m b] rest True by (cases code1) (auto simp: and_then_Inr_iff)
  qed
qed

section \<open>Properties\<close>

text \<open>C3. Every packet the queue delivers is accounted for: after any sequence of messages and
  clean-ups, each received id has been answered, is held by a connection, or is one of the lost
  ones, and it is in one place only; so no id is ever answered twice.\<close>

theorem every_id_accounted:
  assumes "serves env verdict_ret profiles empty_loop ids lost st"
  shows "mset (answered (events st)) + mset (held_ids (tracker st)) + mset lost = mset ids
    \<and> (distinct ids \<longrightarrow> distinct (answered (events st) @ held_ids (tracker st) @ lost))"
proof -
  have "mset (answered (events st) @ held_ids (tracker st) @ lost) = mset ids"
    using served_balance(2) [OF assms] by (simp add: add.assoc)
  then have "distinct ids \<longrightarrow> distinct (answered (events st) @ held_ids (tracker st) @ lost)"
    by (metis mset_eq_imp_distinct_iff)
  then show ?thesis using served_balance(2) [OF assms] by blast
qed

text \<open>C14. A lost id stays lost: a retransmission of a held packet, and a packet that was held when the
  classifier gave up, never get a verdict, whatever messages and clean-ups follow.\<close>

theorem lost_never_answered:
  assumes "serves env verdict_ret profiles empty_loop ids lost st" "i \<in> set lost"
    and "serves env verdict_ret profiles st later_ids later_lost st'" "distinct (ids @ later_ids)"
  shows "i \<notin> set (answered (events st'))"
proof -
  have "mset (answered (events st') @ held_ids (tracker st') @ lost @ later_lost) = mset (ids @ later_ids)"
    using served_balance(2) [OF serves_then [OF assms(3,1)]] by (simp add: ac_simps)
  then have "distinct (answered (events st') @ held_ids (tracker st') @ lost @ later_lost)"
    using assms(4) by (metis mset_eq_imp_distinct_iff)
  then show ?thesis using assms(2) by auto
qed

text \<open>C9. Nothing is held for ever: once every connection has been silent for the longest timeout, the
  next clean-up succeeds, empties the table and accepts every packet still held, so that every
  received id that was not lost has been answered.\<close>

theorem sweep_answers_all:
  assumes "serves env verdict_ret profiles empty_loop ids lost st"
    and "list_all (\<lambda>(k, conn). ESTAB_TCP_CONNECTION_TIMEOUT_SECS \<le> elapsed_seconds now (last_packet_time conn))
      (tracker st)"
  shows "\<exists>st'. sweep now st = Inr st' \<and> tracker st' = [] \<and> mset (answered (events st')) + mset lost = mset ids"
proof -
  have "timeout_of conn \<le> ESTAB_TCP_CONNECTION_TIMEOUT_SECS" for conn
  proof -
    have "timeout_for_tcp_state s \<le> ESTAB_TCP_CONNECTION_TIMEOUT_SECS" for s
      by (cases s) (simp_all add: DEFAULT_CONNECTION_TIMEOUT_SECS_def SYN_TCP_CONNECTION_TIMEOUT_SECS_def
          ESTAB_TCP_CONNECTION_TIMEOUT_SECS_def FIN_TCP_CONNECTION_TIMEOUT_SECS_def CLOSE_TCP_CONNECTION_TIMEOUT_SECS_def)
    then show ?thesis
      by (auto simp: timeout_of_def DEFAULT_CONNECTION_TIMEOUT_SECS_def ESTAB_TCP_CONNECTION_TIMEOUT_SECS_def
          split: l4_state.splits)
  qed
  then have all: "\<forall>(k, conn)\<in>set (tracker st). expired now conn"
    using assms(2) by (fastforce simp: expired_def list_all_iff intro: order_trans)
  have "filter (\<lambda>(k, conn). \<not> expired now conn) (tracker st) = []"
    "filter (\<lambda>(k, conn). expired now conn) (tracker st) = tracker st"
    using all by (auto simp: filter_empty_conv filter_id_conv)
  then have run: "sweep now st = Inr (st\<lparr>tracker := [], events := events st @ map (\<lambda>i. Verdict i NF_ACCEPT)
      (held_ids (tracker st))\<rparr>)"
    using sweep_run [OF served_balance(1) [OF assms(1)], of now] by simp
  then show ?thesis using served_balance(2) [OF assms(1)] by (simp add: add.assoc)
qed

text \<open>C1. Over the whole program: if the kernel gives every packet its own id, the program never
  answers an id it has not received and never answers one twice, whether it ends well or with a
  failure. (A run that an assertion or an exception stops is a fault of \<open>main\<close>, not an end.)\<close>

theorem main_answers_at_most_once:
  assumes "main env lib sh os = Inr (code, commands, st)"
    and "list_all valid_message (received_messages (os_turns os))"
    and "distinct (map message_id (received_messages (os_turns os)))"
  shows "distinct (answered (events st)) \<and> set (answered (events st)) \<subseteq> message_id ` set (received_messages (os_turns os))"
proof -
  have "st = empty_loop \<or> (\<exists>profiles code. receive_loop env (os_verdict_ret os) profiles (os_turns os) (os_start os)
      empty_loop = Inr (code, st))"
    using assms(1) by (rule main_cases) blast
  then show ?thesis
  proof (elim disjE exE)
    fix profiles code
    assume "receive_loop env (os_verdict_ret os) profiles (os_turns os) (os_start os) empty_loop = Inr (code, st)"
    then obtain ids rest lost where ids: "map message_id (received_messages (os_turns os)) = ids @ rest"
      and run: "serves env (os_verdict_ret os) profiles empty_loop ids lost st"
      using receive_loop_serves [OF _ assms(2)] unfolding serves_some_def by metis
    have "mset (answered (events st) @ held_ids (tracker st) @ lost) = mset ids"
      using served_balance(2) [OF run] by (simp add: add.assoc)
    moreover have "distinct ids" using assms(3) by (simp add: ids)
    ultimately have "distinct (answered (events st) @ held_ids (tracker st) @ lost)"
      "set (answered (events st) @ held_ids (tracker st) @ lost) = set ids"
      by (metis mset_eq_imp_distinct_iff, metis mset_eq_setD)
    then have "distinct (answered (events st))" "set (answered (events st)) \<subseteq> set ids" by auto
    moreover have "set ids \<subseteq> message_id ` set (received_messages (os_turns os))"
      using arg_cong [OF ids, of set] by auto
    ultimately show ?thesis by blast
  qed simp
qed

definition removal :: "nat \<Rightarrow> (u16 \<times> int) \<times> profile \<Rightarrow> string" where
  "removal q = (\<lambda>((port, proto), prof).
     profile_remove (if proto = uint IPPROTO_TCP then ''tcp'' else ''udp'') (uint port) q)"

lemma clean_up_commands:
  assumes "clean_up sh q profiles commands = Inr commands'"
  shows "commands' = commands @ map (removal q) profiles @ [''iptables -D '' @ mark_rule MARK]"
proof -
  have step: "cs' = cs @ [removal q x]" if "remove_profile_rule sh q x cs = Inr cs'" for x cs cs'
    using that
    by (auto simp: remove_profile_rule_def removal_def protocol_text_def rule_remove_def res split: if_splits prod.splits)
  have "cs' = cs @ map (removal q) profiles" if "fold_r (remove_profile_rule sh q) profiles cs = Inr cs'" for cs cs'
    using that
  proof (induction profiles arbitrary: cs)
    case (Cons x xs)
    then obtain cs1 where "remove_profile_rule sh q x cs = Inr cs1" "fold_r (remove_profile_rule sh q) xs cs1 = Inr cs'"
      by (auto simp: res)
    then show ?case using Cons.IH step by fastforce
  qed simp
  then show ?thesis using assms by (auto simp: clean_up_def rule_remove_def res split: if_splits)
qed

text \<open>C21. The program that ends well has taken back the rules of all its profiles and the rule for the
  mark, after what the configuration set up; the program that ends with a failure leaves every rule
  it set up in place.\<close>

theorem main_rules:
  assumes "main env lib sh os = Inr (code, commands, st)"
  shows "\<exists>path profiles marked prepared. os_config_arg os = Some path
    \<and> (marked = [] \<or> marked = [''iptables -A '' @ mark_rule MARK])
    \<and> build_profiles lib sh path (unat (os_queue_arg os 1489)) marked = Inr (profiles, prepared)
    \<and> commands = prepared @ (case code of
        EXIT_SUCCESS \<Rightarrow> map (removal (unat (os_queue_arg os 1489))) profiles @ [''iptables -D '' @ mark_rule MARK]
      | EXIT_FAILURE \<Rightarrow> [])"
proof -
  let ?q = "unat (os_queue_arg os 1489)"
  obtain path marked profiles prepared where p: "os_config_arg os = Some path"
    and m: "ensure_rule sh (''-A '' @ mark_rule MARK) (''iptables -A '' @ mark_rule MARK) [] = Inr marked"
    and b: "build_profiles lib sh path ?q marked = Inr (profiles, prepared)"
    and c: "code = EXIT_FAILURE \<and> commands = prepared \<or> code = EXIT_SUCCESS \<and> clean_up sh ?q profiles prepared = Inr commands"
    using assms by (rule main_cases)
  have "marked = [] \<or> marked = [''iptables -A '' @ mark_rule MARK]" using ensure_rule_commands [OF m] by simp
  moreover have "commands = prepared @ (case code of
      EXIT_SUCCESS \<Rightarrow> map (removal ?q) profiles @ [''iptables -D '' @ mark_rule MARK] | EXIT_FAILURE \<Rightarrow> [])"
    using c clean_up_commands [of sh ?q profiles prepared commands] by auto
  ultimately show ?thesis using p b by blast
qed

text \<open>Two packets with the beginning of a request and the same sequence number, and the states they
  lead to: the first is held, the second is lost.\<close>

definition partial_request :: "byte list" where
  "partial_request = take 40 sample_bytes @ ascii ''GET / HTTP/1.1'' @ crlf"

definition queue_message :: "u32 \<Rightarrow> nfq_message" where
  "queue_message i = \<lparr>parse_ret = 0, packet_hdr = Some (Some (htonl i)), packet_data = Some partial_request, arrival = 0\<rparr>"

definition sample_turn :: "nfq_message \<Rightarrow> loop_state \<Rightarrow> loop_state" where
  "sample_turn msg st =
     (case cb_loop sample_env (\<lambda>_. 1) [((443, 6), sample_profile)] msg st of Inr (_, st') \<Rightarrow> st' | Inl _ \<Rightarrow> st)"

lemma sample_first:
  "cb_loop sample_env (\<lambda>_. 1) [((443, 6), sample_profile)] (queue_message 7) empty_loop
     = Inr (MNL_CB_OK, sample_turn (queue_message 7) empty_loop)"
  by code_simp

lemma sample_second:
  "cb_loop sample_env (\<lambda>_. 1) [((443, 6), sample_profile)] (queue_message 8) (sample_turn (queue_message 7) empty_loop)
     = Inr (MNL_CB_OK, sample_turn (queue_message 8) (sample_turn (queue_message 7) empty_loop))"
  "message_lost [((443, 6), sample_profile)] (queue_message 7) empty_loop = []"
  "message_lost [((443, 6), sample_profile)] (queue_message 8) (sample_turn (queue_message 7) empty_loop) = [8]"
  "valid_message (queue_message 7)" "valid_message (queue_message 8)"
  "message_id (queue_message 7) = 7" "message_id (queue_message 8) = 8"
  by code_simp+

lemma sample_serves:
  "serves sample_env (\<lambda>_. 1) [((443, 6), sample_profile)] empty_loop [7] []
     (sample_turn (queue_message 7) empty_loop)"
  "serves sample_env (\<lambda>_. 1) [((443, 6), sample_profile)] empty_loop [7, 8] [8]
     (sample_turn (queue_message 8) (sample_turn (queue_message 7) empty_loop))"
proof -
  show first: "serves sample_env (\<lambda>_. 1) [((443, 6), sample_profile)] empty_loop [7] []
     (sample_turn (queue_message 7) empty_loop)"
    using serves.message [OF serves.idle sample_second(4) sample_first] by (simp add: sample_second)
  show "serves sample_env (\<lambda>_. 1) [((443, 6), sample_profile)] empty_loop [7, 8] [8]
     (sample_turn (queue_message 8) (sample_turn (queue_message 7) empty_loop))"
    using serves.message [OF first sample_second(5,1)] by (simp add: sample_second)
qed

lemma every_id_accounted_witness:
  "mset (held_ids (tracker (sample_turn (queue_message 7) empty_loop))) = {#7#}"
proof -
  have "events (sample_turn (queue_message 7) empty_loop) = []" by code_simp
  then show ?thesis using every_id_accounted [OF sample_serves(1)] by simp
qed

lemma lost_never_answered_witness:
  "8 \<notin> set (answered (events (sample_turn (queue_message 8) (sample_turn (queue_message 7) empty_loop))))"
  by (rule lost_never_answered [OF sample_serves(2) _ serves.idle]) simp_all

lemma sweep_answers_all_witness:
  "\<exists>st'. sweep 6000000000000 (sample_turn (queue_message 7) empty_loop) = Inr st' \<and> tracker st' = []
     \<and> mset (answered (events st')) = {#7#}"
proof -
  have "list_all (\<lambda>(k, conn). ESTAB_TCP_CONNECTION_TIMEOUT_SECS \<le> elapsed_seconds 6000000000000 (last_packet_time conn))
      (tracker (sample_turn (queue_message 7) empty_loop))"
    by code_simp
  then show ?thesis using sweep_answers_all [OF sample_serves(1)] by simp
qed

definition sample_os :: os where
  "sample_os = \<lparr>os_sigaction = 0, os_config_arg = Some ''c'', os_queue_arg = \<lambda>n. n, os_exists = \<lambda>_. True,
     os_raw_socket = 3, os_hdrincl = 0, os_so_mark = 0, os_mnl_open = True, os_mnl_bind = 0, os_bind_sent = 20,
     os_params_sent = 20, os_start = 0, os_turns = [Datagram [Queue_message (queue_message 7)] 1 1],
     os_verdict_ret = \<lambda>_. 1\<rparr>"

lemma sample_main:
  "main sample_env sample_lib sample_shell sample_os =
     Inr (EXIT_SUCCESS, [''iptables -A '' @ mark_rule MARK, profile_add ''tcp'' 443 1489,
       profile_remove ''tcp'' 443 1489, ''iptables -D '' @ mark_rule MARK],
       sample_turn (queue_message 7) empty_loop)"
proof -
  let ?st = "sample_turn (queue_message 7) empty_loop" and ?profiles = "[((443 :: u16, 6 :: int), sample_profile)]"
  have mark: "ensure_rule sample_shell (''-A '' @ mark_rule MARK) (''iptables -A '' @ mark_rule MARK) []
      = Inr [''iptables -A '' @ mark_rule MARK]"
    by (simp add: ensure_rule_def rule_exists_def rule_add_def sample_shell_def find_sub_def)
  have loop: "receive_loop sample_env (\<lambda>_. 1) ?profiles [Datagram [Queue_message (queue_message 7)] 1 1] 0 empty_loop
      = Inr (EXIT_SUCCESS, ?st)"
    by (simp add: sample_first CHECK_DEAD_CONNECTIONS_INTERVAL_SECS_def elapsed_seconds_def)
  have clean: "clean_up sample_shell 1489 ?profiles commands =
      Inr (commands @ [profile_remove ''tcp'' 443 1489, ''iptables -D '' @ mark_rule MARK])" for commands
    by (simp add: clean_up_def remove_profile_rule_def protocol_text_def IPPROTO_TCP_def rule_remove_def sample_shell_def)
  show ?thesis
    by (simp add: main_def sample_os_def setup_ok_def mark [simplified] sample_build loop clean [simplified]
        del: receive_loop.simps mnl_cb_run.simps)
qed

lemma main_answers_at_most_once_witness:
  "distinct (answered (events (sample_turn (queue_message 7) empty_loop)))
   \<and> set (answered (events (sample_turn (queue_message 7) empty_loop))) \<subseteq> {7}"
proof -
  have "received_messages (os_turns sample_os) = [queue_message 7]" by (simp add: sample_os_def)
  then show ?thesis
    using main_answers_at_most_once [OF sample_main] by (simp add: sample_second)
qed

lemma main_rules_witness:
  "\<exists>profiles prepared. build_profiles sample_lib sample_shell ''c'' 1489 [''iptables -A '' @ mark_rule MARK] = Inr (profiles, prepared)
     \<and> [''iptables -A '' @ mark_rule MARK, profile_add ''tcp'' 443 1489, profile_remove ''tcp'' 443 1489,
          ''iptables -D '' @ mark_rule MARK]
       = prepared @ map (removal 1489) profiles @ [''iptables -D '' @ mark_rule MARK]"
  using main_rules [OF sample_main] sample_build by (auto simp: sample_os_def)

end
