(* ===== verification/Wire.thy ===== *)
theory Wire
  imports Stream_Safety Packet_Loop
begin

text \<open>
  What reaches the network. An accepted packet goes out as it was queued, whatever the modifiers
  did to the copy in memory; a raw packet goes out as it is. The promise needed from a pass is that
  a packet still marked ACCEPT still carries the data of the queued packet with its id; the passes
  of splitting and reordering profiles keep it, so the bytes on the wire carry the sender's stream.
\<close>

section \<open>The wire\<close>

fun wire_event :: "packet list \<Rightarrow> event \<Rightarrow> byte list list" where
  "wire_event held (Verdict i NF_ACCEPT) = map packet_bytes (filter (\<lambda>p. action_packet_id p = i) held)"
| "wire_event held (Verdict i NF_DROP) = []"
| "wire_event held (Raw_send daddr bs) = [bs]"

definition wire :: "packet list \<Rightarrow> event list \<Rightarrow> byte list list" where
  "wire held evs = concat (map (wire_event held) evs)"

section \<open>Accepted packets keep their data\<close>

definition accept_from :: "packet list \<Rightarrow> packet \<Rightarrow> bool" where
  "accept_from ps q \<longleftrightarrow> (action_action q = ACCEPT \<longrightarrow>
     (\<exists>p\<in>set ps. action_action p = ACCEPT \<and> action_packet_id p = action_packet_id q \<and> seg_of p = seg_of q))"

definition real_packet :: "packet \<Rightarrow> bool" where
  "real_packet p \<longleftrightarrow> \<not> is_fake_blob p \<and> action_action p \<noteq> DROP"

locale accept_keeper =
  fixes run :: "packet list \<Rightarrow> packet list result"
  assumes run_wf_packets: "run ps = Inr qs \<Longrightarrow> list_all wf_packet ps \<Longrightarrow> list_all wf_packet qs"
    and run_real: "run ps = Inr qs \<Longrightarrow> list_all wf_packet ps \<Longrightarrow> list_all real_packet ps \<Longrightarrow> list_all real_packet qs"
    and run_accepts: "run ps = Inr qs \<Longrightarrow> list_all wf_packet ps \<Longrightarrow> list_all (accept_from ps) qs"
begin

lemma run_accepted_source:
  assumes "run ps = Inr qs" "list_all wf_packet ps" "q \<in> set qs" "action_action q = ACCEPT"
  shows "\<exists>p\<in>set ps. action_packet_id p = action_packet_id q \<and> seg_of p = seg_of q"
  using run_accepts [OF assms(1,2)] assms(3,4) by (auto simp: list_all_iff accept_from_def)

end

lemma accept_from_self: "q \<in> set ps \<Longrightarrow> accept_from ps q"
  by (auto simp: accept_from_def)

lemma accept_from_all: "list_all (accept_from ps) ps"
  by (simp add: list_all_iff accept_from_self)

lemma accept_from_trans:
  assumes "list_all (accept_from ps) qs" "list_all (accept_from qs) rs"
  shows "list_all (accept_from ps) rs"
  using assms unfolding list_all_iff accept_from_def by (metis (no_types, lifting))

named_theorems accept_keeping "passes under which accepted packets keep their data"

lemma accepts_skip [accept_keeping]: "accept_keeper (\<lambda>ps. Inr ps)"
  by unfold_locales (auto simp: accept_from_all)

lemma accepts_then [accept_keeping]:
  assumes "accept_keeper f" "accept_keeper g"
  shows "accept_keeper (\<lambda>ps. and_then (f ps) g)"
proof
  fix ps rs
  assume "and_then (f ps) g = Inr rs" and wf: "list_all wf_packet ps"
  then obtain qs where f: "f ps = Inr qs" and g: "g qs = Inr rs" by (auto simp: res)
  note F = accept_keeper.run_wf_packets [OF assms(1) f wf]
  show "list_all wf_packet rs" using assms(2) g F by (rule accept_keeper.run_wf_packets)
  show "list_all real_packet rs" if "list_all real_packet ps"
    using accept_keeper.run_real [OF assms(1) f wf that] by (rule accept_keeper.run_real [OF assms(2) g F])
  show "list_all (accept_from ps) rs"
    using accept_keeper.run_accepts [OF assms(1) f wf] accept_keeper.run_accepts [OF assms(2) g F]
    by (rule accept_from_trans)
qed

lemma accepts_if [accept_keeping]:
  "(b \<Longrightarrow> accept_keeper f) \<Longrightarrow> (\<not> b \<Longrightarrow> accept_keeper g)
   \<Longrightarrow> accept_keeper (\<lambda>ps. if b then f ps else g ps)"
  by (cases b) simp_all

lemma accepts_fold [accept_keeping]:
  assumes "\<And>x. x \<in> set xs \<Longrightarrow> accept_keeper (step x)"
  shows "accept_keeper (fold_r step xs)"
  using assms
proof (induction xs)
  case Nil
  have "fold_r step [] = (\<lambda>ps. Inr ps)" by (simp add: fun_eq_iff)
  then show ?case by (simp add: accepts_skip)
next
  case (Cons x xs)
  have "fold_r step (x # xs) = (\<lambda>ps. and_then (step x ps) (fold_r step xs))" by (simp add: fun_eq_iff)
  with Cons show ?case by (simp add: accepts_then)
qed

text \<open>A pass over headers that also keeps the data.\<close>

lemma accepts_pointwise:
  assumes "header_pass f" "\<And>ps qs. f ps = Inr qs \<Longrightarrow> list_all wf_packet ps \<Longrightarrow> list_all2 same_data ps qs"
  shows "accept_keeper f"
proof
  fix ps qs
  assume run: "f ps = Inr qs" and wf: "list_all wf_packet ps"
  have R: "list_all2 same_role ps qs" using assms(1) run wf by (rule header_pass.run_pointwise)
  have D: "list_all2 same_data ps qs" using run wf by (rule assms(2))
  show "list_all wf_packet qs" using R by (rule same_role_wf)
  show "list_all real_packet qs" if "list_all real_packet ps"
    using R that by (induction rule: list_all2_induct) (auto simp: same_role_def real_packet_def)
  show "list_all (accept_from ps) qs"
    unfolding list_all_length
  proof (intro allI impI)
    fix n
    assume n: "n < length qs"
    then have "same_role (ps ! n) (qs ! n)" "same_data (ps ! n) (qs ! n)" "ps ! n \<in> set ps"
      using R D by (auto simp: list_all2_conv_all_nth)
    then show "accept_from ps (qs ! n)" by (auto simp: same_role_def same_data_def accept_from_def)
  qed
qed

interpretation ttl_accepts: accept_keeper "ttl_pass args P" for args :: "'a modifier_args_scheme" and P
  by (rule accepts_pointwise [OF shared_ttl.header_pass_axioms]) (rule ttl_same_data)

interpretation cksum_accepts: accept_keeper "cksum_pass args conn stale P rnd"
  for args :: "'a modifier_args_scheme" and conn stale P rnd
  by (rule accepts_pointwise [OF shared_cksum.header_pass_axioms]) (rule cksum_same_data)

interpretation split_accepts: accept_keeper "split_pass marks proto pos" for marks proto pos
proof
  fix ps qs
  assume run: "split_pass marks proto pos ps = Inr qs" and wf: "list_all wf_packet ps"
  show "list_all wf_packet qs" using run wf by (rule splitting.run_wf)
  obtain r where "split ps pos marks proto = Inr (r, qs)" using run by (auto simp: split_pass_def res)
  note C = split_cases [OF wf this]
  have in_parts: "q \<in> set ps \<or> (\<exists>p\<in>set ps. \<exists>k. q = cut_first p k \<or> q = cut_second p k)" if "q \<in> set qs" for q
    using C that by (auto dest: in_set_takeD in_set_dropD)
  have parts: "action_action (cut_first p k) \<noteq> ACCEPT" "action_action (cut_second p k) \<noteq> ACCEPT"
    "real_packet p \<Longrightarrow> real_packet (cut_first p k)" "real_packet p \<Longrightarrow> real_packet (cut_second p k)"
    if "p \<in> set ps" for p k
    using cut_fields [of p k] wf that by (auto simp: list_all_iff sent_action_def real_packet_def)
  show "list_all real_packet qs" if "list_all real_packet ps"
    using in_parts parts that by (fastforce simp: list_all_iff)
  show "list_all (accept_from ps) qs"
    using in_parts parts by (fastforce simp: list_all_iff accept_from_def)
qed

interpretation splits_accepts: accept_keeper "split_passes args ctx"
  for args :: "'a modifier_args_scheme" and ctx
  unfolding split_passes_def by (intro accepts_fold split_accepts.accept_keeper_axioms)

interpretation reversal_accepts: accept_keeper "\<lambda>ps. Inr (reverse_view original ps)"
proof
  fix ps qs
  assume "(Inr (reverse_view original ps) :: packet list result) = Inr qs" and wf: "list_all wf_packet ps"
  then have "set qs = set ps" using mset_reverse_view [of original ps] by (metis Inr_inject set_mset_mset)
  then show "list_all wf_packet qs" "list_all (accept_from ps) qs"
    "list_all real_packet ps \<Longrightarrow> list_all real_packet qs"
    using wf by (auto simp: list_all_iff accept_from_self)
qed

section \<open>Profiles that split and reorder\<close>

fun plain_modifier :: "i_modifier \<Rightarrow> bool" where
  "plain_modifier (Splitter_modifier args) = (fake_blob args = None \<and> no_offsets args \<and> split_seqovl args = None)"
| "plain_modifier (Disorder_modifier args) = (fake_blob args = None \<and> no_offsets args \<and> dis_seqovl args = None)"

lemma plain_harmless: "plain_modifier m \<Longrightarrow> harmless m"
  by (cases m) auto

lemma step_accepts:
  assumes "plain_modifier m"
  shows "accept_keeper (modifier_step env ctx m)"
proof -
  have s: "accept_keeper (splitter_modify env args ctx)" if "plain_modifier (Splitter_modifier args)" for args
  proof -
    from that have plain: "fake_blob args = None" "no_offsets args" "split_seqovl args = None" by simp_all
    show ?thesis
      unfolding splitter_plain_run [OF plain]
      by (intro accepts_then splits_accepts.accept_keeper_axioms ttl_accepts.accept_keeper_axioms
          cksum_accepts.accept_keeper_axioms)
  qed
  have d: "accept_keeper (disorder_modify env args ctx)" if "plain_modifier (Disorder_modifier args)" for args
  proof -
    from that have plain: "fake_blob args = None" "no_offsets args" "dis_seqovl args = None" by simp_all
    show ?thesis
      unfolding disorder_plain_run [OF plain]
      by (intro accepts_then splits_accepts.accept_keeper_axioms ttl_accepts.accept_keeper_axioms
          cksum_accepts.accept_keeper_axioms reversal_accepts.accept_keeper_axioms)
  qed
  show ?thesis
    unfolding modifier_step_def
    using assms by (cases m) (auto intro!: accept_keeping s d)
qed

section \<open>From events to the wire\<close>

lemma wire_simps [simp]:
  "wire held [] = []" "wire held (evs @ evs') = wire held evs @ wire held evs'"
  "wire held (e # evs) = wire_event held e @ wire held evs"
  by (simp_all add: wire_def)

lemma seg_of_packet_of:
  assumes "wf_packet p"
  shows "seg_of (packet_of (packet_bytes p) i) = seg_of p" "wf_packet (packet_of (packet_bytes p) i)"
  using assms
  by (simp_all add: seg_of_def seq_of_def payload_of_def packet_of_def wf_packet_def)

lemma filter_unique_id:
  assumes "distinct (map action_packet_id held)" "p \<in> set held"
  shows "filter (\<lambda>q. action_packet_id q = action_packet_id p) held = [p]"
  using assms
proof (induction held)
  case (Cons h held)
  show ?case
  proof (cases "h = p")
    case True
    then have "\<forall>q\<in>set held. action_packet_id q \<noteq> action_packet_id p"
      using Cons.prems(1) by (metis distinct.simps(2) image_eqI list.map(2) list.set_map)
    then show ?thesis using True by (simp add: filter_empty_conv)
  next
    case False
    then have "p \<in> set held" using Cons.prems(2) by simp
    then have "action_packet_id h \<noteq> action_packet_id p" using Cons.prems(1) by (metis distinct.simps(2) image_eqI list.map(2) list.set_map)
    then show ?thesis using Cons False by simp
  qed
qed simp

lemma wire_segments:
  assumes "send_packets qs = Inr evs" "list_all wf_packet qs" "list_all real_packet qs"
    and "list_all (accept_from held) qs" "list_all wf_packet held" "distinct (map action_packet_id held)"
  shows "map (\<lambda>bs. seg_of (packet_of bs 0)) (wire held evs) = map seg_of qs
    \<and> list_all (\<lambda>bs. wf_packet (packet_of bs 0)) (wire held evs)"
  using assms(1-4)
proof (induction qs arbitrary: evs)
  case Nil
  then show ?case by (simp add: send_packets_def)
next
  case (Cons q qs)
  then obtain e es where e: "packet_events q = Inr e" and es: "send_packets qs = Inr es" and evs: "evs = e @ es"
    by (auto simp: send_packets_def res)
  have IH: "map (\<lambda>bs. seg_of (packet_of bs 0)) (wire held es) = map seg_of qs
      \<and> list_all (\<lambda>bs. wf_packet (packet_of bs 0)) (wire held es)"
    using Cons.IH [OF es] Cons.prems by simp
  have q: "wf_packet q" "real_packet q" "accept_from held q" using Cons.prems by simp_all
  have "map (\<lambda>bs. seg_of (packet_of bs 0)) (wire held e) = [seg_of q]
      \<and> list_all (\<lambda>bs. wf_packet (packet_of bs 0)) (wire held e)"
  proof (cases "action_action q = ACCEPT")
    case True
    then obtain p where p: "p \<in> set held" "action_packet_id p = action_packet_id q" "seg_of p = seg_of q"
      using q(3) by (auto simp: accept_from_def)
    have "e = [Verdict (action_packet_id q) NF_ACCEPT]"
      using e True by (auto simp: packet_events_def split: if_splits)
    moreover have "filter (\<lambda>h. action_packet_id h = action_packet_id q) held = [p]"
      using filter_unique_id [OF assms(6) p(1)] p(2) by simp
    moreover have "wf_packet p" using assms(5) p(1) by (simp add: list_all_iff)
    ultimately show ?thesis using p(3) seg_of_packet_of [of p 0] by simp
  next
    case False
    then have "wire held e = [packet_bytes q]"
      using e q(2) by (auto simp: packet_events_def raw_events_def real_packet_def res split: packet_action.splits)
    then show ?thesis using seg_of_packet_of [OF q(1)] by simp
  qed
  then show ?case using IH evs by simp
qed

section \<open>Properties\<close>

text \<open>C2. End to end: a profile that splits, reorders, sets the time to live or spoils checksums of
  real packets sends, as raw packets and as packets it lets pass, bytes whose TCP segments carry
  exactly the stream of the packets it held.\<close>

theorem wire_carries_stream:
  assumes "modifier_modify env m conn held = Inr qs" "send_packets qs = Inr evs"
    and "list_all plain_modifier (modifiers m)" "list_all (held_ok IPPROTO_TCP) held"
    and "distinct (map action_packet_id held)" "carries base S held"
  shows "concat_view (\<lambda>_. True) (map (\<lambda>bs. packet_of bs 0) (wire held evs)) = concat_view (\<lambda>_. True) held"
proof -
  have wf: "list_all wf_packet held" and real: "list_all real_packet held"
    and orig: "filter original held = held"
    using assms(4) by (auto simp: held_ok_def real_packet_def original_def list_all_iff filter_id_conv)
  have A: "accept_keeper (fold_r (modifier_step env ctx) (modifiers m))" for ctx
    using assms(3) by (intro accepts_fold step_accepts) (simp add: list_all_iff)
  have K: "stream_keeper (fold_r (modifier_step env ctx) (modifiers m))" for ctx
    using assms(3) by (intro keeper_fold step_stream plain_harmless) (simp add: list_all_iff)
  note C = modifier_modify_cases [OF assms(1)]
  have Q: "list_all wf_packet qs" "list_all real_packet qs" "list_all (accept_from held) qs"
    using C accept_keeper.run_wf_packets [OF A _ wf] accept_keeper.run_real [OF A _ wf real]
      accept_keeper.run_accepts [OF A _ wf] wf real accept_from_all by blast+
  have "concat_view original qs = concat_view original held"
    using C stream_keeper.run_concat [OF K _ wf assms(6)] by blast
  moreover have "filter original qs = qs"
    using Q(2) by (auto simp: real_packet_def original_def list_all_iff filter_id_conv)
  ultimately have s: "assemble (map seg_of qs) = assemble (map seg_of held)"
    using wf Q(1) orig by (simp add: wf_concat_view list_all_iff)
  note W = wire_segments [OF assms(2) Q wf assms(5)]
  then have "concat_view (\<lambda>_. True) (map (\<lambda>bs. packet_of bs 0) (wire held evs))
      = Inr (assemble (map (\<lambda>bs. seg_of (packet_of bs 0)) (wire held evs)))"
    by (subst wf_concat_view) (auto simp: list_all_iff comp_def)
  then show ?thesis using W s wf by (simp add: wf_concat_view list_all_iff)
qed

lemma wire_carries_stream_witness:
  "\<exists>evs. send_packets (rev sample_pair) = Inr evs
     \<and> concat_view (\<lambda>_. True) (map (\<lambda>bs. packet_of bs 0) (wire sample_pair evs)) = concat_view (\<lambda>_. True) sample_pair"
proof -
  have h: "list_all (held_ok IPPROTO_TCP) sample_pair" and d: "distinct (map action_packet_id sample_pair)"
    by code_simp+
  have pl: "list_all plain_modifier (modifiers sample_modifier)"
    by (simp add: sample_modifier_def plain_disorder_def no_offsets_def)
  have c: "carries 1000 sample_stream sample_pair"
    using sample_pair_stream sample_pair_fresh by (simp add: carries_def orig_segs_def original_def [abs_def])
  have "list_all (\<lambda>p. action_action p = ACCEPT \<and> action_packet_id p \<noteq> 0) (rev sample_pair)"
    using h by (simp add: held_ok_def list_all_iff)
  then have "\<exists>evs. send_packets (rev sample_pair) = Inr evs" using accepted_events by blast
  then show ?thesis using wire_carries_stream [OF sample_modifier_run _ pl h d c] by blast
qed

end
