(* ===== verification/Receiver.thy ===== *)
theory Receiver
  imports Wire
begin

text \<open>
  What the other end of the connection makes of the packets on the wire. A packet reaches it if its
  time to live is at least the number of hops, and is taken if its checksum passes the test of
  \<open>Checksum\<close>; nothing of the program's bookkeeping is visible there. The promise needed from a
  pass is that real packets still reach the receiver and fake packets do not: it is a locale, kept
  by every chain of modifiers whose fakes are given a time to live that is too short. The total
  length and the checksum of the IP header are filled in by the kernel for raw packets.
\<close>

section \<open>The receiver's test\<close>

definition received :: "nat \<Rightarrow> byte list \<Rightarrow> bool" where
  "received hops bs \<longleftrightarrow> hops \<le> unat (bs ! 8) \<and> receiver_accepts bs"

definition settled :: "nat \<Rightarrow> packet \<Rightarrow> bool" where
  "settled hops p \<longleftrightarrow> wf_packet p \<and>
     (if is_fake_blob p then action_action p = SEND \<and> unat (packet_bytes p ! 8) < hops
      else action_action p \<noteq> DROP \<and> length (packet_bytes p) \<le> 65535 \<and> received hops (packet_bytes p))"

lemma settled_all_wf: "list_all (settled hops) ps \<Longrightarrow> list_all wf_packet ps"
  by (simp add: list_all_iff settled_def)

section \<open>The promise\<close>

locale receiver_keeper =
  fixes hops :: nat and run :: "packet list \<Rightarrow> packet list result"
  assumes run_settled: "run ps = Inr qs \<Longrightarrow> list_all (settled hops) ps \<Longrightarrow> list_all (settled hops) qs"
    and run_accepted: "run ps = Inr qs \<Longrightarrow> list_all (settled hops) ps \<Longrightarrow> list_all (accept_from ps) qs"
begin

lemma run_received:
  assumes "run ps = Inr qs" "list_all (settled hops) ps" "q \<in> set qs"
  shows "received hops (packet_bytes q) \<longleftrightarrow> original q"
  using run_settled [OF assms(1,2)] assms(3)
  by (auto simp: list_all_iff settled_def received_def original_def split: if_splits)

end

named_theorems receiver_keeping "passes under which the receiver gets the real packets only"

lemma receiver_skip [receiver_keeping]: "receiver_keeper hops (\<lambda>ps. Inr ps)"
  by unfold_locales (auto simp: accept_from_all)

lemma receiver_then [receiver_keeping]:
  assumes "receiver_keeper hops f" "receiver_keeper hops g"
  shows "receiver_keeper hops (\<lambda>ps. and_then (f ps) g)"
proof
  fix ps rs
  assume "and_then (f ps) g = Inr rs" and s: "list_all (settled hops) ps"
  then obtain qs where f: "f ps = Inr qs" and g: "g qs = Inr rs" by (auto simp: res)
  note F = receiver_keeper.run_settled [OF assms(1) f s]
  show "list_all (settled hops) rs" using assms(2) g F by (rule receiver_keeper.run_settled)
  show "list_all (accept_from ps) rs"
    using receiver_keeper.run_accepted [OF assms(1) f s] receiver_keeper.run_accepted [OF assms(2) g F]
    by (rule accept_from_trans)
qed

lemma receiver_if [receiver_keeping]:
  "(b \<Longrightarrow> receiver_keeper hops f) \<Longrightarrow> (\<not> b \<Longrightarrow> receiver_keeper hops g)
   \<Longrightarrow> receiver_keeper hops (\<lambda>ps. if b then f ps else g ps)"
  by (cases b) simp_all

lemma receiver_fold [receiver_keeping]:
  assumes "\<And>x. x \<in> set xs \<Longrightarrow> receiver_keeper hops (step x)"
  shows "receiver_keeper hops (fold_r step xs)"
  using assms
proof (induction xs)
  case Nil
  have "fold_r step [] = (\<lambda>ps. Inr ps)" by (simp add: fun_eq_iff)
  then show ?case by (simp add: receiver_skip)
next
  case (Cons x xs)
  have "fold_r step (x # xs) = (\<lambda>ps. and_then (step x ps) (fold_r step xs))" by (simp add: fun_eq_iff)
  with Cons show ?case by (simp add: receiver_then)
qed

section \<open>The time to live\<close>

lemma ttl_byte_put [simp]:
  assumes "wf_packet p"
  shows "packet_bytes (put_seq p s) ! 8 = packet_bytes p ! 8" "packet_bytes (put_check p c) ! 8 = packet_bytes p ! 8"
    "packet_bytes (put_tot_len p n) ! 8 = packet_bytes p ! 8" "packet_bytes (put_ttl p t) ! 8 = t"
    "packet_bytes (with_checksum p) ! 8 = packet_bytes p ! 8"
  using wf_packetD [OF assms] by (simp_all add: put_defs with_checksum_def nth_put16 nth_put32)

lemma ttl_byte_parts [simp]:
  assumes "wf_packet p"
  shows "packet_bytes (rebuild p pl) ! 8 = packet_bytes p ! 8"
    "packet_bytes (segment_packet p pl s) ! 8 = packet_bytes p ! 8"
    "packet_bytes (cut_first p k) ! 8 = packet_bytes p ! 8"
    "packet_bytes (cut_second p k) ! 8 = packet_bytes p ! 8"
proof -
  note D = wf_packetD [OF assms]
  show r: "packet_bytes (rebuild p pl) ! 8 = packet_bytes p ! 8" for pl
    using D by (intro rebuild_header_byte [OF assms]) simp_all
  show s: "packet_bytes (segment_packet p pl s) ! 8 = packet_bytes p ! 8" for pl s
    using assms by (simp add: segment_packet_def r)
  show "packet_bytes (cut_second p k) ! 8 = packet_bytes p ! 8" by (simp add: cut_second_def s)
  have "packet_bytes (p\<lparr>packet_bytes := headers_of p @ take k (payload_of p), action_action := a\<rparr>) ! 8
      = packet_bytes p ! 8" for a
    using D by (simp add: headers_of_def nth_append)
  then show "packet_bytes (cut_first p k) ! 8 = packet_bytes p ! 8"
    using assms by (simp add: cut_first_def)
qed

text \<open>Setting it does not change the sum the receiver takes.\<close>

lemma put_ttl_accepted:
  assumes "wf_packet p" "length (packet_bytes p) \<le> 65535"
  shows "receiver_accepts (packet_bytes (put_ttl p t)) = receiver_accepts (packet_bytes p)"
proof -
  note D = wf_packetD [OF assms(1)]
  have "segment_sum (put_ttl p t) = segment_sum p"
    using D by (simp add: segment_sum_def pseudo_hdr_of_def put_ttl_def get32_def)
  then show ?thesis using assms by (simp add: receiver_accepts_sum)
qed

section \<open>Splits and reversal\<close>

lemma cut_lengths:
  assumes "wf_packet p"
  shows "length (packet_bytes (cut_first p k)) \<le> length (packet_bytes p)"
    "length (packet_bytes (cut_second p k)) \<le> length (packet_bytes p)"
proof -
  have "length (packet_bytes p) = payload_offset p + length (payload_of p)"
    using wf_packetD(6) [OF assms] by (simp add: payload_of_def)
  then show "length (packet_bytes (cut_first p k)) \<le> length (packet_bytes p)"
    "length (packet_bytes (cut_second p k)) \<le> length (packet_bytes p)"
    using assms by (simp_all add: cut_first_def cut_second_def segment_packet_def)
qed

lemma cut_accepted:
  assumes "wf_packet p" "length (packet_bytes p) \<le> 65535"
  shows "receiver_accepts (packet_bytes (cut_first p k))" "receiver_accepts (packet_bytes (cut_second p k))"
proof -
  note L = cut_lengths [OF assms(1), of k]
  show "receiver_accepts (packet_bytes (cut_first p k))"
    using assms L(1) unfolding cut_first_def by (intro with_checksum_accepted) simp_all
  show "receiver_accepts (packet_bytes (cut_second p k))"
    using assms L(2) unfolding cut_second_def segment_packet_def by (intro with_checksum_accepted) simp_all
qed

lemma cut_settled:
  assumes "settled hops p"
  shows "settled hops (cut_first p k)" "settled hops (cut_second p k)"
  using assms cut_accepted [of p k] cut_lengths [of p k]
  by (auto simp: settled_def received_def sent_action_def split: if_splits)

interpretation split_received: receiver_keeper hops "split_pass marks proto pos" for hops marks proto pos
proof
  fix ps qs
  assume run: "split_pass marks proto pos ps = Inr qs" and s: "list_all (settled hops) ps"
  note wf = settled_all_wf [OF s]
  show "list_all (accept_from ps) qs" using run wf by (rule split_accepts.run_accepts)
  obtain r where "split ps pos marks proto = Inr (r, qs)" using run by (auto simp: split_pass_def res)
  from split_cases [OF wf this] have "\<forall>q\<in>set qs. q \<in> set ps \<or> (\<exists>p\<in>set ps. \<exists>k. q = cut_first p k \<or> q = cut_second p k)"
    by (auto dest: in_set_takeD in_set_dropD)
  then show "list_all (settled hops) qs" using s cut_settled by (fastforce simp: list_all_iff)
qed

interpretation splits_received: receiver_keeper hops "split_passes args ctx"
  for hops and args :: "'a modifier_args_scheme" and ctx
  unfolding split_passes_def by (intro receiver_fold split_received.receiver_keeper_axioms)

interpretation reversal_received: receiver_keeper hops "\<lambda>ps. Inr (reverse_view original ps)" for hops
proof
  fix ps qs
  assume run: "(Inr (reverse_view original ps) :: packet list result) = Inr qs" and s: "list_all (settled hops) ps"
  show "list_all (accept_from ps) qs" by (rule reversal_accepts.run_accepts [OF run settled_all_wf [OF s]])
  have "set qs = set ps" using run mset_reverse_view [of original ps] by (metis Inr_inject set_mset_mset)
  then show "list_all (settled hops) qs" using s by (simp add: list_all_iff)
qed

text \<open>A time to live that is long enough, on the real packets.\<close>

lemma ttl_received:
  assumes "case arg_ttl args of None \<Rightarrow> True | Some ttl \<Rightarrow> hops \<le> unat ttl"
  shows "receiver_keeper hops (ttl_pass args original)"
proof
  fix ps qs
  assume run: "ttl_pass args original ps = Inr qs" and s: "list_all (settled hops) ps"
  note wf = settled_all_wf [OF s]
  show "list_all (accept_from ps) qs" using run wf by (rule ttl_accepts.run_accepts)
  show "list_all (settled hops) qs"
  proof (cases "arg_ttl args")
    case None
    then show ?thesis using run s by (simp add: ttl_pass_def)
  next
    case (Some ttl)
    then have "ipv4_ttl original ttl ps = Inr qs" using run by (simp add: ttl_pass_def)
    then have "list_all2 (\<lambda>p q. settled hops p \<longrightarrow> settled hops q) ps qs"
      unfolding ipv4_ttl_def
    proof (rule map_view_list_all2)
      fix p q
      assume p: "original p" and step: "and_then (store8 (packet_bytes p) (network_offset p + 8) ttl)
        (\<lambda>bs. Inr (p\<lparr>packet_bytes := bs\<rparr>)) = Inr q"
      show "settled hops p \<longrightarrow> settled hops q"
      proof
        assume sp: "settled hops p"
        then have "wf_packet p" by (simp add: settled_def)
        with step have "q = put_ttl p ttl" by (simp add: wf_run)
        then show "settled hops q"
          using sp p assms Some put_ttl_accepted [of p ttl]
          by (simp add: settled_def original_def received_def)
      qed
    qed simp
    then show ?thesis using s by (induction rule: list_all2_induct) auto
  qed
qed

section \<open>Fake packets that die on the way\<close>

text \<open>The header passes over a fake packet other than the one that sets the time to live.\<close>

definition same_ttl :: "packet \<Rightarrow> packet \<Rightarrow> bool" where
  "same_ttl p q \<longleftrightarrow> packet_bytes q ! 8 = packet_bytes p ! 8"

locale ttl_keeper = header_pass +
  assumes run_ttl: "run ps = Inr qs \<Longrightarrow> list_all wf_packet ps \<Longrightarrow> list_all2 same_ttl ps qs"
begin

lemma run_single:
  assumes "run [p] = Inr qs" "wf_packet p"
  shows "\<exists>q. qs = [q] \<and> same_role p q \<and> same_ttl p q"
proof -
  have wf: "list_all wf_packet [p]" using assms(2) by simp
  obtain q where "qs = [q]" "same_role p q" using run_pointwise [OF assms(1) wf] by (auto simp: list_all2_Cons1)
  moreover have "list_all2 same_ttl [p] qs" using assms(1) wf by (rule run_ttl)
  ultimately show ?thesis by simp
qed

end

lemma ttl_kept_then:
  assumes "ttl_keeper f" "ttl_keeper g"
  shows "ttl_keeper (\<lambda>ps. and_then (f ps) g)"
proof -
  have h: "header_pass (\<lambda>ps. and_then (f ps) g)"
    using assms by (intro header_then) (simp_all add: ttl_keeper_def)
  have "list_all2 same_ttl ps rs"
    if run: "and_then (f ps) g = Inr rs" and wf: "list_all wf_packet ps" for ps rs
  proof -
    obtain qs where f: "f ps = Inr qs" and g: "g qs = Inr rs" using run by (auto simp: res)
    have "list_all wf_packet qs"
      using header_pass.run_pointwise [OF ttl_keeper.axioms(1) [OF assms(1)] f wf] by (rule same_role_wf)
    then have "list_all2 same_ttl ps qs" "list_all2 same_ttl qs rs"
      using ttl_keeper.run_ttl [OF assms(1) f wf] ttl_keeper.run_ttl [OF assms(2) g] by blast+
    then show ?thesis
      using list_all2_trans [of same_ttl same_ttl same_ttl ps qs rs] by (simp add: same_ttl_def)
  qed
  with h show ?thesis by (simp add: ttl_keeper_def ttl_keeper_axioms_def)
qed

lemma ttl_kept_view:
  assumes "header_pass (map_view P f)" "\<And>p q. wf_packet p \<Longrightarrow> f p = Inr q \<Longrightarrow> same_ttl p q"
  shows "ttl_keeper (map_view P f)"
proof -
  have "list_all2 same_ttl ps qs" if "map_view P f ps = Inr qs" "list_all wf_packet ps" for ps qs
    using that(1) by (rule map_view_list_all2) (use that(2) assms(2) in \<open>auto simp: list_all_iff same_ttl_def\<close>)
  with assms(1) show ?thesis by (simp add: ttl_keeper_def ttl_keeper_axioms_def)
qed

lemma ttl_kept_skip: "ttl_keeper (\<lambda>ps. Inr ps)"
  by (simp add: ttl_keeper_def ttl_keeper_axioms_def header_skip same_ttl_def list_all2_same)

lemma ttl_kept_fail: "ttl_keeper (\<lambda>ps. Inl e)"
  by (simp add: ttl_keeper_def ttl_keeper_axioms_def header_fail)

lemma ttl_kept_if: "(b \<Longrightarrow> ttl_keeper f) \<Longrightarrow> (\<not> b \<Longrightarrow> ttl_keeper g) \<Longrightarrow> ttl_keeper (\<lambda>ps. if b then f ps else g ps)"
  by (cases b) simp_all

lemma ttl_kept_option:
  "(m = None \<Longrightarrow> ttl_keeper f) \<Longrightarrow> (\<And>x. m = Some x \<Longrightarrow> ttl_keeper (g x))
   \<Longrightarrow> ttl_keeper (\<lambda>ps. case m of None \<Rightarrow> f ps | Some x \<Rightarrow> g x ps)"
  by (cases m) simp_all

lemmas ttl_keeping = ttl_kept_then ttl_kept_if ttl_kept_option ttl_kept_skip ttl_kept_fail

lemma timestamps_same_ttl:
  assumes "timestamp_val_offset p off = Inr (ok, q)" "wf_packet p"
  shows "same_ttl p q"
proof -
  consider "q = p" | doff bs where "q = p\<lparr>packet_bytes := bs\<rparr>"
      "timestamp_loop off (packet_bytes p) (transport_offset p + sizeof_tcphdr) doff = Some (Inr (ok, bs))"
    using assms(1) by (auto simp: timestamp_val_offset_def res split: if_splits option.splits sum.splits)
  then show ?thesis
  proof cases
    case 2
    have "8 \<le> transport_offset p + sizeof_tcphdr" by (simp add: sizeof_tcphdr_def)
    then show ?thesis using timestamp_loop_frame [OF 2(2)] 2(1) by (simp add: same_ttl_def)
  qed (simp add: same_ttl_def)
qed

interpretation ts_ttl: ttl_keeper "ts_pass args conn P" for args :: "'a modifier_args_scheme" and conn P
proof -
  have "ttl_keeper (timestamp_offset P off)" for off
    unfolding timestamp_offset_def
  proof (rule ttl_kept_view [OF timestamp.header_pass_axioms [unfolded timestamp_offset_def]])
    fix p q
    assume w: "wf_packet p" and run: "and_then (timestamp_val_offset p off) (\<lambda>(ok, p'). calc_packet_checksum p') = Inr q"
    then obtain ok p' where t: "timestamp_val_offset p off = Inr (ok, p')" and c: "calc_packet_checksum p' = Inr q"
      by (auto simp: res)
    note T = timestamps_same_ttl [OF t w] timestamp_val_offset_frame(1) [OF t w]
    then have "q = with_checksum p'" using c by (simp add: wf_calc_packet_checksum)
    then show "same_ttl p q" using T by (simp add: same_ttl_def)
  qed
  then show "ttl_keeper (ts_pass args conn P)"
    unfolding ts_pass_def by (intro ttl_keeping)
qed

interpretation seq_ttl: ttl_keeper "seq_pass args conn stale P" for args :: "'a modifier_args_scheme" and conn stale P
proof -
  have "ttl_keeper (sequence_offset P off)" for off
    unfolding sequence_offset_def
    by (rule ttl_kept_view [OF sequence.header_pass_axioms [unfolded sequence_offset_def]])
      (auto simp: sequence_step res same_ttl_def)
  then show "ttl_keeper (seq_pass args conn stale P)"
    unfolding seq_pass_def through_view_def by (intro ttl_keeping)
qed

lemma spoil_same_ttl:
  assumes "map_r (\<lambda>(i, packet). if P packet then spoil_checksum (rnd i) packet else Inr packet)
      (enumerate n ps) = Inr qs" "list_all wf_packet ps"
  shows "list_all2 same_ttl ps qs"
  using assms
proof (induction ps arbitrary: n qs)
  case (Cons p ps)
  then show ?case by (auto simp: res spoil_checksum_wf same_ttl_def split: if_splits)
qed simp

interpretation cksum_ttl: ttl_keeper "cksum_pass args conn stale P rnd"
  for args :: "'a modifier_args_scheme" and conn stale P rnd
proof (unfold_locales)
  fix ps qs
  assume run: "cksum_pass args conn stale P rnd ps = Inr qs" and wf: "list_all wf_packet ps"
  have "qs = ps \<or> map_r (\<lambda>(i, packet). if P packet then spoil_checksum (rnd i) packet else Inr packet)
      (enumerate 0 ps) = Inr qs"
    using run by (auto simp: cksum_pass_def through_view_def badchecksum_def split: if_splits)
  then show "list_all2 same_ttl ps qs"
    using wf spoil_same_ttl by (auto simp: same_ttl_def list_all2_same)
qed

lemma ttl_single:
  assumes "arg_ttl args = Some ttl" "wf_packet p" "P p"
  shows "ttl_pass args P [p] = Inr [put_ttl p ttl]"
  using assms by (simp add: ttl_pass_def ipv4_ttl_def map_view_def wf_run)

lemma splitter_fake_ttl:
  assumes "splitter_process_fake env args ctx [p] = Inr qs" "arg_ttl args = Some ttl" "wf_packet p" "is_fake_blob p"
  shows "\<exists>q. qs = [q] \<and> same_role p q \<and> packet_bytes q ! 8 = ttl"
proof -
  let ?rest = "\<lambda>ps. and_then (ts_pass args (ctx_conn ctx) is_fake_blob ps) (\<lambda>ps.
      and_then (seq_pass args (ctx_conn ctx) False is_fake_blob ps) (\<lambda>ps.
      cksum_pass args (ctx_conn ctx) False is_fake_blob (rand_at env 0) ps))"
  have k: "ttl_keeper ?rest"
    by (intro ttl_kept_then ts_ttl.ttl_keeper_axioms seq_ttl.ttl_keeper_axioms cksum_ttl.ttl_keeper_axioms)
  have run: "?rest [put_ttl p ttl] = Inr qs"
    using assms(1) ttl_single [of args ttl p is_fake_blob] assms(2-4)
    by (simp add: splitter_process_fake_def Let_def)
  obtain q where "qs = [q]" "same_role (put_ttl p ttl) q" "same_ttl (put_ttl p ttl) q"
    using ttl_keeper.run_single [OF k run] assms(3) by auto
  then show ?thesis using assms(3) by (simp add: same_role_def same_ttl_def)
qed

lemma disorder_fake_ttl:
  assumes "disorder_process_fake env args ctx [p] = Inr qs" "arg_ttl args = Some ttl" "wf_packet p" "is_fake_blob p"
  shows "\<exists>q. qs = [q] \<and> same_role p q \<and> packet_bytes q ! 8 = ttl"
proof -
  let ?conn = "ctx_conn ctx"
  let ?first = "\<lambda>ps. and_then (seq_pass args ?conn False is_fake_blob ps) (ts_pass args ?conn is_fake_blob)"
  have k: "ttl_keeper ?first" by (intro ttl_kept_then ts_ttl.ttl_keeper_axioms seq_ttl.ttl_keeper_axioms)
  obtain ps where run: "?first [p] = Inr ps" and rest: "and_then (ttl_pass args is_fake_blob ps)
      (cksum_pass args ?conn False is_fake_blob (rand_at env 0)) = Inr qs"
    using assms(1) by (auto simp: disorder_process_fake_def Let_def res)
  obtain p' where p': "ps = [p']" "same_role p p'" using ttl_keeper.run_single [OF k run assms(3)] by blast
  then have "wf_packet p'" "is_fake_blob p'" using assms(4) by (simp_all add: same_role_def)
  then have run: "cksum_pass args ?conn False is_fake_blob (rand_at env 0) [put_ttl p' ttl] = Inr qs"
    using rest p'(1) ttl_single [of args ttl p' is_fake_blob] assms(2) by simp
  obtain q where "qs = [q]" "same_role (put_ttl p' ttl) q" "same_ttl (put_ttl p' ttl) q"
    using cksum_ttl.run_single [OF run] \<open>wf_packet p'\<close> by auto
  then show ?thesis using p'(2) \<open>wf_packet p'\<close> by (simp add: same_role_def same_ttl_def)
qed

lemma receiver_prepend_fake:
  assumes "\<And>p qs. process [p] = Inr qs \<Longrightarrow> wf_packet p \<Longrightarrow> is_fake_blob p \<Longrightarrow>
      \<exists>q. qs = [q] \<and> same_role p q \<and> packet_bytes q ! 8 = ttl"
    and "unat ttl < hops" "\<And>p. wf_packet p \<Longrightarrow> cksum p = Inr (with_checksum p)"
  shows "receiver_keeper hops (\<lambda>ps. and_then (make_fake blob ps) (\<lambda>p. and_then (cksum p) (\<lambda>p.
      and_then (process [p]) (\<lambda>blobs. Inr (mark_fake blobs @ ps)))))"
proof
  fix ps qs
  assume run: "and_then (make_fake blob ps) (\<lambda>p. and_then (cksum p) (\<lambda>p.
      and_then (process [p]) (\<lambda>blobs. Inr (mark_fake blobs @ ps)))) = Inr qs" and s: "list_all (settled hops) ps"
  note wf = settled_all_wf [OF s]
  have ne: "ps \<noteq> []" using run by (auto simp: make_fake_def)
  let ?p = "fake_packet blob (hd ps)"
  have w: "wf_packet ?p" "is_fake_blob ?p" "action_action ?p = SEND" using wf ne by (cases ps; simp)+
  then obtain blobs where b: "process [with_checksum ?p] = Inr blobs" and qs: "qs = mark_fake blobs @ ps"
    using run by (auto simp: make_fake_run [OF ne wf] assms(3) res)
  obtain q where "blobs = [q]" "same_role (with_checksum ?p) q" "packet_bytes q ! 8 = ttl"
    using assms(1) [OF b] w by auto
  then have q: "qs = q\<lparr>is_fake_blob := True\<rparr> # ps" "settled hops (q\<lparr>is_fake_blob := True\<rparr>)"
    "action_action q = SEND"
    using qs w assms(2) by (simp_all add: mark_fake_def same_role_def settled_def)
  show "list_all (settled hops) qs" using q s by simp
  show "list_all (accept_from ps) qs" using q by (simp add: accept_from_all) (simp add: accept_from_def)
qed

section \<open>The modifiers\<close>

text \<open>
  Arguments that spare the receiver: a fake packet whose time to live runs out on the way, whatever
  else is done to it, or splitting and reordering of the real packets with a time to live that is
  long enough.
\<close>

definition short_fake :: "nat \<Rightarrow> 'a modifier_args_scheme \<Rightarrow> bool" where
  "short_fake hops args \<longleftrightarrow> fake_blob args \<noteq> None
     \<and> (case arg_ttl args of None \<Rightarrow> False | Some ttl \<Rightarrow> unat ttl < hops)"

definition gentle :: "nat \<Rightarrow> 'a modifier_args_scheme \<Rightarrow> bool" where
  "gentle hops args \<longleftrightarrow> fake_blob args = None \<and> no_offsets args \<and> \<not> badcksum args
     \<and> (case arg_ttl args of None \<Rightarrow> True | Some ttl \<Rightarrow> hops \<le> unat ttl)"

fun spares :: "nat \<Rightarrow> i_modifier \<Rightarrow> bool" where
  "spares hops (Splitter_modifier args) = (short_fake hops args \<or> gentle hops args \<and> split_seqovl args = None)"
| "spares hops (Disorder_modifier args) = (short_fake hops args \<or> gentle hops args \<and> dis_seqovl args = None)"

lemma spares_harmless: "spares hops m \<Longrightarrow> harmless m"
  by (cases m) (auto simp: short_fake_def gentle_def)

lemma no_cksum_pass: "\<not> badcksum args \<Longrightarrow> cksum_pass args conn stale P rnd = (\<lambda>ps. Inr ps)"
  by (simp add: cksum_pass_def fun_eq_iff)

lemma splitter_received:
  assumes "spares hops (Splitter_modifier args)"
  shows "receiver_keeper hops (splitter_modify env args ctx)"
proof (cases "short_fake hops args")
  case True
  then obtain blob ttl where fake: "fake_blob args = Some blob" "arg_ttl args = Some ttl" "unat ttl < hops"
    by (auto simp: short_fake_def split: option.splits)
  show ?thesis
    unfolding splitter_modify_def fake(1) option.case
    by (rule receiver_prepend_fake [OF splitter_fake_ttl [OF _ fake(2)] fake(3) wf_calc_packet_checksum])
next
  case False
  with assms have plain: "fake_blob args = None" "no_offsets args" "split_seqovl args = None"
    and "\<not> badcksum args" "case arg_ttl args of None \<Rightarrow> True | Some ttl \<Rightarrow> hops \<le> unat ttl"
    by (simp_all add: gentle_def)
  then show ?thesis
    unfolding splitter_plain_run [OF plain] no_cksum_pass [OF \<open>\<not> badcksum args\<close>]
    by (intro receiver_then receiver_skip splits_received.receiver_keeper_axioms ttl_received)
qed

lemma disorder_received:
  assumes "spares hops (Disorder_modifier args)"
  shows "receiver_keeper hops (disorder_modify env args ctx)"
proof (cases "short_fake hops args")
  case True
  then obtain blob ttl where fake: "fake_blob args = Some blob" "arg_ttl args = Some ttl" "unat ttl < hops"
    by (auto simp: short_fake_def split: option.splits)
  show ?thesis
    unfolding disorder_modify_def fake(1) option.case
    by (rule receiver_then [OF receiver_prepend_fake [OF disorder_fake_ttl [OF _ fake(2)] fake(3) fake_cksum_run]
          reversal_received.receiver_keeper_axioms])
next
  case False
  with assms have plain: "fake_blob args = None" "no_offsets args" "dis_seqovl args = None"
    and "\<not> badcksum args" "case arg_ttl args of None \<Rightarrow> True | Some ttl \<Rightarrow> hops \<le> unat ttl"
    by (simp_all add: gentle_def)
  then show ?thesis
    unfolding disorder_plain_run [OF plain] no_cksum_pass [OF \<open>\<not> badcksum args\<close>]
    by (intro receiver_then receiver_skip splits_received.receiver_keeper_axioms ttl_received
        reversal_received.receiver_keeper_axioms)
qed

lemma step_received: "spares hops m \<Longrightarrow> receiver_keeper hops (modifier_step env ctx m)"
  unfolding modifier_step_def
  by (cases m) (auto intro!: receiver_keeping splitter_received disorder_received)

section \<open>From the wire to the receiver\<close>

lemma wire_event_received:
  assumes "packet_events q = Inr evs" "settled hops q" "accept_from held q"
    and "list_all wf_packet held" "list_all (\<lambda>p. received hops (packet_bytes p)) held"
    and "distinct (map action_packet_id held)"
  shows "map (\<lambda>bs. seg_of (packet_of bs 0)) (filter (received hops) (wire held evs)) = orig_segs [q]
    \<and> list_all (\<lambda>bs. wf_packet (packet_of bs 0)) (filter (received hops) (wire held evs))"
proof (cases "action_action q = ACCEPT")
  case True
  then have o: "original q" using assms(2) by (auto simp: settled_def original_def)
  obtain p where p: "p \<in> set held" "action_packet_id p = action_packet_id q" "seg_of p = seg_of q"
    using True assms(3) by (auto simp: accept_from_def)
  have "evs = [Verdict (action_packet_id q) NF_ACCEPT]"
    using assms(1) True by (auto simp: packet_events_def split: if_splits)
  moreover have "filter (\<lambda>h. action_packet_id h = action_packet_id q) held = [p]"
    using filter_unique_id [OF assms(6) p(1)] p(2) by simp
  moreover have "wf_packet p" "received hops (packet_bytes p)" using assms(4,5) p(1) by (simp_all add: list_all_iff)
  ultimately show ?thesis using p(3) o seg_of_packet_of [of p 0] by (simp add: orig_segs_def)
next
  case False
  have q: "wf_packet q" "received hops (packet_bytes q) \<longleftrightarrow> original q"
    using assms(2) by (auto simp: settled_def received_def original_def split: if_splits)
  have "action_action q \<noteq> DROP" using assms(2) by (auto simp: settled_def split: if_splits)
  then have "wire held evs = [packet_bytes q]"
    using assms(1) False by (auto simp: packet_events_def raw_events_def res split: packet_action.splits)
  then show ?thesis using q seg_of_packet_of [OF q(1), of 0] by (simp add: orig_segs_def)
qed

lemma wire_received:
  assumes "send_packets qs = Inr evs" "list_all (settled hops) qs" "list_all (accept_from held) qs"
    and "list_all wf_packet held" "list_all (\<lambda>p. received hops (packet_bytes p)) held"
    and "distinct (map action_packet_id held)"
  shows "map (\<lambda>bs. seg_of (packet_of bs 0)) (filter (received hops) (wire held evs)) = orig_segs qs
    \<and> list_all (\<lambda>bs. wf_packet (packet_of bs 0)) (filter (received hops) (wire held evs))"
  using assms(1-3)
proof (induction qs arbitrary: evs)
  case Nil
  then show ?case by (simp add: send_packets_def orig_segs_def)
next
  case (Cons q qs)
  then obtain e es where e: "packet_events q = Inr e" and es: "send_packets qs = Inr es" and evs: "evs = e @ es"
    by (auto simp: send_packets_def res)
  have IH: "map (\<lambda>bs. seg_of (packet_of bs 0)) (filter (received hops) (wire held es)) = orig_segs qs
      \<and> list_all (\<lambda>bs. wf_packet (packet_of bs 0)) (filter (received hops) (wire held es))"
    using Cons.IH [OF es] Cons.prems by simp
  moreover have "orig_segs (q # qs) = orig_segs [q] @ orig_segs qs" by (simp add: orig_segs_def)
  ultimately show ?case
    using wire_event_received [OF e _ _ assms(4-6)] Cons.prems evs by simp
qed

section \<open>Properties\<close>

text \<open>C5. What the receiver gets: of the bytes on the wire, fakes included, it takes those whose time
  to live lasts for the number of hops and whose checksum is right. For a chain of modifiers, in any
  order, that send fakes with a time to live too short or split and reorder the real packets, the
  TCP segments it takes carry exactly the stream of the packets held. Fakes that only a spoiled
  checksum protects are not covered: a split after them computes a right one.\<close>

theorem receiver_gets_stream:
  assumes "modifier_modify env m conn held = Inr qs" "send_packets qs = Inr evs"
    and "list_all (spares hops) (modifiers m)" "list_all (held_ok IPPROTO_TCP) held"
    and "list_all (\<lambda>p. length (packet_bytes p) \<le> 65535 \<and> received hops (packet_bytes p)) held"
    and "distinct (map action_packet_id held)" "carries base S held"
  shows "concat_view (\<lambda>_. True) (map (\<lambda>bs. packet_of bs 0) (filter (received hops) (wire held evs)))
    = concat_view (\<lambda>_. True) held"
proof -
  have wf: "list_all wf_packet held" and s: "list_all (settled hops) held"
    and orig: "filter original held = held"
    using assms(4,5) by (auto simp: held_ok_def settled_def original_def list_all_iff filter_id_conv)
  have R: "receiver_keeper hops (fold_r (modifier_step env ctx) (modifiers m))" for ctx
    using assms(3) by (intro receiver_fold step_received) (simp add: list_all_iff)
  note C = modifier_modify_cases [OF assms(1)]
  have Q: "list_all (settled hops) qs" "list_all (accept_from held) qs"
    using C receiver_keeper.run_settled [OF R _ s] receiver_keeper.run_accepted [OF R _ s] s accept_from_all
    by blast+
  have "list_all harmless (modifiers m)" using assms(3) spares_harmless by (auto simp: list_all_iff)
  then have "concat_view original qs = concat_view original held"
    by (rule original_stream_kept [OF assms(1) wf _ assms(7)])
  then have q: "assemble (orig_segs qs) = assemble (map seg_of held)"
    using wf settled_all_wf [OF Q(1)] orig by (simp add: wf_concat_view list_all_iff orig_segs_def)
  have "list_all (\<lambda>p. received hops (packet_bytes p)) held" using assms(5) by (simp add: list_all_iff)
  note W = wire_received [OF assms(2) Q wf this assms(6)]
  then have "concat_view (\<lambda>_. True) (map (\<lambda>bs. packet_of bs 0) (filter (received hops) (wire held evs)))
      = Inr (assemble (map (\<lambda>bs. seg_of (packet_of bs 0)) (filter (received hops) (wire held evs))))"
    by (subst wf_concat_view) (auto simp: list_all_iff comp_def)
  then show ?thesis using W q wf by (simp add: wf_concat_view list_all_iff)
qed

text \<open>Two packets, a fake with a time to live of three in front, and a path of ten hops.\<close>

definition fresh_pair :: "packet list" where
  "fresh_pair = map with_checksum sample_pair"

definition fake_and_reverse :: modifier where
  "fake_and_reverse = \<lparr>modifiers = [Splitter_modifier (plain_args\<lparr>fake_blob := Some [9], arg_ttl := Some 3\<rparr>),
     Disorder_modifier plain_disorder], hosts = None, ips = None\<rparr>"

definition short_lived :: packet where
  "short_lived = (put_ttl (with_checksum (fake_packet [9] (hd fresh_pair))) 3)\<lparr>is_fake_blob := True\<rparr>"

lemma fresh_pair_run:
  "modifier_modify sample_env fake_and_reverse tcp_connection fresh_pair = Inr (short_lived # rev fresh_pair)"
proof -
  have wf: "list_all wf_packet fresh_pair" and ne: "fresh_pair \<noteq> []"
    using sample_pair_wf by (auto simp: fresh_pair_def list_all_iff sample_pair_def)
  have w: "wf_packet (hd fresh_pair)" using wf ne by (metis hd_in_set list_all_iff)
  obtain full where full: "concat_view original fresh_pair = Inr full" using wf wf_concat_view by (metis list_all_iff)
  have "find_markers full (payload_proto tcp_connection) = Inr (Inr no_markers)"
    by (simp add: find_markers_def tcp_connection_def new_connection_def)
  moreover have "splitter_modify sample_env (plain_args\<lparr>fake_blob := Some [9], arg_ttl := Some 3\<rparr>) ctx fresh_pair
      = Inr (short_lived # fresh_pair)" for ctx
    using w ttl_single [of "plain_args\<lparr>fake_blob := Some [9], arg_ttl := Some 3\<rparr>" 3
        "with_checksum (fake_packet [9] (hd fresh_pair))" is_fake_blob]
    by (simp add: splitter_modify_def make_fake_run [OF ne wf] wf_calc_packet_checksum splitter_process_fake_def
        plain_args_def ts_pass_def seq_pass_def cksum_pass_def mark_fake_def short_lived_def Let_def)
  moreover have "disorder_modify sample_env plain_disorder ctx ps = Inr (reverse_view original ps)" for ctx ps
    by (simp add: disorder_modify_def disorder_process_orig_def plain_disorder_def split_passes_def seq_pass_def
        ts_pass_def ttl_pass_def disorder_seqovl_pass_def cksum_pass_def Let_def)
  moreover have "reverse_view original (short_lived # fresh_pair) = short_lived # rev fresh_pair"
    by (simp add: reverse_view_def fresh_pair_def sample_pair_def short_lived_def original_def)
  ultimately show ?thesis
    using full
    by (simp add: modifier_modify_def modifier_filter_def fake_and_reverse_def modifier_step_def matches_def
        plain_disorder_def plain_args_def)
qed

lemma receiver_gets_stream_witness:
  "\<exists>evs. send_packets (short_lived # rev fresh_pair) = Inr evs
     \<and> packet_bytes short_lived \<in> set (wire fresh_pair evs) \<and> payload_of short_lived = [9]
     \<and> concat_view (\<lambda>_. True) (map (\<lambda>bs. packet_of bs 0) (filter (received 10) (wire fresh_pair evs)))
       = concat_view (\<lambda>_. True) fresh_pair"
proof -
  have pair: "list_all (held_ok IPPROTO_TCP) sample_pair" "distinct (map action_packet_id sample_pair)"
    "list_all (\<lambda>p. packet_bytes p ! 8 = 64 \<and> length (packet_bytes p) = 44) sample_pair" by code_simp+
  then have h: "list_all (held_ok IPPROTO_TCP) fresh_pair" and d: "distinct (map action_packet_id fresh_pair)"
    by (auto simp: fresh_pair_def list_all_iff held_ok_def wf_protocol comp_def)
  have r: "list_all (\<lambda>p. length (packet_bytes p) \<le> 65535 \<and> received 10 (packet_bytes p)) fresh_pair"
    using pair sample_pair_wf by (auto simp: fresh_pair_def list_all_iff received_def with_checksum_accepted)
  have "orig_segs (map with_checksum ps) = orig_segs ps" if "list_all wf_packet ps" for ps
    using that by (induction ps) (simp_all add: orig_segs_def original_def seg_of_def)
  then have "orig_segs fresh_pair = orig_segs sample_pair"
    using sample_pair_wf by (simp add: fresh_pair_def)
  then have c: "carries 1000 sample_stream fresh_pair"
    using sample_pair_stream sample_pair_fresh by (simp add: carries_def orig_segs_def original_def [abs_def])
  have pl: "list_all (spares 10) (modifiers fake_and_reverse)"
    by (simp add: fake_and_reverse_def plain_disorder_def plain_args_def short_fake_def gentle_def no_offsets_def)
  have w: "wf_packet short_lived" "action_action short_lived = SEND" "payload_of short_lived = [9]"
    using sample_pair_wf by (simp_all add: short_lived_def fresh_pair_def sample_pair_def)
  have "list_all (\<lambda>p. action_action p = ACCEPT \<and> action_packet_id p \<noteq> 0) (rev fresh_pair)"
    using h by (simp add: held_ok_def list_all_iff)
  then obtain es where es: "send_packets (rev fresh_pair) = Inr es" using accepted_events by blast
  obtain daddr where "raw_events short_lived = Inr [Raw_send daddr (packet_bytes short_lived)]"
    using wf_packetD [OF w(1)] by (simp add: raw_events_def ip_daddr_def load32_def)
  then have evs: "send_packets (short_lived # rev fresh_pair) = Inr (Raw_send daddr (packet_bytes short_lived) # es)"
    using es w(2) by (auto simp: send_packets_def packet_events_def res)
  show ?thesis
    using receiver_gets_stream [OF fresh_pair_run evs pl h r d c] evs w(3) by auto
qed

end
