(* ===== verification/Hash.thy ===== *)
theory Hash
  imports Conntrack
begin

text \<open>
  The hash functions, \<^verbatim>\<open>util/hash.hpp\<close>, the hash of a connection key in
  \<^verbatim>\<open>conntrack/conn_tracker.hpp\<close> and of a profile key in \<^verbatim>\<open>config/profile.hpp\<close>. \<open>std::hash\<close> is left
  to the library by the standard and is a parameter, one per type.
\<close>

section \<open>The code\<close>

definition hash_mix_64 :: "u64 \<Rightarrow> u64" where
  "hash_mix_64 x =
     (let m = 0xe9846af9b1a615d;
          x = x XOR drop_bit 32 x;
          x = x * m;
          x = x XOR drop_bit 32 x;
          x = x * m
      in x XOR drop_bit 28 x)"

definition hash_mix_32 :: "u32 \<Rightarrow> u32" where
  "hash_mix_32 x =
     (let m1 = 0x21f0aaad;
          m2 = 0x735a2d97;
          x = x XOR drop_bit 16 x;
          x = x * m1;
          x = x XOR drop_bit 15 x;
          x = x * m2
      in x XOR drop_bit 15 x)"

text \<open>A \<open>size_t\<close> has 64 bits.\<close>

definition hash_mix :: "u64 \<Rightarrow> u64" where "hash_mix v = hash_mix_64 v"

definition hash_combine :: "u64 \<Rightarrow> u64 \<Rightarrow> u64" where
  "hash_combine seed h = hash_mix (seed + 0x9e3779b9 + h)"

fun conn_key_hash :: "(u32 \<Rightarrow> u64) \<Rightarrow> (u16 \<Rightarrow> u64) \<Rightarrow> (int \<Rightarrow> u64) \<Rightarrow> conn_key \<Rightarrow> u64" where
  "conn_key_hash hash32 hash16 hash_int (saddr, source, daddr, dest, proto) =
     (let seed = 0;
          seed = hash_combine seed (hash32 saddr);
          seed = hash_combine seed (hash16 source);
          seed = hash_combine seed (hash32 daddr);
          seed = hash_combine seed (hash16 dest)
      in hash_combine seed (hash_int proto))"

definition pair_hash :: "(u16 \<Rightarrow> u64) \<Rightarrow> (int \<Rightarrow> u64) \<Rightarrow> u16 \<times> int \<Rightarrow> u64" where
  "pair_hash hash16 hash_int p = hash16 (fst p) XOR hash_int (snd p)"

section \<open>Every step can be undone\<close>

text \<open>Shifting and xoring undoes itself once the shifts have left the word.\<close>

lemma drop_bit_too_far: "LENGTH('a) \<le> n \<Longrightarrow> drop_bit n (x :: 'a::len word) = 0"
  by (rule bit_eqI) (auto simp: bit_drop_bit_eq dest: bit_imp_le_length)

lemma xor_shift_half:
  fixes x :: "'a::len word"
  assumes "LENGTH('a) \<le> n + n"
  shows "(x XOR drop_bit n x) XOR drop_bit n (x XOR drop_bit n x) = x"
  using assms by (simp add: drop_bit_xor drop_bit_drop_bit drop_bit_too_far xor.assoc)

lemma xor_shift_third:
  fixes x :: "'a::len word"
  assumes "LENGTH('a) \<le> n + n + n" "y = x XOR drop_bit n x"
  shows "y XOR drop_bit n y XOR drop_bit (n + n) y = x"
proof -
  have "drop_bit (n + n) (drop_bit n x) = 0"
    using assms(1) by (simp add: drop_bit_too_far)
  then have "y XOR drop_bit n y XOR drop_bit (n + n) y
      = x XOR (drop_bit n x XOR drop_bit n x) XOR (drop_bit (n + n) x XOR drop_bit (n + n) x)"
    unfolding assms(2) drop_bit_xor drop_bit_drop_bit by (simp add: xor.assoc xor.left_commute)
  then show ?thesis by simp
qed

text \<open>The inverses of the two hash functions, with the modular inverses of the multipliers.\<close>

definition hash_unmix_64 :: "u64 \<Rightarrow> u64" where
  "hash_unmix_64 y =
     (let m = 0x153ed04bd89cfaf5;
          y = y XOR drop_bit 28 y XOR drop_bit 56 y;
          y = y * m;
          y = y XOR drop_bit 32 y;
          y = y * m
      in y XOR drop_bit 32 y)"

definition hash_unmix_32 :: "u32 \<Rightarrow> u32" where
  "hash_unmix_32 y =
     (let y = y XOR drop_bit 15 y XOR drop_bit 30 y;
          y = y * 0x97132227;
          y = y XOR drop_bit 15 y XOR drop_bit 30 y;
          y = y * 0x333c4925
      in y XOR drop_bit 16 y)"

lemma mult_undone:
  fixes x :: "'a::len word"
  assumes "a * b = 1"
  shows "x * a * b = x" "x * b * a = x"
  using assms by (simp_all add: mult.assoc mult.commute [of b a])

lemma xor_shift_32: "(x XOR drop_bit 32 x) XOR drop_bit 32 (x XOR drop_bit 32 x) = (x :: u64)"
  by (rule xor_shift_half) simp

lemma xor_shift_16: "(x XOR drop_bit 16 x) XOR drop_bit 16 (x XOR drop_bit 16 x) = (x :: u32)"
  by (rule xor_shift_half) simp

lemma xor_shift_28:
  fixes x :: u64
  shows "(x XOR drop_bit 28 x) XOR drop_bit 28 (x XOR drop_bit 28 x)
      XOR drop_bit 56 (x XOR drop_bit 28 x) = x"
  using xor_shift_third [where x = x and n = 28, OF _ refl] by simp

lemma xor_shift_15:
  fixes x :: u32
  shows "(x XOR drop_bit 15 x) XOR drop_bit 15 (x XOR drop_bit 15 x)
      XOR drop_bit 30 (x XOR drop_bit 15 x) = x"
  using xor_shift_third [where x = x and n = 15, OF _ refl] by simp

lemma multiplier_64: "(0xe9846af9b1a615d :: u64) * 0x153ed04bd89cfaf5 = 1" by simp

lemma multipliers_32:
  "(0x21f0aaad :: u32) * 0x333c4925 = 1" "(0x735a2d97 :: u32) * 0x97132227 = 1" by simp_all

lemma unmix_64: "hash_unmix_64 (hash_mix x) = x"
  unfolding hash_unmix_64_def hash_mix_def hash_mix_64_def Let_def
  by (simp only: xor_shift_28 xor_shift_32 mult_undone(1) [OF multiplier_64])

lemma unmix_32: "hash_unmix_32 (hash_mix_32 x) = x"
  unfolding hash_unmix_32_def hash_mix_32_def Let_def
  by (simp only: xor_shift_15 xor_shift_16 mult_undone(1) [OF multipliers_32(1)]
      mult_undone(1) [OF multipliers_32(2)])

lemma hash_mix_inj: "hash_mix x = hash_mix y \<longleftrightarrow> x = y"
  using unmix_64 by metis

lemma hash_combine_inj:
  "hash_combine s h = hash_combine s' h \<longleftrightarrow> s = s'"
  "hash_combine s h = hash_combine s h' \<longleftrightarrow> h = h'"
  by (simp_all add: hash_combine_def hash_mix_inj)

text \<open>The hash functions of \<^verbatim>\<open>util/hash.hpp\<close> lose nothing: each has an inverse, so two values
  of a \<open>size_t\<close> (and, in the 32-bit variant, of a \<open>uint32_t\<close>) are never mixed into the same
  hash.\<close>

theorem hash_mix_undone:
  "hash_unmix_64 (hash_mix x) = x \<and> hash_unmix_32 (hash_mix_32 y) = y"
  by (simp add: unmix_64 unmix_32)

text \<open>C27. The hash of a connection key separates neighbours: where \<open>std::hash\<close> keeps the values of
  each component apart, two keys that differ in exactly one component, whichever it is, never
  have the same hash.\<close>

theorem conn_key_hash_separates:
  assumes "inj h32" "inj h16" "inj_on h_int {- (2 ^ 31) ..< 2 ^ 31}"
    and "r \<in> {- (2 ^ 31) ..< 2 ^ 31}" "r' \<in> {- (2 ^ 31) ..< 2 ^ 31}"
  shows "(conn_key_hash h32 h16 h_int (s, p, d, q, r)
            = conn_key_hash h32 h16 h_int (s', p, d, q, r) \<longleftrightarrow> s = s') \<and>
         (conn_key_hash h32 h16 h_int (s, p, d, q, r)
            = conn_key_hash h32 h16 h_int (s, p', d, q, r) \<longleftrightarrow> p = p') \<and>
         (conn_key_hash h32 h16 h_int (s, p, d, q, r)
            = conn_key_hash h32 h16 h_int (s, p, d', q, r) \<longleftrightarrow> d = d') \<and>
         (conn_key_hash h32 h16 h_int (s, p, d, q, r)
            = conn_key_hash h32 h16 h_int (s, p, d, q', r) \<longleftrightarrow> q = q') \<and>
         (conn_key_hash h32 h16 h_int (s, p, d, q, r)
            = conn_key_hash h32 h16 h_int (s, p, d, q, r') \<longleftrightarrow> r = r')"
  using assms by (simp add: hash_combine_inj inj_eq inj_on_eq_iff)

text \<open>A library that hashes every number to itself.\<close>

lemma conn_key_hash_separates_witness:
  "conn_key_hash ucast ucast word_of_int (1, 2, 3, 4, 6) \<noteq>
   conn_key_hash ucast ucast word_of_int (1, 2, 3, 4, 17)"
proof -
  have ints: "inj_on (word_of_int :: int \<Rightarrow> u64) {- (2 ^ 31) ..< 2 ^ 31}"
  proof (rule inj_onI)
    fix a b :: int
    assume "a \<in> {- (2 ^ 31) ..< 2 ^ 31}" "b \<in> {- (2 ^ 31) ..< 2 ^ 31}"
      and same: "(word_of_int a :: u64) = word_of_int b"
    moreover from same have "signed_take_bit 63 a = signed_take_bit 63 b"
      by (simp add: word_of_int_eq_iff take_bit_signed_take_bit signed_take_bit_eq_iff_take_bit_eq)
    ultimately show "a = b" by (simp add: signed_take_bit_int_eq_self)
  qed
  have "(ucast (ucast x :: u64) :: u32) = x" for x
    by transfer simp
  then have ips: "inj (ucast :: u32 \<Rightarrow> u64)" by (rule inj_on_inverseI)
  have "(ucast (ucast x :: u64) :: u16) = x" for x
    by transfer simp
  then have ports: "inj (ucast :: u16 \<Rightarrow> u64)" by (rule inj_on_inverseI)
  show ?thesis
    using conn_key_hash_separates [OF ips ports ints, of 6 17 1 2 3 4 5 6 7 8] by simp
qed

end
