(* ===== verification/Iface.thy ===== *)
theory Iface
  imports Conntrack
begin

text \<open>
  The interface that owns an address and its MTU, \<^verbatim>\<open>sys/iface.hpp\<close> and \<^verbatim>\<open>sys/iface.cpp\<close>. The
  answers of \<open>getifaddrs\<close>, \<open>socket\<close> and \<open>ioctl\<close> are parameters; what the code keeps open is state.
\<close>

section \<open>The operating system\<close>

text \<open>A \<open>sockaddr\<close> is the family and the bytes the kernel filled in; a list entry may have none.\<close>

record socket_address =
  sa_family :: u16
  sa_bytes :: "byte list"

record ifaddr =
  ifa_name :: string
  ifa_addr :: "socket_address option"

text \<open>\<open>Inl\<close> is the text of \<open>errno\<close>; a socket call fails with \<open>Some\<close> such text.\<close>

record iface_os =
  getifaddrs :: "string + ifaddr list"
  open_socket :: "string option"
  ioctl_mtu :: "string \<Rightarrow> string + i32"

record handles =
  open_sockets :: nat
  address_lists :: nat

definition AF_INET :: u16 where "AF_INET = 2"

definition IFNAMSIZ :: nat where "IFNAMSIZ = 16"

text \<open>Offsets of \<open>sin_addr\<close> and \<open>sin6_addr\<close>.\<close>

definition sin_addr_offset :: nat where "sin_addr_offset = 4"

section \<open>The code\<close>

text \<open>
  \<open>saddr\<close> points to the four bytes of an IPv4 address, the only type the program instantiates
  the template with. Comparing sixteen bytes with it reads beyond that object.
\<close>

fun iface_find_loop :: "u32 \<Rightarrow> ifaddr list \<Rightarrow> (string + string) result" where
  "iface_find_loop saddr [] = Inr (Inl ''no such interface'')"
| "iface_find_loop saddr (iface # rest) =
     (case ifa_addr iface of
        None \<Rightarrow> iface_find_loop saddr rest
      | Some addr \<Rightarrow>
          if sa_family addr = AF_INET then
            and_then (load32 (sa_bytes addr) sin_addr_offset) (\<lambda>sin_addr.
            if sin_addr = saddr then Inr (Inr (ifa_name iface)) else iface_find_loop saddr rest)
          else Inl Out_of_bounds)"

text \<open>The list \<open>getifaddrs\<close> allocates is never freed.\<close>

definition iface_find ::
    "iface_os \<Rightarrow> u32 \<Rightarrow> handles \<Rightarrow> ((string + string) \<times> handles) result" where
  "iface_find os saddr h =
     (case getifaddrs os of
        Inl e \<Rightarrow> Inr (Inl (''getifaddrs failure because '' @ e), h)
      | Inr ifs \<Rightarrow>
          and_then (iface_find_loop saddr ifs) (\<lambda>found.
          Inr (found, h\<lparr>address_lists := address_lists h + 1\<rparr>)))"

text \<open>\<open>strncpy\<close> stops at a null byte and at the size of the field.\<close>

definition iface_get_mtu :: "iface_os \<Rightarrow> string \<Rightarrow> handles \<Rightarrow> (string + i32) \<times> handles" where
  "iface_get_mtu os iface_name h =
     (case open_socket os of
        Some e \<Rightarrow> (Inl (''socket creation failure because '' @ e), h)
      | None \<Rightarrow>
          let h = h\<lparr>open_sockets := open_sockets h + 1\<rparr>;
              ifr_name = take IFNAMSIZ (takeWhile (\<lambda>c. c \<noteq> CHR 0x00) iface_name)
          in case ioctl_mtu os ifr_name of
               Inl e \<Rightarrow> (Inl (''ioctl failure because '' @ e), h)
             | Inr ifr_mtu \<Rightarrow> (Inr ifr_mtu, h))"

definition iface_find_and_get_mtu ::
    "iface_os \<Rightarrow> u32 \<Rightarrow> handles \<Rightarrow> ((string + i32) \<times> handles) result" where
  "iface_find_and_get_mtu os addr h =
     and_then (iface_find os addr h) (\<lambda>(iface_name, h).
     Inr (case iface_name of
            Inr name \<Rightarrow> iface_get_mtu os name h
          | Inl e \<Rightarrow> (Inl e, h)))"

text \<open>The argument \<open>get_mss\<close> takes.\<close>

definition mtu_lookup :: "iface_os \<Rightarrow> handles \<Rightarrow> u32 \<Rightarrow> (string + i32) result" where
  "mtu_lookup os h saddr = and_then (iface_find_and_get_mtu os saddr h) (\<lambda>(found, _). Inr found)"

section \<open>What the lookup finds\<close>

definition holds_address :: "u32 \<Rightarrow> ifaddr \<Rightarrow> bool" where
  "holds_address saddr iface =
     (case ifa_addr iface of
        None \<Rightarrow> False
      | Some a \<Rightarrow> sa_family a = AF_INET \<and> 8 \<le> length (sa_bytes a) \<and> get32 (sa_bytes a) 4 = saddr)"

text \<open>An entry that is stepped over: no address at all, or an IPv4 address that is another one.\<close>

definition skipped :: "u32 \<Rightarrow> ifaddr \<Rightarrow> bool" where
  "skipped saddr iface =
     (case ifa_addr iface of
        None \<Rightarrow> True
      | Some a \<Rightarrow> sa_family a = AF_INET \<and> 8 \<le> length (sa_bytes a) \<and> get32 (sa_bytes a) 4 \<noteq> saddr)"

definition other_family :: "ifaddr \<Rightarrow> bool" where
  "other_family iface = (case ifa_addr iface of None \<Rightarrow> False | Some a \<Rightarrow> sa_family a \<noteq> AF_INET)"

lemma find_loop_skips:
  "list_all (skipped saddr) pre \<Longrightarrow> iface_find_loop saddr (pre @ rest) = iface_find_loop saddr rest"
  by (induction pre) (auto simp: skipped_def sin_addr_offset_def load32_def split: option.splits)

lemma find_loop_owner:
  "holds_address saddr e \<Longrightarrow> iface_find_loop saddr (e # rest) = Inr (Inr (ifa_name e))"
  by (auto simp: holds_address_def sin_addr_offset_def load32_def split: option.splits)

lemma find_loop_other: "other_family e \<Longrightarrow> iface_find_loop saddr (e # rest) = Inl Out_of_bounds"
  by (auto simp: other_family_def split: option.splits)

lemma takeWhile_name:
  "CHR 0x00 \<notin> set name \<Longrightarrow> takeWhile (\<lambda>c. c \<noteq> CHR 0x00) name = name"
  by (rule takeWhile_eq_all_conv [THEN iffD2]) auto

lemma low_half_diff: "(ucast (scast m - k :: u64) :: u32) = m - ucast k"
proof transfer
  fix m k :: int
  show "take_bit LENGTH(32) (take_bit LENGTH(64) (signed_take_bit (LENGTH(32) - Suc 0) m - k))
      = take_bit LENGTH(32) (m - take_bit LENGTH(64) k)"
    using take_bit_diff [of 32 "signed_take_bit 31 m" k] take_bit_diff [of 32 m "take_bit 64 k"]
      take_bit_diff [of 32 m k]
    by (simp add: take_bit_signed_take_bit)
qed

text \<open>C28. The segment size of a connection that is not TCP comes from the first interface that holds its
  source address: its MTU less the IP and UDP headers; the lookup leaves one interface list and
  one socket behind. An entry of any other address family in front of that interface ends it
  instead with a read beyond the address.\<close>

theorem mtu_of_owner:
  assumes "getifaddrs os = Inr (pre @ e # rest)"
    and "list_all (skipped (source_addr conn)) pre"
    and "l4_proto conn \<noteq> IPPROTO_TCP" "mtu conn = None"
    and "open_socket os = None" "ioctl_mtu os (ifa_name e) = Inr m"
    and "CHR 0x00 \<notin> set (ifa_name e)" "length (ifa_name e) < IFNAMSIZ"
  shows "(holds_address (source_addr conn) e \<longrightarrow>
            get_mss (mtu_lookup os h) conn = Inr (m - 28, conn\<lparr>mtu := Some m\<rparr>) \<and>
            iface_find_and_get_mtu os (source_addr conn) h =
              Inr (Inr m, h\<lparr>open_sockets := open_sockets h + 1,
                           address_lists := address_lists h + 1\<rparr>)) \<and>
         (other_family e \<longrightarrow>
            get_mss (mtu_lookup os h) conn = Inl Out_of_bounds)"
proof (intro conjI impI)
  have loop: "iface_find_loop (source_addr conn) (pre @ e # rest)
      = iface_find_loop (source_addr conn) (e # rest)"
    using assms(2) by (rule find_loop_skips)
  {
    assume "other_family e"
    then have "iface_find_and_get_mtu os (source_addr conn) h = Inl Out_of_bounds"
      by (simp only: iface_find_and_get_mtu_def iface_find_def assms(1) loop
          find_loop_other sum.case and_then_simps)
    with assms(3,4) show "get_mss (mtu_lookup os h) conn = Inl Out_of_bounds"
      by (simp add: get_mss_def mtu_lookup_def)
  }
  assume "holds_address (source_addr conn) e"
  then have owner: "iface_find os (source_addr conn) h =
      Inr (Inr (ifa_name e), h\<lparr>address_lists := address_lists h + 1\<rparr>)"
    by (simp only: iface_find_def assms(1) loop find_loop_owner sum.case and_then_simps)
  with assms show found: "iface_find_and_get_mtu os (source_addr conn) h =
      Inr (Inr m, h\<lparr>open_sockets := open_sockets h + 1, address_lists := address_lists h + 1\<rparr>)"
    by (simp add: iface_find_and_get_mtu_def iface_get_mtu_def takeWhile_name)
  show "get_mss (mtu_lookup os h) conn = Inr (m - 28, conn\<lparr>mtu := Some m\<rparr>)"
    using assms(3,4) by (simp add: get_mss_def mtu_lookup_def found sizeof_iphdr_def sizeof_udphdr_def low_half_diff)
qed

text \<open>The loopback device, then the card that owns 10.0.0.2.\<close>

definition sample_interfaces :: "ifaddr list" where
  "sample_interfaces =
     [\<lparr>ifa_name = ''tun0'', ifa_addr = None\<rparr>,
      \<lparr>ifa_name = ''lo'',
       ifa_addr = Some \<lparr>sa_family = AF_INET, sa_bytes = [2, 0, 0, 0, 127, 0, 0, 1]\<rparr>\<rparr>,
      \<lparr>ifa_name = ''eth0'',
       ifa_addr = Some \<lparr>sa_family = AF_INET, sa_bytes = [2, 0, 0, 0, 10, 0, 0, 2]\<rparr>\<rparr>]"

definition sample_iface_os :: "ifaddr list \<Rightarrow> iface_os" where
  "sample_iface_os ifs =
     \<lparr>getifaddrs = Inr ifs, open_socket = None, ioctl_mtu = \<lambda>_. Inr 1400\<rparr>"

definition sample_datagrams :: connection where
  "sample_datagrams = new_connection\<lparr>source_addr := get32 [10, 0, 0, 2] 0, l4_proto := IPPROTO_UDP\<rparr>"

lemma mtu_of_owner_witness:
  "get_mss (mtu_lookup (sample_iface_os sample_interfaces) \<lparr>open_sockets = 0, address_lists = 0\<rparr>)
     sample_datagrams = Inr (1372, sample_datagrams\<lparr>mtu := Some 1400\<rparr>)"
proof -
  let ?e = "sample_interfaces ! 2"
  have owner: "holds_address (source_addr sample_datagrams) ?e"
    by (simp add: holds_address_def sample_interfaces_def sample_datagrams_def numeral_eq_Suc
        get32_def)
  have front: "list_all (skipped (source_addr sample_datagrams)) (take 2 sample_interfaces)"
    by code_simp
  have "l4_proto sample_datagrams \<noteq> IPPROTO_TCP" "mtu sample_datagrams = None"
    by (simp_all add: sample_datagrams_def new_connection_def IPPROTO_TCP_def IPPROTO_UDP_def)
  from mtu_of_owner [OF _ front this, of "sample_iface_os sample_interfaces" ?e "[]" 1400] owner
  show ?thesis
    by (simp add: sample_iface_os_def sample_interfaces_def numeral_eq_Suc IFNAMSIZ_def)
qed

end
