(* ===== verification/Spec2Isabelle.thy ===== *)
theory Spec2Isabelle
  imports Checksum Args Classify Markers Common Split Conntrack Splitter Disorder Modifier
    Stream_Safety Iptables Profile Asked Packet_Loop Progress Program Wire Receiver Hash Iface
begin

text \<open>
  waiwaiDPI, a verification development.

  The program sits between the local host and the network. An iptables rule per profile sends the
  first packets of every outgoing connection to a netfilter queue; the program holds them until it
  can tell which application protocol they carry, rewrites them so that a middlebox no longer
  recognises the host name in them (splitting, reordering, fake packets, overlaps, spoiled
  headers), and answers the queue. Sources are under \<^verbatim>\<open>src/src/\<close>; paths below are relative to it.

  \<^bold>\<open>The way of a packet.\<close> \<open>main\<close> reads the configuration (\<open>build_profiles\<close>), opens the sockets and
  loops over datagrams; \<open>cb_loop\<close> parses the queued buffer into a view, finds its connection
  (\<open>get_conn\<close>), updates the connection's state (\<open>track\<close>), holds the packet (\<open>reasm_insert\<close>), asks the
  profile's classifiers (\<open>classify\<close>), and, when the protocol is known, runs the profile's modifiers
  (\<open>modifier_modify\<close>) over the held packets and sends what comes out (\<open>send_packets\<close>). Every ten
  seconds dead connections are cleared and what they hold is accepted (\<open>sweep\<close>).

  \<^bold>\<open>Theories and sources.\<close>

  \<^item> \<open>Prelude\<close>: machine types, the outcomes of a C++ computation (\<open>fault\<close>, \<open>result\<close>), loads and
    stores in byte buffers, loops over filter views. No code of the program.
  \<^item> \<open>Packet\<close> (\<^verbatim>\<open>net/packet_view.*\<close>, \<^verbatim>\<open>net/protocol.hpp\<close>): \<open>packet_view\<close>, \<open>packet\<close>, \<open>packet_action\<close>;
    parsing, copying, rebuilding. Headers are read and written at their offsets in the buffer.
  \<^item> \<open>Checksum\<close> (\<^verbatim>\<open>net/checksum.cpp\<close>), \<open>Args\<close> (\<^verbatim>\<open>modify/args.cpp\<close>: split positions and blobs),
    \<open>Hash\<close> (\<^verbatim>\<open>util/hash.hpp\<close>), \<open>Iface\<close> (\<^verbatim>\<open>sys/iface.*\<close>: the MTU of an address's interface),
    \<open>Iptables\<close> (\<^verbatim>\<open>sys/iptables.*\<close> and the texts of the rules).
  \<^item> \<open>Reassembly\<close> (\<open>concat\<close>, \<open>concat_sorted\<close>), \<open>Common\<close> (header passes, \<open>segmentize\<close>), \<open>Split\<close>
    (\<^verbatim>\<open>modify/algorithms/\<close>), \<open>Markers\<close> (\<^verbatim>\<open>modify/markers.cpp\<close>), \<open>Classify\<close> (\<^verbatim>\<open>classify/\<close>).
  \<^item> \<open>Modifiers\<close> (what \<^verbatim>\<open>modify/splitter.cpp\<close> and \<^verbatim>\<open>modify/disorder.cpp\<close> have in common), \<open>Splitter\<close>,
    \<open>Disorder\<close>, \<open>Modifier\<close> (\<^verbatim>\<open>modify/modifier.*\<close>: filter and chain).
  \<^item> \<open>Conntrack\<close> (\<^verbatim>\<open>conntrack/conn_tracker.*\<close>, \<^verbatim>\<open>net/consts.hpp\<close>): the \<open>connection\<close> record, tracking,
    held packets, the connection table and its clearing.
  \<^item> \<open>Toml\<close>, \<open>Config\<close> (both \<open>parse_config\<close>), \<open>Profile\<close> (\<^verbatim>\<open>config/profile.*\<close>); \<open>Asked\<close>: what a file asks
    for, stated independently of the code, and that \<open>build_profiles\<close> builds it.
  \<^item> \<open>Packet_Loop\<close> and \<open>Program\<close> (\<^verbatim>\<open>main.cpp\<close>): the callback, the receive loop, \<open>main\<close>; \<open>Progress\<close>:
    when the callback gets through.
  \<^item> \<open>Rewriter\<close>, \<open>Stream_Safety\<close>, \<open>Wire\<close>, \<open>Receiver\<close>: promises that passes over a packet vector make, stated as
    locales and interpreted on the program's passes.

  \<^bold>\<open>How state and operations correspond.\<close> A method that changes \<open>*this\<close> or its reference arguments
  returns the changed value. A statement that can throw, fail an assertion or leave what the
  language defines is a value of \<open>fault\<close>: an access outside a buffer, the use of an iterator that
  no longer points anywhere, a null pointer, a division by zero, a signed overflow, a loop without
  end. So a theorem that a routine returns \<open>Inr\<close> also says that none of these happens. Integers
  have their width (words) where the source computes with them. Vectors are lists, iterators are
  positions, hash tables are association lists (their order of iteration is the order of the list,
  and no theorem about a set of entries depends on it). Packets and verdicts that leave the program
  are \<open>event\<close>s; shell commands are a list of texts.

  \<^bold>\<open>Parameters.\<close> What is not under \<^verbatim>\<open>src/\<close> is an argument: the numbers \<open>rand()\<close> gives, the clock, the
  interface MTU and whether a vector reallocates or a filter view caches an iterator
  (\<open>environment\<close>); parsing TOML, its converting accessors, \<open>inet_pton\<close> and files (\<open>toml_lib\<close>); the
  shell (\<open>shell\<close>); \<open>getifaddrs\<close>, \<open>socket\<close>, \<open>ioctl\<close> (\<open>iface_os\<close>); the netlink and socket calls of
  \<open>main\<close> (\<open>os\<close>); \<open>std::hash\<close>. The accessors of a TOML node that only tell its alternatives apart
  (\<open>as_string\<close> and so on) are defined on the datatype of the alternatives TOML has.

  \<^bold>\<open>What is shown.\<close>

  \<^item> Verdicts. The locale \<open>packet_rewriter\<close> states that a pass keeps packets well-formed and keeps the
    verdicts owed; every pass, both modifiers and the chain are interpretations. \<open>Packet_Loop\<close> and
    \<open>Program\<close> carry this to the queue: over any sequence of messages and clean-ups (\<open>serves\<close>) every id
    is answered, held, or lost, and in one of these ways only; the lost ones are exactly the
    retransmissions of held packets and the packets held when the classifier gives up, two defects
    of the code. Nothing is held for ever, and \<open>main\<close> never answers an id twice.
    \<open>Progress\<close> shows that the callback returns on every ordinary TCP packet unless a modifier faults.
    It also tells, for every datagram with a profile, whether it is accepted, held or raises an
    exception, which nothing in the program catches.
  \<^item> The stream. \<open>concat_view\<close> is shown to give the byte stream of the packets; \<open>stream_keeper\<close> states
    that a pass leaves that stream alone, for splits, reordering, fakes, time to live and
    checksums; \<open>accept_keeper\<close> and \<open>wire_carries_stream\<close> carry it to the bytes on the wire.
    \<open>receiver_keeper\<close> and \<open>receiver_gets_stream\<close> look from the other end: of real and fake packets
    together a receiver, who sees time to live and checksum only, takes exactly the stream, provided
    the fakes have a time to live too short for the path. Fakes that rely on a sequence number, a
    timestamp or a spoiled checksum alone are not covered.
    A consequence of the same analysis is that header changes without a split are never sent.
  \<^item> The routines: checksums pass the receiver's test (\<open>receiver_accepts\<close>, written from the protocol),
    segments tile the payload, a split cuts at its position, markers
    delimit the host name, the overlap keeps the data, timestamps move, held packets stay in order,
    connections open and close, dead ones go.
  \<^item> The configuration: printing and parsing are inverse for positions, blobs and whole modifiers;
    an accepted file becomes exactly the profiles it asks for, and exactly the rules the listing did
    not show are run; a successful end takes the rules back and a failing one does not.
  \<^item> Errors: each branch that faults is stated with the inputs that reach it.

  \<^bold>\<open>Loops and bounds.\<close> Loops over data are structural recursions or have a measure (\<open>fold_carries\<close>,
  \<open>segment_loop\<close>, \<open>fill_pattern\<close>, \<open>mss_loop\<close>, \<open>tls_ext_loop\<close>, \<open>parse_loop\<close>). The option loop of
  \<open>timestamp_val_offset\<close> may run for ever; it is a partial function whose undefined value is the
  fault \<open>Diverges\<close>, and the inputs on which it does so are shown. The receive loop runs over the list of
  turns the operating system grants; it ends with the signal. How libmnl calls the callback for the
  messages of one datagram (\<open>mnl_cb_run\<close>) is its documented behaviour. No fuel is used.

  \<^bold>\<open>Not modelled.\<close> Logging; the bytes of netlink messages (\<^verbatim>\<open>sys/nfq.cpp\<close> and the library calls of
  \<open>cb_loop\<close> and \<open>main\<close>), which are pure input and output; the command-line library. The order in
  which a hash table is walked is not specified by the language and is left to the list. The signal handler is the end of the list of turns.
\<close>

end
